(* ===== verification/Prelude.thy ===== *)
theory Prelude
  imports Main
begin

text \<open>
  Shared vocabulary of the development: the bytes and sizes of the C++ code, the errors an
  operation can end with, the sequencing of fallible operations, and the list lemmas the
  component theories use.
\<close>

section \<open>Bytes, sizes and errors\<close>

text \<open>
  A \<open>char\<close> or \<open>unsigned char\<close> of the source is an 8-bit \<^typ>\<open>char\<close>; a \<open>std::string\<close> or a
  block of memory is a list of them. A \<open>size_t\<close> is a \<^typ>\<open>nat\<close>; its largest value
  \<open>~0\<close>, which the code uses as "everything", is \<open>npos\<close>. Where the code computes a size that
  can exceed it, the definition writes the reduction modulo \<open>2 ^ 64\<close> out.
\<close>

type_synonym byte = char

abbreviation size_mod :: nat where
  "size_mod \<equiv> 18446744073709551616"

definition npos :: nat where
  "npos = size_mod - 1"

text \<open>
  How an operation can fail. \<open>Assertion\<close> is a failed \<open>MORDOR_ASSERT\<close> and \<open>NotReached\<close> is
  \<open>MORDOR_NOTREACHED\<close>; the next group are the exceptions the code throws; \<open>UB\<close> is a step C++
  gives no meaning to (dereferencing an end or an erased iterator), and \<open>Loops\<close> is a loop that
  repeats the same state for ever. The last two are values so that a theorem of success rules
  them out.
\<close>

datatype error =
    Assertion | NotReached
  | OutOfRange | InvalidArgument | LengthError | UnexpectedEof | BufferOverflow | WriteBeyondEof
  | InvalidChunkHeader | InvalidChunkFooter | BrokenPipe | OperationAborted | ParentError nat
  | UB | Loops

type_synonym 'a result = "error + 'a"

text \<open>\<open>MORDOR_ASSERT(c); k\<close> and the sequencing of two operations.\<close>

definition ensure :: "bool \<Rightarrow> 'a result \<Rightarrow> 'a result" where
  "ensure c k = (if c then k else Inl Assertion)"

definition andThen :: "'a result \<Rightarrow> ('a \<Rightarrow> 'b result) \<Rightarrow> 'b result" where
  "andThen m f = (case m of Inl e \<Rightarrow> Inl e | Inr x \<Rightarrow> f x)"

lemma ensure_True [simp]: "ensure True k = k"
  by (simp add: ensure_def)

lemma ensure_False [simp]: "ensure False k = Inl Assertion"
  by (simp add: ensure_def)

lemma ensure_eq_Inr [simp]: "ensure c k = Inr x \<longleftrightarrow> c \<and> k = Inr x"
  by (simp add: ensure_def)

lemma andThen_Inr [simp]: "andThen (Inr x) f = f x"
  by (simp add: andThen_def)

lemma andThen_Inl [simp]: "andThen (Inl e) f = Inl e"
  by (simp add: andThen_def)

lemma andThen_eq_Inr: "andThen m f = Inr y \<longleftrightarrow> (\<exists>x. m = Inr x \<and> f x = Inr y)"
  by (cases m) auto

section \<open>Lemma collections\<close>

named_theorems io_defs \<open>the combinators of operations on streams\<close>
named_theorems pipe_defs \<open>the operations of a pipe\<close>

section \<open>Lists\<close>

lemma take_drop_split: "n \<le> m \<Longrightarrow> take m xs = take n xs @ take (m - n) (drop n xs)"
  by (metis le_add_diff_inverse take_add)

lemma take_append_ge: "length xs \<le> n \<Longrightarrow> take n (xs @ ys) = xs @ take (n - length xs) ys"
  by simp

lemma sum_list_map_append: "sum_list (map f (xs @ ys)) = sum_list (map f xs) + sum_list (map (f :: 'a \<Rightarrow> nat) ys)"
  by simp

lemma sum_list_eq_0_all: "sum_list (map (f :: 'a \<Rightarrow> nat) xs) = 0 \<longleftrightarrow> (\<forall>x\<in>set xs. f x = 0)"
  by (induction xs) auto

lemma length_concat_map: "length (concat (map f xs)) = sum_list (map (\<lambda>x. length (f x)) xs)"
  by (induction xs) auto

lemma concat_map_Nil: "(\<forall>x\<in>set xs. f x = []) \<Longrightarrow> concat (map f xs) = []"
  by (induction xs) auto

section \<open>Sums over the elements of a list\<close>

definition tally :: "('a \<Rightarrow> 'b :: comm_monoid_add) \<Rightarrow> 'a list \<Rightarrow> 'b" where
  "tally f xs = sum_list (map f xs)"

lemma tally_update: "i < length xs \<Longrightarrow> tally f (xs[i := y]) + f (xs ! i) = tally f xs + f y"
proof (induction xs arbitrary: i)
  case (Cons x xs)
  then show ?case by (cases i) (auto simp: tally_def ac_simps)
qed simp

lemma tally_replicate [simp]: "tally f (replicate n x) = n * (f x :: nat)"
  by (induction n) (auto simp: tally_def)

lemma tally_zero: "tally f xs = (0 :: nat) \<longleftrightarrow> (\<forall>x \<in> set xs. f x = 0)"
  by (simp add: tally_def)

lemma tally_length: "tally (\<lambda>_. 1 :: nat) xs = length xs"
  by (induction xs) (auto simp: tally_def)

lemma tally_mono: "(\<And>x. x \<in> set xs \<Longrightarrow> f x \<le> (g x :: nat)) \<Longrightarrow> tally f xs \<le> tally g xs"
  unfolding tally_def by (rule sum_list_mono)

end
