(* ===== verification/Buffer_Segment.thy ===== *)
theory Buffer_Segment
  imports Prelude
begin

text \<open>
  The memory under a \<open>Buffer\<close>: the arrays that \<open>SegmentData\<close> shares through \<open>m_array\<close>, the
  slices \<open>SegmentData\<close> of one array, and a \<open>Segment\<close>, which is a slice with a write index
  that separates bytes to be read from space to be written (buffer.h and the first part of
  buffer.cpp). The last sections state which memory cells a segment covers and that writing
  outside them leaves its bytes alone.
\<close>

section \<open>Arrays\<close>

text \<open>
  An array is a block of bytes that \<open>m_array\<close> keeps alive; arrays are named by numbers, and a
  \<open>void *\<close> into one is its name and an offset. \<open>hp_junk\<close> gives the bytes
  \<open>new unsigned char[n]\<close> finds in a fresh block, about which nothing is assumed.
\<close>

type_synonym array_id = nat

record heap =
  hp_mem :: "array_id \<Rightarrow> byte list"
  hp_next :: array_id
  hp_junk :: "array_id \<Rightarrow> nat \<Rightarrow> byte"

definition new_array :: "nat \<Rightarrow> heap \<Rightarrow> array_id \<times> heap" where
  "new_array n h =
     (let a = hp_next h
      in (a, h\<lparr>hp_mem := (hp_mem h)(a := map (hp_junk h a) [0..<n]), hp_next := Suc a\<rparr>))"

text \<open>\<open>memcpy\<close> into an array; copying past its end has no meaning in C++.\<close>

definition memcpy :: "array_id \<Rightarrow> nat \<Rightarrow> byte list \<Rightarrow> heap \<Rightarrow> heap result" where
  "memcpy a off bs h =
     (if off + length bs \<le> length (hp_mem h a)
      then Inr (h\<lparr>hp_mem := (hp_mem h)(a := take off (hp_mem h a) @ bs @
                                              drop (off + length bs) (hp_mem h a))\<rparr>)
      else Inl UB)"

definition mem_read :: "heap \<Rightarrow> array_id \<Rightarrow> nat \<Rightarrow> nat \<Rightarrow> byte list" where
  "mem_read h a off n = take n (drop off (hp_mem h a))"

section \<open>SegmentData\<close>

record segment_data =
  m_array :: array_id
  m_start :: nat
  m_length :: nat

definition SegmentData_new :: "nat \<Rightarrow> heap \<Rightarrow> segment_data \<times> heap" where
  "SegmentData_new n h =
     (case new_array n h of (a, h') \<Rightarrow> (\<lparr>m_array = a, m_start = 0, m_length = n\<rparr>, h'))"

definition SegmentData_adopt :: "array_id \<Rightarrow> nat \<Rightarrow> segment_data" where
  "SegmentData_adopt a n = \<lparr>m_array = a, m_start = 0, m_length = n\<rparr>"

definition SegmentData_slice :: "nat \<Rightarrow> nat \<Rightarrow> segment_data \<Rightarrow> segment_data result" where
  "SegmentData_slice start len d =
     (let len' = (if len = npos then m_length d - start else len)
      in ensure (start \<le> m_length d)
          (ensure (len' + start \<le> m_length d)
            (Inr (d\<lparr>m_start := m_start d + start, m_length := len'\<rparr>))))"

definition SegmentData_extend :: "nat \<Rightarrow> segment_data \<Rightarrow> segment_data" where
  "SegmentData_extend n d = d\<lparr>m_length := m_length d + n\<rparr>"

section \<open>Segment\<close>

record segment =
  m_writeIndex :: nat
  m_data :: segment_data

text \<open>\<open>Segment::invariant()\<close>, which every accessor asserts.\<close>

definition Segment_invariant :: "segment \<Rightarrow> bool" where
  "Segment_invariant s \<longleftrightarrow> m_writeIndex s \<le> m_length (m_data s)"

definition Segment_new :: "nat \<Rightarrow> heap \<Rightarrow> segment \<times> heap" where
  "Segment_new n h =
     (case SegmentData_new n h of (d, h') \<Rightarrow> (\<lparr>m_writeIndex = 0, m_data = d\<rparr>, h'))"

definition Segment_of :: "segment_data \<Rightarrow> segment" where
  "Segment_of d = \<lparr>m_writeIndex = m_length d, m_data = d\<rparr>"

definition Segment_adopt :: "array_id \<Rightarrow> nat \<Rightarrow> segment" where
  "Segment_adopt a n = \<lparr>m_writeIndex = 0, m_data = SegmentData_adopt a n\<rparr>"

definition Segment_readAvailable :: "segment \<Rightarrow> nat" where
  "Segment_readAvailable s = m_writeIndex s"

definition Segment_writeAvailable :: "segment \<Rightarrow> nat" where
  "Segment_writeAvailable s = m_length (m_data s) - m_writeIndex s"

definition Segment_length :: "segment \<Rightarrow> nat" where
  "Segment_length s = m_length (m_data s)"

definition Segment_produce :: "nat \<Rightarrow> segment \<Rightarrow> segment result" where
  "Segment_produce n s =
     ensure (n \<le> Segment_writeAvailable s)
       (let s' = s\<lparr>m_writeIndex := m_writeIndex s + n\<rparr>
        in ensure (Segment_invariant s') (Inr s'))"

definition Segment_consume :: "nat \<Rightarrow> segment \<Rightarrow> segment result" where
  "Segment_consume n s =
     ensure (n \<le> Segment_readAvailable s)
       (andThen (SegmentData_slice n npos (m_data s)) (\<lambda>d.
          let s' = \<lparr>m_writeIndex = m_writeIndex s - n, m_data = d\<rparr>
          in ensure (Segment_invariant s') (Inr s')))"

text \<open>
  \<open>Segment::truncate\<close>: its second assertion is an assignment, \<open>m_writeIndex =
  readAvailable()\<close>, so it fails exactly when nothing can be read.
\<close>

definition Segment_truncate :: "nat \<Rightarrow> segment \<Rightarrow> segment result" where
  "Segment_truncate n s =
     ensure (n \<le> Segment_readAvailable s)
       (ensure (Segment_readAvailable s \<noteq> 0)
         (andThen (SegmentData_slice 0 n (m_data s)) (\<lambda>d.
            let s' = \<lparr>m_writeIndex = n, m_data = d\<rparr>
            in ensure (Segment_invariant s') (Inr s'))))"

definition Segment_extend :: "nat \<Rightarrow> segment \<Rightarrow> segment" where
  "Segment_extend n s =
     \<lparr>m_writeIndex = m_writeIndex s + n, m_data = SegmentData_extend n (m_data s)\<rparr>"

definition Segment_readBuffer :: "segment \<Rightarrow> segment_data" where
  "Segment_readBuffer s = (m_data s)\<lparr>m_length := m_writeIndex s\<rparr>"

definition Segment_writeBuffer :: "segment \<Rightarrow> segment_data" where
  "Segment_writeBuffer s =
     (m_data s)\<lparr>m_start := m_start (m_data s) + m_writeIndex s,
                m_length := m_length (m_data s) - m_writeIndex s\<rparr>"

section \<open>What a segment holds and which cells it covers\<close>

text \<open>
  The bytes ready to be read and the contents of the space still to be written. A cell is an
  array and an index in it.
\<close>

definition seg_read :: "heap \<Rightarrow> segment \<Rightarrow> byte list" where
  "seg_read h s = mem_read h (m_array (m_data s)) (m_start (m_data s)) (m_writeIndex s)"

definition seg_write :: "heap \<Rightarrow> segment \<Rightarrow> byte list" where
  "seg_write h s = mem_read h (m_array (m_data s)) (m_start (m_data s) + m_writeIndex s)
     (m_length (m_data s) - m_writeIndex s)"

definition cells :: "segment \<Rightarrow> (array_id \<times> nat) set" where
  "cells s = {m_array (m_data s)} \<times> {m_start (m_data s) ..< m_start (m_data s) + m_length (m_data s)}"

definition wcells :: "segment \<Rightarrow> (array_id \<times> nat) set" where
  "wcells s = {m_array (m_data s)} \<times>
     {m_start (m_data s) + m_writeIndex s ..< m_start (m_data s) + m_length (m_data s)}"

text \<open>
  A segment is good in a heap when its write index is in range, it is not empty, and its slice
  lies inside an allocated array whose size is a \<open>size_t\<close> other than the "everything" marker.
\<close>

definition seg_ok :: "heap \<Rightarrow> segment \<Rightarrow> bool" where
  "seg_ok h s \<longleftrightarrow> Segment_invariant s \<and> 0 < m_length (m_data s) \<and>
     m_array (m_data s) < hp_next h \<and>
     m_start (m_data s) + m_length (m_data s) \<le> length (hp_mem h (m_array (m_data s))) \<and>
     length (hp_mem h (m_array (m_data s))) < npos"

text \<open>Two segments do not interfere: neither can write what the other covers.\<close>

definition seg_apart :: "segment \<Rightarrow> segment \<Rightarrow> bool" where
  "seg_apart s t \<longleftrightarrow> wcells s \<inter> cells t = {} \<and> cells s \<inter> wcells t = {}"

lemmas segment_defs =
  Segment_readAvailable_def Segment_writeAvailable_def Segment_length_def
  Segment_invariant_def Segment_of_def Segment_extend_def Segment_readBuffer_def
  Segment_writeBuffer_def SegmentData_extend_def

lemma wcells_subset: "wcells s \<subseteq> cells s"
  by (auto simp: wcells_def cells_def)

lemma seg_apart_sym: "seg_apart s t \<Longrightarrow> seg_apart t s"
  by (auto simp: seg_apart_def)

lemma seg_apart_mono:
  "seg_apart s t \<Longrightarrow> cells s' \<subseteq> cells s \<Longrightarrow> wcells s' \<subseteq> wcells s \<Longrightarrow>
   cells t' \<subseteq> cells t \<Longrightarrow> wcells t' \<subseteq> wcells t \<Longrightarrow> seg_apart s' t'"
  unfolding seg_apart_def by blast

lemma length_mem_read:
  "off + n \<le> length (hp_mem h a) \<Longrightarrow> length (mem_read h a off n) = n"
  by (simp add: mem_read_def)

lemma length_seg_read: "seg_ok h s \<Longrightarrow> length (seg_read h s) = Segment_readAvailable s"
  by (simp add: seg_ok_def seg_read_def length_mem_read segment_defs)

lemma length_seg_write: "seg_ok h s \<Longrightarrow> length (seg_write h s) = Segment_writeAvailable s"
  by (simp add: seg_ok_def seg_write_def length_mem_read segment_defs)

text \<open>The slices \<open>readBuffer()\<close> and \<open>writeBuffer()\<close> of the source are these two records.\<close>

lemma readBuffer_is_slice:
  "seg_ok h s \<Longrightarrow> SegmentData_slice 0 (m_writeIndex s) (m_data s) = Inr (Segment_readBuffer s)"
  by (auto simp: seg_ok_def SegmentData_slice_def segment_defs npos_def)

lemma writeBuffer_is_slice:
  "seg_ok h s \<Longrightarrow> SegmentData_slice (m_writeIndex s) npos (m_data s) = Inr (Segment_writeBuffer s)"
  by (auto simp: seg_ok_def SegmentData_slice_def segment_defs)

subsection \<open>Effect of the segment operations\<close>

lemma Segment_produce_ok:
  assumes "seg_ok h s" and "n \<le> Segment_writeAvailable s"
  obtains s' where "Segment_produce n s = Inr s'" and "m_data s' = m_data s"
    and "m_writeIndex s' = m_writeIndex s + n" and "seg_ok h s'"
    and "seg_read h s' = seg_read h s @ take n (seg_write h s)"
    and "seg_write h s' = drop n (seg_write h s)"
    and "cells s' = cells s" and "wcells s' \<subseteq> wcells s"
proof
  let ?s = "s\<lparr>m_writeIndex := m_writeIndex s + n\<rparr>"
  show "Segment_produce n s = Inr ?s"
    using assms by (auto simp: Segment_produce_def seg_ok_def segment_defs)
  show "seg_read h ?s = seg_read h s @ take n (seg_write h s)"
    using assms
    by (simp add: seg_read_def seg_write_def mem_read_def segment_defs take_add min_def)
      (simp add: add.commute)
  show "seg_write h ?s = drop n (seg_write h s)"
    by (simp add: seg_write_def mem_read_def drop_take ac_simps)
qed (use assms in \<open>auto simp: seg_ok_def segment_defs cells_def wcells_def\<close>)

lemma Segment_consume_ok:
  assumes "seg_ok h s" and "n \<le> Segment_readAvailable s"
  obtains s' where "Segment_consume n s = Inr s'"
    and "m_writeIndex s' = m_writeIndex s - n"
    and "m_array (m_data s') = m_array (m_data s)"
    and "m_start (m_data s') = m_start (m_data s) + n"
    and "m_length (m_data s') = m_length (m_data s) - n"
    and "seg_read h s' = drop n (seg_read h s)"
    and "seg_write h s' = seg_write h s"
    and "cells s' \<subseteq> cells s" and "wcells s' = wcells s"
proof
  let ?s = "\<lparr>m_writeIndex = m_writeIndex s - n,
             m_data = (m_data s)\<lparr>m_start := m_start (m_data s) + n,
                                 m_length := m_length (m_data s) - n\<rparr>\<rparr>"
  show "Segment_consume n s = Inr ?s"
    using assms by (auto simp: Segment_consume_def SegmentData_slice_def seg_ok_def segment_defs)
  show "seg_read h ?s = drop n (seg_read h s)"
    using assms by (simp add: seg_read_def mem_read_def drop_take segment_defs add.commute)
  show "seg_write h ?s = seg_write h s"
    using assms by (simp add: seg_write_def mem_read_def segment_defs)
qed (use assms in \<open>auto simp: cells_def wcells_def segment_defs\<close>)

lemma Segment_truncate_ok:
  assumes "seg_ok h s" and "n \<le> Segment_readAvailable s" and "0 < n"
  obtains s' where "Segment_truncate n s = Inr s'"
    and "m_writeIndex s' = n" and "m_array (m_data s') = m_array (m_data s)"
    and "m_start (m_data s') = m_start (m_data s)" and "m_length (m_data s') = n"
    and "seg_ok h s'" and "seg_read h s' = take n (seg_read h s)" and "seg_write h s' = []"
    and "cells s' \<subseteq> cells s" and "wcells s' = {}"
proof
  let ?s = "\<lparr>m_writeIndex = n, m_data = (m_data s)\<lparr>m_length := n\<rparr>\<rparr>"
  show "Segment_truncate n s = Inr ?s"
    using assms by (auto simp: Segment_truncate_def SegmentData_slice_def seg_ok_def segment_defs)
  show "seg_read h ?s = take n (seg_read h s)"
    using assms by (simp add: seg_read_def mem_read_def segment_defs min_def)
  show "seg_write h ?s = []"
    by (simp add: seg_write_def mem_read_def)
qed (use assms in \<open>auto simp: cells_def wcells_def segment_defs seg_ok_def\<close>)

text \<open>Slicing the readable part, as \<open>copyIn\<close>, \<open>readBuffers\<close> and \<open>truncate\<close> do.\<close>

lemma slice_read_ok:
  assumes "seg_ok h s" and "p + n \<le> Segment_readAvailable s" and "0 < n"
  obtains d where "SegmentData_slice p n (Segment_readBuffer s) = Inr d"
    and "m_array d = m_array (m_data s)" and "m_start d = m_start (m_data s) + p"
    and "m_length d = n"
    and "seg_ok h (Segment_of d)" and "seg_read h (Segment_of d) = take n (drop p (seg_read h s))"
    and "cells (Segment_of d) \<subseteq> cells s - wcells s" and "wcells (Segment_of d) = {}"
proof
  let ?d = "(m_data s)\<lparr>m_start := m_start (m_data s) + p, m_length := n\<rparr>"
  show "SegmentData_slice p n (Segment_readBuffer s) = Inr ?d"
    using assms by (auto simp: SegmentData_slice_def seg_ok_def segment_defs)
  show "seg_read h (Segment_of ?d) = take n (drop p (seg_read h s))"
    using assms by (simp add: seg_read_def mem_read_def segment_defs drop_take min_def add.commute)
qed (use assms in \<open>auto simp: cells_def wcells_def segment_defs seg_ok_def\<close>)

lemma Segment_of_readBuffer_ok:
  assumes "seg_ok h s" and "Segment_readAvailable s \<noteq> 0"
  shows "seg_ok h (Segment_of (Segment_readBuffer s))"
    and "seg_read h (Segment_of (Segment_readBuffer s)) = seg_read h s"
    and "seg_write h (Segment_of (Segment_readBuffer s)) = []"
    and "cells (Segment_of (Segment_readBuffer s)) \<subseteq> cells s - wcells s"
    and "wcells (Segment_of (Segment_readBuffer s)) = {}"
  using assms
  by (auto simp: seg_ok_def segment_defs seg_read_def seg_write_def mem_read_def cells_def wcells_def)

subsection \<open>Writing memory\<close>

lemma memcpy_ok:
  assumes "off + length bs \<le> length (hp_mem h a)"
  obtains h' where "memcpy a off bs h = Inr h'"
  using assms by (auto simp: memcpy_def)

lemma memcpy_InrD:
  assumes "memcpy a off bs h = Inr h'"
  shows "off + length bs \<le> length (hp_mem h a)" and "hp_next h' = hp_next h"
    and "hp_mem h' a = take off (hp_mem h a) @ bs @ drop (off + length bs) (hp_mem h a)"
    and "\<And>c. c \<noteq> a \<Longrightarrow> hp_mem h' c = hp_mem h c"
    and "\<And>c. length (hp_mem h' c) = length (hp_mem h c)"
  using assms by (auto simp: memcpy_def split: if_splits)

lemma mem_read_memcpy_same:
  "memcpy a off bs h = Inr h' \<Longrightarrow> mem_read h' a off (length bs) = bs"
  by (frule memcpy_InrD(1)) (drule memcpy_InrD(3), simp add: mem_read_def)

text \<open>
  The frame of a change of the heap: it may allocate arrays and write the cells \<open>W\<close> of the old
  ones, and leaves every other old cell as it was.
\<close>

definition heap_frame :: "(array_id \<times> nat) set \<Rightarrow> heap \<Rightarrow> heap \<Rightarrow> bool" where
  "heap_frame W h h' \<longleftrightarrow> hp_next h \<le> hp_next h' \<and>
     (\<forall>a < hp_next h. length (hp_mem h' a) = length (hp_mem h a) \<and>
        (\<forall>i < length (hp_mem h a). (a, i) \<notin> W \<longrightarrow> hp_mem h' a ! i = hp_mem h a ! i))"

definition fresh_cells :: "heap \<Rightarrow> (array_id \<times> nat) set" where
  "fresh_cells h = {(a, i). hp_next h \<le> a}"

lemma heap_frame_refl [simp]: "heap_frame W h h"
  by (simp add: heap_frame_def)

lemma heap_frame_mono: "heap_frame W h h' \<Longrightarrow> W \<subseteq> V \<Longrightarrow> heap_frame V h h'"
  unfolding heap_frame_def by blast

lemma heap_frame_trans:
  assumes "heap_frame W h h1" and "heap_frame V h1 h2" and "V \<subseteq> W \<union> fresh_cells h"
  shows "heap_frame W h h2"
proof -
  have "hp_mem h2 a ! i = hp_mem h a ! i"
    if "a < hp_next h" "i < length (hp_mem h a)" "(a, i) \<notin> W" for a i
  proof -
    have "(a, i) \<notin> V" using assms(3) that by (auto simp: fresh_cells_def)
    then show ?thesis using assms(1,2) that by (auto simp: heap_frame_def)
  qed
  then show ?thesis using assms(1,2) by (auto simp: heap_frame_def)
qed

lemma memcpy_frame:
  assumes "memcpy a off bs h = Inr h'"
  shows "heap_frame ({a} \<times> {off ..< off + length bs}) h h'"
proof -
  have "hp_mem h' c ! i = hp_mem h c ! i"
    if "i < length (hp_mem h c)" and "(c, i) \<notin> {a} \<times> {off ..< off + length bs}" for c i
  proof (cases "c = a")
    case True
    then show ?thesis
      using memcpy_InrD(1,3)[OF assms] that by (auto simp: nth_append not_less min_def)
  qed (use memcpy_InrD(4)[OF assms] in simp)
  then show ?thesis using memcpy_InrD(2,5)[OF assms] by (simp add: heap_frame_def)
qed

lemma mem_read_frame:
  assumes "heap_frame W h h'" and "a < hp_next h" and "p + n \<le> length (hp_mem h a)"
    and "W \<inter> ({a} \<times> {p ..< p + n}) = {}"
  shows "mem_read h' a p n = mem_read h a p n"
  unfolding mem_read_def
proof (rule nth_equalityI)
  show "length (take n (drop p (hp_mem h' a))) = length (take n (drop p (hp_mem h a)))"
    using assms(1,2) by (simp add: heap_frame_def)
next
  fix i assume "i < length (take n (drop p (hp_mem h' a)))"
  then have i: "i < n" "p + i < length (hp_mem h a)"
    using assms(1,2) by (auto simp: heap_frame_def)
  then have "(a, p + i) \<notin> W" using assms(4) by auto
  then show "take n (drop p (hp_mem h' a)) ! i = take n (drop p (hp_mem h a)) ! i"
    using assms(1,2) i by (auto simp: heap_frame_def)
qed

lemma seg_ok_frame: "heap_frame W h h' \<Longrightarrow> seg_ok h s \<Longrightarrow> seg_ok h' s"
  by (auto simp: heap_frame_def seg_ok_def)

lemma seg_read_frame:
  assumes "heap_frame W h h'" and "seg_ok h s" and "W \<inter> (cells s - wcells s) = {}"
  shows "seg_read h' s = seg_read h s"
proof -
  have "{m_array (m_data s)} \<times> {m_start (m_data s) ..< m_start (m_data s) + m_writeIndex s}
      \<subseteq> cells s - wcells s"
    using assms(2) by (auto simp: cells_def wcells_def seg_ok_def segment_defs)
  then show ?thesis
    unfolding seg_read_def using assms
    by (intro mem_read_frame[OF assms(1)]) (auto simp: seg_ok_def segment_defs)
qed

lemma seg_write_frame:
  assumes "heap_frame W h h'" and "seg_ok h s" and "W \<inter> wcells s = {}"
  shows "seg_write h' s = seg_write h s"
  unfolding seg_write_def using assms
  by (intro mem_read_frame[OF assms(1)]) (auto simp: seg_ok_def segment_defs wcells_def)

subsection \<open>Fresh arrays\<close>

lemma Segment_new_ok:
  assumes "0 < n" and "n < npos"
  obtains s h' where "Segment_new n h = (s, h')" and "m_array (m_data s) = hp_next h"
    and "m_start (m_data s) = 0" and "m_length (m_data s) = n" and "m_writeIndex s = 0"
    and "hp_next h' = Suc (hp_next h)" and "seg_ok h' s" and "seg_read h' s = []"
    and "heap_frame {} h h'" and "cells s \<subseteq> fresh_cells h"
  by (rule that[of "\<lparr>m_writeIndex = 0, m_data = \<lparr>m_array = hp_next h, m_start = 0, m_length = n\<rparr>\<rparr>"
        "snd (Segment_new n h)"])
    (use assms in \<open>auto simp: Segment_new_def SegmentData_new_def new_array_def Let_def seg_ok_def
       seg_read_def mem_read_def segment_defs heap_frame_def cells_def fresh_cells_def\<close>)

lemma seg_ok_not_fresh: "seg_ok h s \<Longrightarrow> cells s \<inter> fresh_cells h = {}"
  by (auto simp: seg_ok_def cells_def fresh_cells_def)

end
