(* ===== verification/Buffer.thy ===== *)
theory Buffer
  imports Buffer_Segment
begin

text \<open>
  The operations of \<open>struct Buffer\<close> (streams/buffer.cpp), in the order of the source, as
  functions on an explicit heap. A buffer's \<open>std::list<Segment> m_segments\<close> with the iterator
  \<open>m_writeIt\<close> is kept as the two halves the iterator cuts it into: \<open>m_front\<close> is the
  part before \<open>m_writeIt\<close>, \<open>m_back\<close> starts with the segment it points to, and
  \<open>m_writeIt == m_segments.end()\<close> is \<open>m_back = []\<close>. \<open>std::list\<close> iterators stay on their element
  when others are inserted or erased, which is what the two halves do; an erased element that
  \<open>m_writeIt\<close> points to gives \<open>UB\<close>.
\<close>

record buffer =
  m_front :: "segment list"
  m_back :: "segment list"
  m_readAvailable :: nat
  m_writeAvailable :: nat

abbreviation m_segments :: "buffer \<Rightarrow> segment list" where
  "m_segments b \<equiv> m_front b @ m_back b"

section \<open>The self-check\<close>

text \<open>
  \<open>segment\<close>'s bytes end where those of \<open>next\<close> begin, in the same array.
\<close>

definition adjoins :: "segment_data \<Rightarrow> segment_data \<Rightarrow> bool" where
  "adjoins d e \<longleftrightarrow> m_array d = m_array e \<and> m_start d + m_length d = m_start e"

text \<open>
  \<open>Buffer::invariant()\<close>: \<open>w\<close> is the position of \<open>m_writeIt\<close> and \<open>i\<close> that of the
  segment the loop is at.
\<close>

fun invariant_loop :: "nat \<Rightarrow> nat \<Rightarrow> bool \<Rightarrow> segment list \<Rightarrow> bool" where
  "invariant_loop w i seenWrite [] = True"
| "invariant_loop w i seenWrite (s # rest) =
     (Segment_invariant s \<and>
      (seenWrite \<longrightarrow> Segment_readAvailable s = 0) \<and>
      (\<not> seenWrite \<and> Segment_writeAvailable s \<noteq> 0 \<longrightarrow> w = i) \<and>
      (case rest of
         [] \<Rightarrow> True
       | t # _ \<Rightarrow>
           if Segment_writeAvailable s = 0 \<and> Segment_readAvailable t \<noteq> 0
           then \<not> adjoins (Segment_readBuffer s) (Segment_readBuffer t)
           else if Segment_writeAvailable s \<noteq> 0 \<and> Segment_readAvailable t = 0
           then \<not> adjoins (Segment_writeBuffer s) (Segment_writeBuffer t)
           else True) \<and>
      invariant_loop w (Suc i) (seenWrite \<or> Segment_writeAvailable s \<noteq> 0) rest)"

definition Buffer_invariant :: "buffer \<Rightarrow> bool" where
  "Buffer_invariant b \<longleftrightarrow>
     invariant_loop (length (m_front b)) 0 False (m_segments b) \<and>
     sum_list (map Segment_readAvailable (m_segments b)) = m_readAvailable b \<and>
     sum_list (map Segment_writeAvailable (m_segments b)) = m_writeAvailable b \<and>
     (m_writeAvailable b \<noteq> 0 \<or> m_back b = [])"

text \<open>
  The body of \<open>invariant()\<close> is compiled only where \<open>NDEBUG_PERF\<close> is not defined. \<open>dbg\<close>
  stands for that build, and every operation that calls \<open>invariant()\<close> takes it.
\<close>

definition self_check :: "bool \<Rightarrow> buffer \<Rightarrow> 'a result \<Rightarrow> 'a result" where
  "self_check dbg b k = (if dbg \<and> \<not> Buffer_invariant b then Inl Assertion else k)"

section \<open>Construction, space and clearing\<close>

definition Buffer_empty :: buffer where
  "Buffer_empty = \<lparr>m_front = [], m_back = [], m_readAvailable = 0, m_writeAvailable = 0\<rparr>"

text \<open>
  Where \<open>adopt\<close> and \<open>reserve\<close> put a new segment: at the front when there is nothing to read,
  otherwise at the end, with \<open>m_writeIt\<close> on it if there was no space before.
\<close>

definition Buffer_addSegment :: "segment \<Rightarrow> buffer \<Rightarrow> buffer" where
  "Buffer_addSegment s b =
     (if m_readAvailable b = 0 then b\<lparr>m_front := [], m_back := s # m_segments b\<rparr>
      else if m_writeAvailable b = 0 then b\<lparr>m_front := m_segments b, m_back := [s]\<rparr>
      else if m_back b = [] then b\<lparr>m_front := m_front b @ [s]\<rparr>
      else b\<lparr>m_back := m_back b @ [s]\<rparr>)"

definition Buffer_adopt :: "bool \<Rightarrow> array_id \<Rightarrow> nat \<Rightarrow> buffer \<Rightarrow> buffer result" where
  "Buffer_adopt dbg a n b =
     self_check dbg b
       (let b1 = Buffer_addSegment (Segment_adopt a n) b;
            b2 = b1\<lparr>m_writeAvailable := m_writeAvailable b1 + n\<rparr>
        in self_check dbg b2 (Inr b2))"

definition Buffer_reserve :: "bool \<Rightarrow> nat \<Rightarrow> buffer \<Rightarrow> heap \<Rightarrow> (buffer \<times> heap) result" where
  "Buffer_reserve dbg n b h =
     (if m_writeAvailable b < n then
        (case Segment_new ((2 * n - m_writeAvailable b) mod size_mod) h of (s, h') \<Rightarrow>
           let b1 = Buffer_addSegment s b;
               b2 = b1\<lparr>m_writeAvailable := m_writeAvailable b1 + Segment_length s\<rparr>
           in self_check dbg b2 (Inr (b2, h')))
      else Inr (b, h))"

definition Buffer_compact :: "bool \<Rightarrow> buffer \<Rightarrow> buffer result" where
  "Buffer_compact dbg b =
     self_check dbg b
       (let b1 = (case m_back b of
                    [] \<Rightarrow> b
                  | s # _ \<Rightarrow>
                      b\<lparr>m_front := m_front b @ (if Segment_readAvailable s > 0
                                                 then [Segment_of (Segment_readBuffer s)] else []),
                        m_back := [], m_writeAvailable := 0\<rparr>)
        in ensure (m_writeAvailable b1 = 0) (Inr b1))"

definition Buffer_clear :: "bool \<Rightarrow> bool \<Rightarrow> buffer \<Rightarrow> buffer result" where
  "Buffer_clear dbg clearWriteAvailableAsWell b =
     self_check dbg b
       (andThen
         (if clearWriteAvailableAsWell then Inr Buffer_empty
          else andThen
            (case m_back b of
               [] \<Rightarrow> Inr []
             | s # rest \<Rightarrow>
                 if Segment_readAvailable s \<noteq> 0
                 then andThen (Segment_consume (Segment_readAvailable s) s) (\<lambda>s'. Inr (s' # rest))
                 else Inr (s # rest))
            (\<lambda>back. Inr (b\<lparr>m_readAvailable := 0, m_front := [], m_back := back\<rparr>)))
         (\<lambda>b1. self_check dbg b1 (ensure (m_readAvailable b1 = 0) (Inr b1))))"

section \<open>Moving the read and write positions\<close>

text \<open>The loop of \<open>produce\<close>: it dereferences \<open>m_writeIt\<close> and steps over full segments.\<close>

lemma Segment_produce_writeAvailable:
  "Segment_produce n s = Inr s' \<Longrightarrow> Segment_writeAvailable s' = Segment_writeAvailable s - n"
  by (auto simp: Segment_produce_def segment_defs Let_def)

function produce_loop :: "nat \<Rightarrow> segment list \<Rightarrow> segment list \<Rightarrow>
    (segment list \<times> segment list) result" where
  "produce_loop n front back =
     (if n = 0 then Inr (front, back)
      else case back of
        [] \<Rightarrow> Inl UB
      | s # rest \<Rightarrow>
          let toProduce = min (Segment_writeAvailable s) n
          in case Segment_produce toProduce s of
               Inl e \<Rightarrow> Inl e
             | Inr s' \<Rightarrow>
                 if Segment_writeAvailable s' = 0
                 then produce_loop (n - toProduce) (front @ [s']) rest
                 else produce_loop (n - toProduce) front (s' # rest))"
  by pat_completeness auto
termination
  by (relation "measure (\<lambda>(n, front, back). n + length back)")
    (auto dest!: Segment_produce_writeAvailable simp: min_def split: if_splits)

declare produce_loop.simps [simp del]

definition Buffer_produce :: "bool \<Rightarrow> nat \<Rightarrow> buffer \<Rightarrow> buffer result" where
  "Buffer_produce dbg n b =
     ensure (n \<le> m_writeAvailable b)
       (andThen (produce_loop n (m_front b) (m_back b)) (\<lambda>(front, back).
          let b1 = \<lparr>m_front = front, m_back = back,
                    m_readAvailable = m_readAvailable b + n,
                    m_writeAvailable = m_writeAvailable b - n\<rparr>
          in self_check dbg b1 (Inr b1)))"

text \<open>
  The loop of \<open>consume\<close> works on the first segment. Where that segment has nothing to read but
  still has space, the iteration changes nothing and the loop never ends; where it is popped
  while \<open>m_writeIt\<close> points to it, \<open>m_writeIt\<close> dangles.
\<close>

function consume_loop :: "nat \<Rightarrow> segment list \<Rightarrow> segment list \<Rightarrow>
    (segment list \<times> segment list) result" where
  "consume_loop n front back =
     (if n = 0 then Inr (front, back)
      else case front @ back of
        [] \<Rightarrow> Inl UB
      | s # _ \<Rightarrow>
          let toConsume = min (Segment_readAvailable s) n
          in case Segment_consume toConsume s of
               Inl e \<Rightarrow> Inl e
             | Inr s' \<Rightarrow>
                 if Segment_length s' = 0 then
                   (case front of
                      [] \<Rightarrow> Inl UB
                    | _ # front' \<Rightarrow> consume_loop (n - toConsume) front' back)
                 else if toConsume = 0 then Inl Loops
                 else
                   (case front of
                      [] \<Rightarrow> consume_loop (n - toConsume) [] (s' # tl back)
                    | _ # front' \<Rightarrow> consume_loop (n - toConsume) (s' # front') back))"
  by pat_completeness auto
termination
  by (relation "measure (\<lambda>(n, front, back). n + length front)") (auto simp: min_def split: if_splits)

declare consume_loop.simps [simp del]

definition Buffer_consume :: "bool \<Rightarrow> nat \<Rightarrow> buffer \<Rightarrow> buffer result" where
  "Buffer_consume dbg n b =
     ensure (n \<le> m_readAvailable b)
       (andThen (consume_loop n (m_front b) (m_back b)) (\<lambda>(front, back).
          let b1 = b\<lparr>m_front := front, m_back := back, m_readAvailable := m_readAvailable b - n\<rparr>
          in self_check dbg b1 (Inr b1)))"

text \<open>
  \<open>Split any mixed read/write bufs\<close>, which \<open>truncate\<close> and \<open>copyIn\<close> begin with.
\<close>

definition Buffer_splitMixed :: "buffer \<Rightarrow> buffer result" where
  "Buffer_splitMixed b =
     (case m_back b of
        [] \<Rightarrow> Inr b
      | s # rest \<Rightarrow>
          if Segment_readAvailable s \<noteq> 0
          then andThen (Segment_consume (Segment_readAvailable s) s) (\<lambda>s'.
                 Inr (b\<lparr>m_front := m_front b @ [Segment_of (Segment_readBuffer s)],
                        m_back := s' # rest\<rparr>))
          else Inr b)"

text \<open>
  The two loops of \<open>truncate\<close>: the first finds the segment the new end is in and cuts it, the
  second erases the readable segments after it.
\<close>

fun truncate_scan :: "nat \<Rightarrow> segment list \<Rightarrow> (segment list \<times> segment list) result" where
  "truncate_scan n [] = ensure (n = 0) (Inr ([], []))"
| "truncate_scan n (s # rest) =
     (if n = 0 then Inr ([], s # rest)
      else if n \<le> Segment_readAvailable s
      then andThen (Segment_truncate n s) (\<lambda>s'. Inr ([s'], rest))
      else andThen (truncate_scan (n - Segment_readAvailable s) rest)
             (\<lambda>(kept, rest'). Inr (s # kept, rest')))"

fun truncate_erase :: "segment list \<Rightarrow> (segment list) result" where
  "truncate_erase [] = Inr []"
| "truncate_erase (s # rest) =
     (if Segment_readAvailable s > 0
      then ensure (Segment_writeAvailable s = 0) (truncate_erase rest)
      else Inr (s # rest))"

definition Buffer_truncate :: "bool \<Rightarrow> nat \<Rightarrow> buffer \<Rightarrow> buffer result" where
  "Buffer_truncate dbg n b =
     ensure (n \<le> m_readAvailable b)
       (if n = m_readAvailable b then Inr b
        else andThen (Buffer_splitMixed b) (\<lambda>b1.
          andThen (truncate_scan n (m_segments b1)) (\<lambda>(kept, rest).
            andThen (truncate_erase rest) (\<lambda>rest'.
              let erased = length rest - length rest';
                  w = length (m_front b1);
                  all = kept @ rest'
              in if length kept \<le> w \<and> w < length kept + erased then Inl UB
                 else let w' = (if w < length kept then w else w - erased);
                          b2 = b1\<lparr>m_front := take w' all, m_back := drop w' all,
                                  m_readAvailable := n\<rparr>
                      in self_check dbg b2 (Inr b2)))))"

section \<open>Scatter and gather lists\<close>

text \<open>
  An \<open>iovec\<close> is a slice of an array: \<open>iov_base\<close> is its array and start, \<open>iov_len\<close> its length.
  \<open>iovec_null\<close> is the \<open>{NULL, 0}\<close> the code starts from. The non-Windows branches, in
  which an \<open>iovec\<close> can have any length, are the ones modelled.
\<close>

type_synonym iovec = "segment_data option"

fun readBuffers_loop :: "nat \<Rightarrow> segment list \<Rightarrow> (segment_data list) result" where
  "readBuffers_loop remaining [] = ensure (remaining = 0) (Inr [])"
| "readBuffers_loop remaining (s # rest) =
     (let toConsume = min (Segment_readAvailable s) remaining
      in andThen (SegmentData_slice 0 toConsume (Segment_readBuffer s)) (\<lambda>data.
           if remaining - toConsume = 0 then Inr [data]
           else andThen (readBuffers_loop (remaining - toConsume) rest) (\<lambda>iovs. Inr (data # iovs))))"

definition Buffer_readBuffers :: "bool \<Rightarrow> nat \<Rightarrow> buffer \<Rightarrow> (segment_data list) result" where
  "Buffer_readBuffers dbg len b =
     (let n = (if len = npos then m_readAvailable b else len)
      in ensure (n \<le> m_readAvailable b)
           (andThen (readBuffers_loop n (m_segments b)) (\<lambda>iovs.
              self_check dbg b (Inr iovs))))"

text \<open>
  Skipping to a position, the loop \<open>copyIn\<close> and \<open>copyOut\<close> share: the rest of the position and
  the segments from the one it falls into.
\<close>

fun skip_to :: "nat \<Rightarrow> segment list \<Rightarrow> nat \<times> segment list" where
  "skip_to pos [] = (pos, [])"
| "skip_to pos (s # rest) =
     (if pos \<noteq> 0 \<and> \<not> pos < Segment_readAvailable s
      then skip_to (pos - Segment_readAvailable s) rest
      else (pos, s # rest))"

text \<open>\<open>copyOut\<close> to a block of memory outside the buffer; the result is what it copies there.\<close>

fun copyOut_loop :: "heap \<Rightarrow> nat \<Rightarrow> nat \<Rightarrow> segment list \<Rightarrow> (byte list) result" where
  "copyOut_loop h len pos [] = ensure (len = 0) (Inr [])"
| "copyOut_loop h len pos (s # rest) =
     (let todo = min len (Segment_readAvailable s - pos);
          bytes = mem_read h (m_array (m_data s)) (m_start (m_data s) + pos) todo
      in if len - todo = 0 then Inr bytes
         else andThen (copyOut_loop h (len - todo) 0 rest) (\<lambda>bs. Inr (bytes @ bs)))"

definition Buffer_copyOut :: "nat \<Rightarrow> nat \<Rightarrow> buffer \<Rightarrow> heap \<Rightarrow> (byte list) result" where
  "Buffer_copyOut len pos b h =
     (if len = 0 then Inr []
      else ensure (len + pos \<le> m_readAvailable b)
        (case skip_to pos (m_segments b) of (pos', segs) \<Rightarrow>
           ensure (segs \<noteq> []) (copyOut_loop h len pos' segs)))"

text \<open>
  \<open>readBuffer\<close> returns one contiguous slice; when asked to coalesce it moves all readable
  bytes into one segment, in its own writable space if that is large enough.
\<close>

definition Buffer_readBuffer ::
    "bool \<Rightarrow> nat \<Rightarrow> bool \<Rightarrow> buffer \<Rightarrow> heap \<Rightarrow> (iovec \<times> buffer \<times> heap) result" where
  "Buffer_readBuffer dbg len coalesce b h =
     (let n = (if len = npos then m_readAvailable b else len)
      in ensure (n \<le> m_readAvailable b)
        (if m_readAvailable b = 0 then Inr (None, b, h)
         else case m_segments b of
           [] \<Rightarrow> Inl UB
         | s # _ \<Rightarrow>
             if Segment_readAvailable s \<ge> n
             then andThen (SegmentData_slice 0 n (Segment_readBuffer s)) (\<lambda>data. Inr (Some data, b, h))
             else if \<not> coalesce then Inr (Some (Segment_readBuffer s), b, h)
             else if m_back b \<noteq> [] \<and> Segment_writeAvailable (hd (m_back b)) \<ge> m_readAvailable b
             then
               (let w = Segment_writeBuffer (hd (m_back b))
                in andThen (Buffer_copyOut (m_readAvailable b) 0 b h) (\<lambda>bytes.
                   andThen (memcpy (m_array w) (m_start w) bytes h) (\<lambda>h'.
                   andThen (SegmentData_slice 0 (m_readAvailable b) w) (\<lambda>d.
                     let b1 = \<lparr>m_front = [Segment_of d], m_back = [],
                               m_readAvailable = m_readAvailable b, m_writeAvailable = 0\<rparr>
                     in self_check dbg b1
                          (andThen (SegmentData_slice 0 n (Segment_readBuffer (Segment_of d))) (\<lambda>data.
                             Inr (Some data, b1, h')))))))
             else
               (case Segment_new (m_readAvailable b) h of (t, h0) \<Rightarrow>
                  andThen (Buffer_copyOut (m_readAvailable b) 0 b h0) (\<lambda>bytes.
                  andThen (memcpy (m_array (Segment_writeBuffer t)) (m_start (Segment_writeBuffer t)) bytes h0) (\<lambda>h'.
                  andThen (Segment_produce (m_readAvailable b) t) (\<lambda>t'.
                    let b1 = \<lparr>m_front = [t'], m_back = [],
                              m_readAvailable = m_readAvailable b, m_writeAvailable = 0\<rparr>
                    in self_check dbg b1
                         (andThen (SegmentData_slice 0 n (Segment_readBuffer t')) (\<lambda>data.
                            Inr (Some data, b1, h')))))))))"

fun writeBuffers_loop :: "nat \<Rightarrow> segment list \<Rightarrow> (segment_data list) result" where
  "writeBuffers_loop remaining [] = (if remaining = 0 then Inr [] else Inl UB)"
| "writeBuffers_loop remaining (s # rest) =
     (if remaining = 0 then Inr []
      else let toProduce = min (Segment_writeAvailable s) remaining
           in andThen (SegmentData_slice 0 toProduce (Segment_writeBuffer s)) (\<lambda>data.
                andThen (writeBuffers_loop (remaining - toProduce) rest) (\<lambda>iovs. Inr (data # iovs))))"

definition Buffer_writeBuffers ::
    "bool \<Rightarrow> nat \<Rightarrow> buffer \<Rightarrow> heap \<Rightarrow> (segment_data list \<times> buffer \<times> heap) result" where
  "Buffer_writeBuffers dbg len b h =
     (let n = (if len = npos then m_writeAvailable b else len)
      in andThen (Buffer_reserve dbg n b h) (\<lambda>(b1, h1).
           andThen (writeBuffers_loop n (m_back b1)) (\<lambda>iovs.
             self_check dbg b1 (Inr (iovs, b1, h1)))))"

definition Buffer_writeBuffer ::
    "bool \<Rightarrow> nat \<Rightarrow> bool \<Rightarrow> buffer \<Rightarrow> heap \<Rightarrow> (iovec \<times> buffer \<times> heap) result" where
  "Buffer_writeBuffer dbg len coalesce b h =
     (let fromReserved = (\<lambda>(b1, h1).
            case m_back b1 of
              [] \<Rightarrow> Inl Assertion
            | s # _ \<Rightarrow>
                ensure (Segment_writeAvailable s \<ge> len)
                  (andThen (SegmentData_slice 0 len (Segment_writeBuffer s)) (\<lambda>data.
                     Inr (Some data, b1, h1))))
      in if len = 0 then Inr (None, b, h)
         else if m_writeAvailable b = 0 then andThen (Buffer_reserve dbg len b h) fromReserved
         else case m_back b of
           [] \<Rightarrow> Inl UB
         | s # _ \<Rightarrow>
             if Segment_writeAvailable s \<ge> len
             then andThen (SegmentData_slice 0 len (Segment_writeBuffer s)) (\<lambda>data. Inr (Some data, b, h))
             else if \<not> coalesce then Inr (Some (Segment_writeBuffer s), b, h)
             else andThen (Buffer_compact dbg b) (\<lambda>b1.
                    andThen (Buffer_reserve dbg len b1 h) fromReserved))"

section \<open>Copying in\<close>

text \<open>
  \<open>copyIn\<close> of another buffer shares its arrays. \<open>first\<close> says that the loop is at the first
  segment of the source, the only one it tries to merge with the last segment before
  \<open>m_writeIt\<close>; \<open>ra\<close> is \<open>m_readAvailable\<close>. The source buffer is a different object.
\<close>

fun copyIn_loop :: "bool \<Rightarrow> nat \<Rightarrow> nat \<Rightarrow> segment list \<Rightarrow> segment list \<Rightarrow> nat \<Rightarrow>
    (segment list \<times> nat) result" where
  "copyIn_loop first pos len [] front ra = ensure (len = 0) (Inr (front, ra))"
| "copyIn_loop first pos len (s # rest) front ra =
     (let toConsume = min (Segment_readAvailable s - pos) len;
          continue = (\<lambda>front'. if len - toConsume = 0 then Inr (front', ra + toConsume)
                               else copyIn_loop False 0 (len - toConsume) rest front' (ra + toConsume));
          insertNew = andThen (SegmentData_slice pos toConsume (Segment_readBuffer s)) (\<lambda>d.
                        continue (front @ [Segment_of d]))
      in if ra \<noteq> 0 \<and> first then
           (if front = [] then Inl UB
            else let p = last front
                 in if adjoins (Segment_readBuffer p)
                         ((Segment_readBuffer s)\<lparr>m_start := m_start (Segment_readBuffer s) + pos\<rparr>)
                    then ensure (Segment_writeAvailable p = 0)
                           (continue (butlast front @ [Segment_extend toConsume p]))
                    else insertNew)
         else insertNew)"

definition Buffer_copyIn :: "bool \<Rightarrow> buffer \<Rightarrow> nat \<Rightarrow> nat \<Rightarrow> buffer \<Rightarrow> buffer result" where
  "Buffer_copyIn dbg src len pos b =
     (if pos > m_readAvailable src then Inl OutOfRange
      else let n = (if len = npos then m_readAvailable src - pos else len)
           in ensure (m_readAvailable src \<ge> n + pos)
             (self_check dbg b
               (if n = 0 then Inr b
                else andThen (Buffer_splitMixed b) (\<lambda>b1.
                  self_check dbg b1
                    (case skip_to pos (m_segments src) of (pos', segs) \<Rightarrow>
                       ensure (segs \<noteq> [])
                         (andThen (copyIn_loop (length segs = length (m_segments src)) pos' n segs
                                     (m_front b1) (m_readAvailable b1)) (\<lambda>(front, ra).
                            Inr (b1\<lparr>m_front := front, m_readAvailable := ra\<rparr>))))))))"

text \<open>\<open>copyIn\<close> of bytes: fill the writable space, then allocate the rest in one segment.\<close>

function copyInData_loop :: "bool \<Rightarrow> byte list \<Rightarrow> buffer \<Rightarrow> heap \<Rightarrow> (byte list \<times> buffer \<times> heap) result" where
  "copyInData_loop dbg bs b h =
     (if bs = [] then Inr (bs, b, h)
      else case m_back b of
        [] \<Rightarrow> Inr (bs, b, h)
      | s # rest \<Rightarrow>
          let todo = min (length bs) (Segment_writeAvailable s);
              w = Segment_writeBuffer s
          in case memcpy (m_array w) (m_start w) (take todo bs) h of
               Inl e \<Rightarrow> Inl e
             | Inr h' \<Rightarrow>
               (case Segment_produce todo s of
                  Inl e \<Rightarrow> Inl e
                | Inr s' \<Rightarrow>
                    let b1 = b\<lparr>m_front := (if Segment_writeAvailable s' = 0
                                           then m_front b @ [s'] else m_front b),
                               m_back := (if Segment_writeAvailable s' = 0 then rest else s' # rest),
                               m_readAvailable := m_readAvailable b + todo,
                               m_writeAvailable := m_writeAvailable b - todo\<rparr>
                    in if dbg \<and> \<not> Buffer_invariant b1 then Inl Assertion
                       else copyInData_loop dbg (drop todo bs) b1 h'))"
  by pat_completeness auto
termination
  by (relation "measure (\<lambda>(dbg, bs, b, h). length bs + length (m_back b))")
    (auto dest!: Segment_produce_writeAvailable simp: min_def Let_def split: if_splits)

declare copyInData_loop.simps [simp del]

definition Buffer_copyInData :: "bool \<Rightarrow> byte list \<Rightarrow> buffer \<Rightarrow> heap \<Rightarrow> (buffer \<times> heap) result" where
  "Buffer_copyInData dbg data b h =
     self_check dbg b
       (andThen (copyInData_loop dbg data b h) (\<lambda>(bs, b1, h1).
          if bs = [] then Inr (b1, h1)
          else case Segment_new (length bs) h1 of (s, h2) \<Rightarrow>
            andThen (memcpy (m_array (Segment_writeBuffer s)) (m_start (Segment_writeBuffer s)) bs h2) (\<lambda>h3.
            andThen (Segment_produce (length bs) s) (\<lambda>s'.
              let b2 = (if m_back b1 = [] then b1\<lparr>m_front := m_front b1 @ [s']\<rparr>
                        else b1\<lparr>m_back := m_back b1 @ [s']\<rparr>);
                  b3 = b2\<lparr>m_readAvailable := m_readAvailable b2 + length bs\<rparr>
              in ensure (m_readAvailable b3 \<ge> length bs) (Inr (b3, h3))))))"

text \<open>The copying constructor and assignment.\<close>

definition Buffer_copy :: "bool \<Rightarrow> buffer \<Rightarrow> buffer result" where
  "Buffer_copy dbg src = Buffer_copyIn dbg src npos 0 Buffer_empty"

definition Buffer_assign :: "bool \<Rightarrow> buffer \<Rightarrow> buffer \<Rightarrow> buffer result" where
  "Buffer_assign dbg src b = andThen (Buffer_clear dbg True b) (Buffer_copyIn dbg src npos 0)"

definition Buffer_ofBytes :: "bool \<Rightarrow> byte list \<Rightarrow> heap \<Rightarrow> (buffer \<times> heap) result" where
  "Buffer_ofBytes dbg bs h = Buffer_copyInData dbg bs Buffer_empty h"

section \<open>Searching\<close>

fun memchr :: "byte \<Rightarrow> byte list \<Rightarrow> nat option" where
  "memchr c [] = None"
| "memchr c (x # xs) = (if x = c then Some 0 else map_option Suc (memchr c xs))"

lemma memchr_SomeD:
  "memchr c xs = Some i \<Longrightarrow> i < length xs \<and> xs ! i = c \<and> (\<forall>j < i. xs ! j \<noteq> c)"
  by (induction xs arbitrary: i)
    (fastforce split: if_splits nat.splits simp: nth_Cons)+

fun find_loop :: "heap \<Rightarrow> byte \<Rightarrow> nat \<Rightarrow> nat \<Rightarrow> segment list \<Rightarrow> int" where
  "find_loop h c len totalLength [] = -1"
| "find_loop h c len totalLength (s # rest) =
     (let toscan = min len (Segment_readAvailable s)
      in case memchr c (take toscan (seg_read h s)) of
           Some point \<Rightarrow> int (totalLength + point)
         | None \<Rightarrow> if len - toscan = 0 then -1
                   else find_loop h c (len - toscan) (totalLength + toscan) rest)"

definition Buffer_find :: "byte \<Rightarrow> nat \<Rightarrow> buffer \<Rightarrow> heap \<Rightarrow> int result" where
  "Buffer_find delimiter len b h =
     (let n = (if len = npos then m_readAvailable b else len)
      in ensure (n \<le> m_readAvailable b)
           (Inr (find_loop h delimiter n 0 (m_segments b))))"

text \<open>
  \<open>find\<close> of a string. \<open>findString_scan\<close> is the inner \<open>while (toscan > 0)\<close>: \<open>xs\<close> are the
  bytes from \<open>start\<close> on that are left to scan in the segment, and the result is
  \<open>foundSoFar\<close> and \<open>totalLength\<close> when the loop ends, with what is left unscanned.
\<close>

function findString_scan :: "byte list \<Rightarrow> byte list \<Rightarrow> nat \<Rightarrow> nat \<Rightarrow> nat \<times> nat \<times> byte list" where
  "findString_scan str xs foundSoFar totalLength =
     (if xs = [] then (foundSoFar, totalLength, [])
      else if foundSoFar = 0 \<and> memchr (hd str) xs = None
      then (0, totalLength + length xs, [])
      else
        let (ys, found, tot) =
              (if foundSoFar = 0
               then case memchr (hd str) xs of
                      None \<Rightarrow> (xs, 0, totalLength)
                    | Some i \<Rightarrow> (drop (i + 1) xs, 1, totalLength + i)
               else (xs, foundSoFar, totalLength));
            tocompare = min (length ys) (length str - found)
        in if take tocompare ys = take tocompare (drop found str)
           then if found + tocompare \<ge> length str
                then (length str, tot, drop tocompare ys)
                else findString_scan str (drop tocompare ys) (found + tocompare) tot
           else findString_scan str ys 0 (tot + found))"
  by pat_completeness auto
termination
proof (relation "measure (\<lambda>(str, xs, f, t). 2 * length xs + (if f = 0 then 0 else 1))", goal_cases)
  case 1
  show ?case by simp
next
  case (2 str xs foundSoFar totalLength p ys q found tot tocompare)
  then show ?case by (auto split: option.splits if_splits dest!: memchr_SomeD simp: min_def)
next
  case (3 str xs foundSoFar totalLength p ys q found tot tocompare)
  then show ?case by (auto split: option.splits if_splits dest!: memchr_SomeD)
qed

declare findString_scan.simps [simp del]

fun findString_loop :: "heap \<Rightarrow> byte list \<Rightarrow> nat \<Rightarrow> nat \<Rightarrow> nat \<Rightarrow> segment list \<Rightarrow> int" where
  "findString_loop h str len foundSoFar totalLength [] =
     (if foundSoFar = length str then int totalLength else -1)"
| "findString_loop h str len foundSoFar totalLength (s # rest) =
     (let toscan = min len (Segment_readAvailable s)
      in case findString_scan str (take toscan (seg_read h s)) foundSoFar totalLength of
           (found, tot, left) \<Rightarrow>
             if found = length str then int tot
             else if len - (toscan - length left) = 0 then -1
             else findString_loop h str (len - (toscan - length left)) found tot rest)"

definition Buffer_findString :: "byte list \<Rightarrow> nat \<Rightarrow> buffer \<Rightarrow> heap \<Rightarrow> int result" where
  "Buffer_findString str len b h =
     (let n = (if len = npos then m_readAvailable b else len)
      in ensure (n \<le> m_readAvailable b)
           (ensure (str \<noteq> [])
             (Inr (findString_loop h str n 0 0 (m_segments b)))))"

definition Buffer_toString :: "buffer \<Rightarrow> heap \<Rightarrow> (byte list) result" where
  "Buffer_toString b h =
     (if m_readAvailable b = 0 then Inr []
      else Buffer_copyOut (m_readAvailable b) 0 b h)"

text \<open>The two \<open>getDelimited\<close> differ in the search and in the delimiter's length.\<close>

definition getDelimited_at ::
    "bool \<Rightarrow> int \<Rightarrow> nat \<Rightarrow> bool \<Rightarrow> bool \<Rightarrow> buffer \<Rightarrow> heap \<Rightarrow> (byte list \<times> buffer) result" where
  "getDelimited_at dbg offset dlen eofIsDelimiter includeDelimiter b h =
     ensure (offset \<ge> -1)
       (if offset = -1 \<and> \<not> eofIsDelimiter then Inl UnexpectedEof
        else let eof = (offset = -1);
                 off = (if eof then m_readAvailable b else nat offset);
                 size = off + (if eof then 0 else if includeDelimiter then dlen else 0)
             in andThen (Buffer_copyOut size 0 b h) (\<lambda>res.
                andThen (Buffer_consume dbg size b) (\<lambda>b1.
                  if \<not> eof \<and> \<not> includeDelimiter
                  then andThen (Buffer_consume dbg dlen b1) (\<lambda>b2. Inr (res, b2))
                  else Inr (res, b1))))"

definition Buffer_getDelimited ::
    "bool \<Rightarrow> byte \<Rightarrow> bool \<Rightarrow> bool \<Rightarrow> buffer \<Rightarrow> heap \<Rightarrow> (byte list \<times> buffer) result" where
  "Buffer_getDelimited dbg delimiter eofIsDelimiter includeDelimiter b h =
     andThen (Buffer_find delimiter npos b h) (\<lambda>offset.
       getDelimited_at dbg offset 1 eofIsDelimiter includeDelimiter b h)"

definition Buffer_getDelimitedString ::
    "bool \<Rightarrow> byte list \<Rightarrow> bool \<Rightarrow> bool \<Rightarrow> buffer \<Rightarrow> heap \<Rightarrow> (byte list \<times> buffer) result" where
  "Buffer_getDelimitedString dbg delimiter eofIsDelimiter includeDelimiter b h =
     andThen (Buffer_findString delimiter npos b h) (\<lambda>offset.
       getDelimited_at dbg offset (length delimiter) eofIsDelimiter includeDelimiter b h)"

text \<open>\<open>visit\<close>: the pieces it hands to the callback, in order.\<close>

fun visit_loop :: "heap \<Rightarrow> nat \<Rightarrow> segment list \<Rightarrow> (byte list list) result" where
  "visit_loop h len [] = ensure (len = 0) (Inr [])"
| "visit_loop h len (s # rest) =
     (if len = 0 then Inr []
      else let todo = min len (Segment_readAvailable s)
           in ensure (todo \<noteq> 0)
                (andThen (visit_loop h (len - todo) rest) (\<lambda>vs.
                   Inr (take todo (seg_read h s) # vs))))"

definition Buffer_visit :: "nat \<Rightarrow> buffer \<Rightarrow> heap \<Rightarrow> (byte list list) result" where
  "Buffer_visit len b h =
     (let n = (if len = npos then m_readAvailable b else len)
      in ensure (n \<le> m_readAvailable b) (visit_loop h n (m_segments b)))"

section \<open>Comparison\<close>

text \<open>
  \<open>memcmp\<close> of two runs of the same length (C fixes only the sign of its result), and the
  conversion of a difference of sizes to a 32-bit \<open>int\<close>.
\<close>

fun memcmp :: "byte list \<Rightarrow> byte list \<Rightarrow> int" where
  "memcmp (x # xs) (y # ys) =
     (if x = y then memcmp xs ys
      else if (of_char x :: nat) < of_char y then -1 else 1)"
| "memcmp _ _ = 0"

definition to_int32 :: "int \<Rightarrow> int" where
  "to_int32 i = (i + 2147483648) mod 4294967296 - 2147483648"

function opCmp_loop :: "heap \<Rightarrow> int \<Rightarrow> nat \<Rightarrow> nat \<Rightarrow> segment list \<Rightarrow> segment list \<Rightarrow> int result" where
  "opCmp_loop h lengthResult leftOffset rightOffset ls rs =
     (case ls of
        [] \<Rightarrow> Inr lengthResult
      | l # ls' \<Rightarrow>
          (case rs of
             [] \<Rightarrow> Inr lengthResult
           | r # rs' \<Rightarrow>
               let tocompare = min (Segment_readAvailable l - leftOffset)
                                   (Segment_readAvailable r - rightOffset);
                   res = memcmp (take tocompare (drop leftOffset (seg_read h l)))
                                (take tocompare (drop rightOffset (seg_read h r)))
               in if \<not> leftOffset \<le> Segment_readAvailable l \<or> \<not> rightOffset \<le> Segment_readAvailable r
                  then Inl Assertion
                  else if tocompare = 0 then Inr lengthResult
                  else if res \<noteq> 0 then Inr res
                  else opCmp_loop h lengthResult
                         (if leftOffset + tocompare = Segment_readAvailable l then 0 else leftOffset + tocompare)
                         (if rightOffset + tocompare = Segment_readAvailable r then 0 else rightOffset + tocompare)
                         (if leftOffset + tocompare = Segment_readAvailable l then ls' else ls)
                         (if rightOffset + tocompare = Segment_readAvailable r then rs' else rs)))"
  by pat_completeness auto
termination
  by (relation "measure (\<lambda>(h, z, lo, ro, ls, rs). length ls + length rs)")
    (auto simp: min_def split: if_splits)

declare opCmp_loop.simps [simp del]

definition Buffer_opCmp :: "buffer \<Rightarrow> buffer \<Rightarrow> heap \<Rightarrow> int result" where
  "Buffer_opCmp b rhs h =
     opCmp_loop h (to_int32 (int (m_readAvailable b) - int (m_readAvailable rhs))) 0 0
       (m_segments b) (m_segments rhs)"

definition Buffer_eq :: "buffer \<Rightarrow> buffer \<Rightarrow> heap \<Rightarrow> bool result" where
  "Buffer_eq b rhs h =
     (if m_readAvailable rhs \<noteq> m_readAvailable b then Inr False
      else andThen (Buffer_opCmp b rhs h) (\<lambda>r. Inr (r = 0)))"

fun opCmpString_loop :: "heap \<Rightarrow> int \<Rightarrow> byte list \<Rightarrow> nat \<Rightarrow> segment list \<Rightarrow> int" where
  "opCmpString_loop h lengthResult str len [] = lengthResult"
| "opCmpString_loop h lengthResult str len (s # rest) =
     (let tocompare = min (Segment_readAvailable s) len;
          res = memcmp (take tocompare (seg_read h s)) (take tocompare str)
      in if res \<noteq> 0 then res
         else if len - tocompare = 0 then lengthResult
         else opCmpString_loop h lengthResult (drop tocompare str) (len - tocompare) rest)"

text \<open>
  \<open>opCmp\<close> with a string compares as many bytes as the longer of the two has; it is only called
  on strings of the buffer's length, where it reads no byte past the string.
\<close>

definition Buffer_opCmpString :: "byte list \<Rightarrow> buffer \<Rightarrow> heap \<Rightarrow> int" where
  "Buffer_opCmpString str b h =
     (let lengthResult = to_int32 (int (m_readAvailable b) - int (length str));
          len = (if lengthResult > 0 then m_readAvailable b else length str)
      in opCmpString_loop h lengthResult str len (m_segments b))"

definition Buffer_eqString :: "byte list \<Rightarrow> buffer \<Rightarrow> heap \<Rightarrow> bool" where
  "Buffer_eqString str b h =
     (if length str \<noteq> m_readAvailable b then False
      else Buffer_opCmpString str b h = 0)"

end
