(* ===== verification/Buffer_Inv.thy ===== *)
theory Buffer_Inv
  imports Buffer
begin

text \<open>
  The invariant of \<open>Buffer\<close>, what a buffer stands for, and the facts about lists of segments
  that the correctness proofs of the operations share.
\<close>

section \<open>Lists of segments\<close>

text \<open>The bytes that can be read and the contents of the writable space, in order.\<close>

definition segs_read :: "heap \<Rightarrow> segment list \<Rightarrow> byte list" where
  "segs_read h ss = concat (map (seg_read h) ss)"

definition segs_write :: "heap \<Rightarrow> segment list \<Rightarrow> byte list" where
  "segs_write h ss = concat (map (seg_write h) ss)"

definition segs_cells :: "segment list \<Rightarrow> (array_id \<times> nat) set" where
  "segs_cells ss = (\<Union>s\<in>set ss. cells s)"

definition segs_wcells :: "segment list \<Rightarrow> (array_id \<times> nat) set" where
  "segs_wcells ss = (\<Union>s\<in>set ss. wcells s)"

abbreviation segs_ra :: "segment list \<Rightarrow> nat" where
  "segs_ra ss \<equiv> sum_list (map Segment_readAvailable ss)"

abbreviation segs_wa :: "segment list \<Rightarrow> nat" where
  "segs_wa ss \<equiv> sum_list (map Segment_writeAvailable ss)"

definition apart_list :: "segment list \<Rightarrow> bool" where
  "apart_list ss = sorted_wrt seg_apart ss"

definition merged :: "segment list \<Rightarrow> bool" where
  "merged ss = successively (\<lambda>s t. \<not> adjoins (m_data s) (m_data t)) ss"

lemma segs_simps [simp]:
  "segs_read h [] = []" "segs_read h (s # ss) = seg_read h s @ segs_read h ss"
  "segs_read h (ss @ ts) = segs_read h ss @ segs_read h ts"
  "segs_write h [] = []" "segs_write h (s # ss) = seg_write h s @ segs_write h ss"
  "segs_write h (ss @ ts) = segs_write h ss @ segs_write h ts"
  "segs_cells [] = {}" "segs_cells (s # ss) = cells s \<union> segs_cells ss"
  "segs_cells (ss @ ts) = segs_cells ss \<union> segs_cells ts"
  "segs_wcells [] = {}" "segs_wcells (s # ss) = wcells s \<union> segs_wcells ss"
  "segs_wcells (ss @ ts) = segs_wcells ss \<union> segs_wcells ts"
  by (auto simp: segs_read_def segs_write_def segs_cells_def segs_wcells_def)

lemma length_segs_read: "\<forall>s\<in>set ss. seg_ok h s \<Longrightarrow> length (segs_read h ss) = segs_ra ss"
  by (induction ss) (auto simp: length_seg_read)

lemma length_segs_write: "\<forall>s\<in>set ss. seg_ok h s \<Longrightarrow> length (segs_write h ss) = segs_wa ss"
  by (induction ss) (auto simp: length_seg_write)

lemma seg_write_full:
  "seg_ok h s \<Longrightarrow> Segment_writeAvailable s = 0 \<Longrightarrow> seg_write h s = []"
  using length_seg_write by fastforce

lemma seg_read_empty: "Segment_readAvailable s = 0 \<Longrightarrow> seg_read h s = []"
  by (simp add: seg_read_def mem_read_def segment_defs)

lemma segs_write_full:
  "\<forall>s\<in>set ss. seg_ok h s \<Longrightarrow> \<forall>s\<in>set ss. Segment_writeAvailable s = 0 \<Longrightarrow> segs_write h ss = []"
  by (induction ss) (auto simp: seg_write_full)

lemma segs_read_empty: "\<forall>s\<in>set ss. Segment_readAvailable s = 0 \<Longrightarrow> segs_read h ss = []"
  by (induction ss) (auto simp: seg_read_empty)

lemma wcells_full: "Segment_writeAvailable s = 0 \<Longrightarrow> wcells s = {}"
  by (auto simp: wcells_def segment_defs)

lemma segs_wcells_subset: "segs_wcells ss \<subseteq> segs_cells ss"
  using wcells_subset by (fastforce simp: segs_wcells_def segs_cells_def)

lemma ra_plus_wa:
  "seg_ok h s \<Longrightarrow> Segment_readAvailable s + Segment_writeAvailable s = Segment_length s \<and> 0 < Segment_length s"
  by (auto simp: seg_ok_def segment_defs)

lemma apart_list_Cons:
  "apart_list (s # ss) \<longleftrightarrow> (\<forall>t\<in>set ss. seg_apart s t) \<and> apart_list ss"
  by (simp add: apart_list_def)

lemma apart_list_append:
  "apart_list (ss @ ts) \<longleftrightarrow> apart_list ss \<and> apart_list ts \<and> (\<forall>s\<in>set ss. \<forall>t\<in>set ts. seg_apart s t)"
  by (simp add: apart_list_def sorted_wrt_append)

lemma apart_list_Nil [simp]: "apart_list []"
  by (simp add: apart_list_def)

text \<open>A segment whose cells shrink stays apart from the others.\<close>

definition shrinks :: "segment \<Rightarrow> segment \<Rightarrow> bool" where
  "shrinks s s' \<longleftrightarrow> cells s' \<subseteq> cells s \<and> wcells s' \<subseteq> wcells s"

lemma shrinks_refl [simp]: "shrinks s s"
  by (simp add: shrinks_def)

lemma apart_list_shrinks:
  "apart_list ss \<Longrightarrow> list_all2 shrinks ss ss' \<Longrightarrow> apart_list ss'"
proof (induction ss arbitrary: ss')
  case Nil
  then show ?case by simp
next
  case (Cons s ss)
  then obtain s' ts where ss': "ss' = s' # ts" and s: "shrinks s s'" and ts: "list_all2 shrinks ss ts"
    by (auto simp: list_all2_Cons1)
  have "seg_apart s' t'" if "t' \<in> set ts" for t'
  proof -
    from that obtain i where "i < length ts" and "t' = ts ! i"
      by (auto simp: in_set_conv_nth)
    with ts have "ss ! i \<in> set ss" and "shrinks (ss ! i) t'"
      by (auto simp: list_all2_conv_all_nth)
    then obtain t where "t \<in> set ss" and "shrinks t t'" by blast
    then show ?thesis
      using s Cons.prems(1) seg_apart_mono[of s t s' t'] by (simp add: apart_list_Cons shrinks_def)
  qed
  then show ?case
    using Cons.IH[OF _ ts] Cons.prems(1) ss' by (simp add: apart_list_Cons)
qed

lemma segs_cells_shrinks:
  "list_all2 shrinks ss ss' \<Longrightarrow> segs_cells ss' \<subseteq> segs_cells ss \<and> segs_wcells ss' \<subseteq> segs_wcells ss"
  by (induction rule: list_all2_induct) (auto simp: shrinks_def)

text \<open>
  A segment without writable space is apart from every segment whose writable cells it does
  not cover, and vice versa.
\<close>

lemma seg_apart_iff_sets:
  "(\<forall>s\<in>set ss. \<forall>t\<in>set ts. seg_apart s t) \<longleftrightarrow>
     segs_wcells ss \<inter> segs_cells ts = {} \<and> segs_cells ss \<inter> segs_wcells ts = {}"
  unfolding seg_apart_def segs_cells_def segs_wcells_def by blast

lemma apart_list_append_sets:
  "apart_list (ss @ ts) \<longleftrightarrow> apart_list ss \<and> apart_list ts \<and>
     segs_wcells ss \<inter> segs_cells ts = {} \<and> segs_cells ss \<inter> segs_wcells ts = {}"
  by (simp add: apart_list_append seg_apart_iff_sets)

lemma apart_list_full: "\<forall>s\<in>set ss. Segment_writeAvailable s = 0 \<Longrightarrow> apart_list ss"
  by (induction ss) (auto simp: apart_list_Cons seg_apart_def wcells_full)

lemma merged_Nil [simp]: "merged []" and merged_single [simp]: "merged [s]"
  by (simp_all add: merged_def)

lemma merged_Cons:
  "merged (s # ss) \<longleftrightarrow> merged ss \<and> (ss = [] \<or> \<not> adjoins (m_data s) (m_data (hd ss)))"
  by (cases ss) (auto simp: merged_def)

lemma merged_append:
  "merged (ss @ ts) \<longleftrightarrow> merged ss \<and> merged ts \<and>
     (ss = [] \<or> ts = [] \<or> \<not> adjoins (m_data (last ss)) (m_data (hd ts)))"
  by (auto simp: merged_def successively_append_iff)

lemma merged_iff_data: "merged ss = successively (\<lambda>d e. \<not> adjoins d e) (map m_data ss)"
  by (simp add: merged_def successively_map)

lemma merged_map_data: "map m_data ss = map m_data ts \<Longrightarrow> merged ss = merged ts"
  by (simp add: merged_iff_data)

section \<open>The invariant\<close>

text \<open>
  \<open>segs_ok\<close>: the segments before \<open>m_writeIt\<close> are full, the one at \<open>m_writeIt\<close> has space,
  those behind it hold nothing yet; all lie in allocated memory, and no segment can write
  what another one covers. \<open>buf_ok\<close> adds that the two counters are the sums over the
  segments.
\<close>

definition segs_ok :: "heap \<Rightarrow> segment list \<Rightarrow> segment list \<Rightarrow> bool" where
  "segs_ok h front back \<longleftrightarrow>
     (\<forall>s\<in>set (front @ back). seg_ok h s) \<and>
     (\<forall>s\<in>set front. Segment_writeAvailable s = 0) \<and>
     (back = [] \<or> Segment_writeAvailable (hd back) \<noteq> 0) \<and>
     (\<forall>s\<in>set (tl back). Segment_readAvailable s = 0) \<and>
     apart_list (front @ back)"

definition buf_ok :: "heap \<Rightarrow> buffer \<Rightarrow> bool" where
  "buf_ok h b \<longleftrightarrow> segs_ok h (m_front b) (m_back b) \<and>
     m_readAvailable b = segs_ra (m_segments b) \<and> m_writeAvailable b = segs_wa (m_segments b)"

text \<open>What a buffer stands for, and its footprint in memory.\<close>

definition buf_read :: "heap \<Rightarrow> buffer \<Rightarrow> byte list" where
  "buf_read h b = segs_read h (m_segments b)"

definition buf_write :: "heap \<Rightarrow> buffer \<Rightarrow> byte list" where
  "buf_write h b = segs_write h (m_segments b)"

definition buf_cells :: "buffer \<Rightarrow> (array_id \<times> nat) set" where
  "buf_cells b = segs_cells (m_segments b)"

definition buf_wcells :: "buffer \<Rightarrow> (array_id \<times> nat) set" where
  "buf_wcells b = segs_wcells (m_segments b)"

lemmas buf_defs = buf_ok_def buf_read_def buf_write_def buf_cells_def buf_wcells_def

lemma length_buf_read: "buf_ok h b \<Longrightarrow> length (buf_read h b) = m_readAvailable b"
  by (auto simp: buf_defs segs_ok_def length_segs_read)

lemma length_buf_write: "buf_ok h b \<Longrightarrow> length (buf_write h b) = m_writeAvailable b"
  by (auto simp: buf_defs segs_ok_def length_segs_write)

lemma segs_ok_front_write: "segs_ok h front back \<Longrightarrow> segs_write h front = [] \<and> segs_wa front = 0"
  by (auto simp: segs_ok_def segs_write_full sum_list_eq_0_all)

lemma segs_ok_tl_read:
  "segs_ok h front back \<Longrightarrow> segs_read h (tl back) = [] \<and> segs_ra (tl back) = 0"
  by (auto simp: segs_ok_def segs_read_empty sum_list_eq_0_all)

subsection \<open>It implies the self-check\<close>

lemma invariant_loop_tail:
  "\<forall>s\<in>set ss. seg_ok h s \<Longrightarrow> \<forall>s\<in>set ss. Segment_readAvailable s = 0 \<Longrightarrow> merged ss \<Longrightarrow>
   invariant_loop w i True ss"
proof (induction ss arbitrary: i)
  case Nil
  then show ?case by simp
next
  case (Cons s ss)
  then have s: "seg_ok h s" "Segment_readAvailable s = 0" by simp_all
  then have w: "Segment_writeAvailable s \<noteq> 0" using ra_plus_wa[of h s] by simp
  have "\<not> adjoins (Segment_writeBuffer s) (Segment_writeBuffer t)"
    if "ss = t # ts" for t ts
    using Cons.prems that s by (auto simp: merged_Cons adjoins_def segment_defs)
  then show ?case
    using Cons s w by (auto simp: merged_Cons seg_ok_def split: list.splits)
qed

text \<open>
  The self-check looks at fewer pairs of neighbours than \<open>merged\<close>: it lets the last full
  segment adjoin the one at \<open>m_writeIt\<close> while that holds nothing to read.
\<close>

definition weakly_merged :: "segment list \<Rightarrow> segment list \<Rightarrow> bool" where
  "weakly_merged front back \<longleftrightarrow> merged front \<and> merged back \<and>
     (front = [] \<or> back = [] \<or> Segment_readAvailable (hd back) = 0 \<or>
      \<not> adjoins (m_data (last front)) (m_data (hd back)))"

lemma merged_weakly: "merged (front @ back) \<Longrightarrow> weakly_merged front back"
  by (auto simp: weakly_merged_def merged_append)

lemma invariant_loop_ok:
  "segs_ok h front back \<Longrightarrow> weakly_merged front back \<Longrightarrow>
   invariant_loop (i + length front) i False (front @ back)"
proof (induction front arbitrary: i)
  case Nil
  show ?case
  proof (cases "back")
    case Nil
    then show ?thesis by simp
  next
    case (Cons s ss)
    have ok: "seg_ok h s" "Segment_writeAvailable s \<noteq> 0" and m: "merged (s # ss)"
      using Nil.prems Cons by (auto simp: segs_ok_def weakly_merged_def)
    have "\<not> adjoins (Segment_writeBuffer s) (Segment_writeBuffer t)"
      if "ss = t # ts" for t ts
      using Nil.prems(1) m Cons that ok by (auto simp: segs_ok_def merged_Cons adjoins_def segment_defs)
    moreover have "invariant_loop i (Suc i) True ss"
      using Nil.prems(1) m Cons by (intro invariant_loop_tail[of _ h]) (auto simp: segs_ok_def merged_Cons)
    ultimately show ?thesis
      using Nil.prems(1) Cons ok by (auto simp: segs_ok_def seg_ok_def split: list.splits)
  qed
next
  case (Cons s front)
  have ok: "seg_ok h s" "Segment_writeAvailable s = 0"
    using Cons.prems by (auto simp: segs_ok_def)
  have "invariant_loop (Suc i + length front) (Suc i) False (front @ back)"
    using Cons.prems
    by (intro Cons.IH) (auto simp: segs_ok_def weakly_merged_def merged_Cons apart_list_Cons split: if_splits)
  moreover have "\<not> adjoins (Segment_readBuffer s) (Segment_readBuffer t)"
    if "front @ back = t # ts" and "Segment_readAvailable t \<noteq> 0" for t ts
    using Cons.prems that ok
    by (cases front) (auto simp: weakly_merged_def merged_Cons adjoins_def segment_defs seg_ok_def)
  ultimately show ?case
    using ok by (auto simp: seg_ok_def split: list.splits)
qed

lemma buf_ok_invariant:
  assumes "buf_ok h b" and "weakly_merged (m_front b) (m_back b)"
  shows "Buffer_invariant b"
proof -
  have ok: "segs_ok h (m_front b) (m_back b)"
    and sums: "m_readAvailable b = segs_ra (m_segments b)" "m_writeAvailable b = segs_wa (m_segments b)"
    using assms by (simp_all add: buf_defs)
  have "m_writeAvailable b \<noteq> 0 \<or> m_back b = []"
    using ok sums(2) by (cases "m_back b") (auto simp: segs_ok_def)
  then show ?thesis
    using invariant_loop_ok[OF ok assms(2), of 0] sums by (simp add: Buffer_invariant_def)
qed

text \<open>
  Where the self-check is compiled in, the operations below also need neighbours to be
  merged; \<open>checked\<close> says so for either build.
\<close>

definition checked :: "bool \<Rightarrow> buffer \<Rightarrow> bool" where
  "checked dbg b \<longleftrightarrow> (dbg \<longrightarrow> merged (m_segments b))"

lemma self_check_ok:
  "buf_ok h b \<Longrightarrow> dbg \<longrightarrow> weakly_merged (m_front b) (m_back b) \<Longrightarrow> self_check dbg b k = k"
  using buf_ok_invariant by (auto simp: self_check_def)

lemma self_check_checked: "buf_ok h b \<Longrightarrow> checked dbg b \<Longrightarrow> self_check dbg b k = k"
  by (rule self_check_ok) (auto simp: checked_def merged_weakly)

end
