(* ===== verification/Buffer_Moves.thy ===== *)
theory Buffer_Moves
  imports Buffer_Inv
begin

text \<open>
  Correctness of the operations that move the ends of a buffer or change its space without
  copying bytes: \<open>produce\<close>, \<open>consume\<close>, \<open>truncate\<close>, \<open>clear\<close>, \<open>compact\<close>, \<open>adopt\<close> and
  \<open>reserve\<close>. Each keeps the invariant, does to the readable bytes what its name says, and
  stays inside the memory the buffer had.
\<close>

section \<open>produce\<close>

lemma list_all2_shrinks_refl [simp]: "list_all2 shrinks ss ss"
  by (simp add: list_all2_conv_all_nth)

lemma segs_ok_replace:
  assumes "segs_ok h front (s # rest)" and "seg_ok h s'" and "shrinks s s'"
    and "Segment_writeAvailable s' \<noteq> 0"
  shows "segs_ok h front (s' # rest)"
proof -
  have "list_all2 shrinks (front @ s # rest) (front @ s' # rest)"
    using assms(3) by (intro list_all2_appendI) auto
  then have "apart_list (front @ s' # rest)"
    using assms(1) apart_list_shrinks by (auto simp: segs_ok_def)
  then show ?thesis using assms by (auto simp: segs_ok_def)
qed

lemma segs_ok_advance:
  assumes "segs_ok h front (s # rest)" and "seg_ok h s'" and "shrinks s s'"
    and "Segment_writeAvailable s' = 0"
  shows "segs_ok h (front @ [s']) rest"
proof -
  have "list_all2 shrinks (front @ s # rest) (front @ s' # rest)"
    using assms(3) by (intro list_all2_appendI) auto
  then have "apart_list (front @ s' # rest)"
    using assms(1) apart_list_shrinks by (auto simp: segs_ok_def)
  moreover have "rest = [] \<or> Segment_writeAvailable (hd rest) \<noteq> 0"
    using assms(1) ra_plus_wa[of h "hd rest"] by (cases rest) (auto simp: segs_ok_def)
  moreover have "\<forall>s\<in>set (tl rest). Segment_readAvailable s = 0"
    using assms(1) by (cases rest) (auto simp: segs_ok_def)
  ultimately show ?thesis using assms by (auto simp: segs_ok_def)
qed

lemma produce_loop_ok:
  assumes "segs_ok h front back" and "n \<le> segs_wa back"
  shows "\<exists>front' back'. produce_loop n front back = Inr (front', back') \<and> segs_ok h front' back' \<and>
     map m_data (front' @ back') = map m_data (front @ back) \<and>
     list_all2 shrinks (front @ back) (front' @ back') \<and>
     segs_read h (front' @ back') = segs_read h (front @ back) @ take n (segs_write h back) \<and>
     segs_write h back' = drop n (segs_write h back)"
  using assms
proof (induction "back" arbitrary: front n)
  case Nil
  then show ?case by (simp add: produce_loop.simps)
next
  case (Cons s rest)
  show ?case
  proof (cases "n = 0")
    case True
    then show ?thesis using Cons.prems by (simp add: produce_loop.simps)
  next
    case False
    have ok: "seg_ok h s" and rest: "segs_read h rest = []"
      using Cons.prems(1) segs_ok_tl_read[OF Cons.prems(1)] by (auto simp: segs_ok_def)
    obtain s' where s': "Segment_produce (min (Segment_writeAvailable s) n) s = Inr s'"
        "m_data s' = m_data s" "seg_ok h s'" "shrinks s s'"
        "seg_read h s' = seg_read h s @ take (min (Segment_writeAvailable s) n) (seg_write h s)"
        "seg_write h s' = drop (min (Segment_writeAvailable s) n) (seg_write h s)"
      by (rule Segment_produce_ok[OF ok, of "min (Segment_writeAvailable s) n"])
        (auto simp: shrinks_def)
    have wa: "Segment_writeAvailable s' = Segment_writeAvailable s - min (Segment_writeAvailable s) n"
      using Segment_produce_writeAvailable[OF s'(1)] .
    have len: "length (seg_write h s) = Segment_writeAvailable s"
      using ok by (rule length_seg_write)
    show ?thesis
    proof (cases "n < Segment_writeAvailable s")
      case True
      then have "produce_loop n front (s # rest) = Inr (front, s' # rest)"
        using False s'(1) wa
        by (simp add: produce_loop.simps[of n] produce_loop.simps[of 0] min_def)
      moreover have "segs_ok h front (s' # rest)"
        using wa True by (intro segs_ok_replace[OF Cons.prems(1) s'(3,4)]) simp
      moreover have "list_all2 shrinks (front @ s # rest) (front @ s' # rest)"
        using s'(4) by (intro list_all2_appendI) auto
      ultimately show ?thesis
        using s' rest len True by (simp add: min_def)
    next
      case ge: False
      let ?m = "n - Segment_writeAvailable s"
      have m: "?m \<le> segs_wa rest" using Cons.prems(2) by simp
      have "segs_ok h (front @ [s']) rest"
        using wa ge by (intro segs_ok_advance[OF Cons.prems(1) s'(3,4)]) simp
      from Cons.IH[OF this m] obtain front' back' where
        IH: "produce_loop ?m (front @ [s']) rest = Inr (front', back')" "segs_ok h front' back'"
          "map m_data (front' @ back') = map m_data ((front @ [s']) @ rest)"
          "list_all2 shrinks ((front @ [s']) @ rest) (front' @ back')"
          "segs_read h (front' @ back') = segs_read h ((front @ [s']) @ rest) @ take ?m (segs_write h rest)"
          "segs_write h back' = drop ?m (segs_write h rest)"
        by blast
      have "produce_loop n front (s # rest) = Inr (front', back')"
        using False s'(1) wa ge IH(1) by (simp add: produce_loop.simps[of n] min_def)
      moreover have "list_all2 shrinks (front @ s # rest) (front' @ back')"
      proof (rule list_all2_trans[OF _ _ IH(4)])
        show "\<And>a b c. shrinks a b \<Longrightarrow> shrinks b c \<Longrightarrow> shrinks a c"
          by (auto simp: shrinks_def)
        show "list_all2 shrinks (front @ s # rest) ((front @ [s']) @ rest)"
          using s'(4) by (auto intro: list_all2_appendI)
      qed
      ultimately show ?thesis
        using IH s' rest len ge by (simp add: min_def)
    qed
  qed
qed

text \<open>\<open>produce\<close> makes the first \<open>n\<close> bytes of the writable space readable.\<close>

lemma Buffer_produce_ok:
  assumes "buf_ok h b" and "checked dbg b" and "n \<le> m_writeAvailable b"
  obtains b' where "Buffer_produce dbg n b = Inr b'" and "buf_ok h b'" and "checked dbg b'"
    and "buf_read h b' = buf_read h b @ take n (buf_write h b)"
    and "buf_write h b' = drop n (buf_write h b)"
    and "buf_cells b' \<subseteq> buf_cells b" and "buf_wcells b' \<subseteq> buf_wcells b"
proof -
  have ok: "segs_ok h (m_front b) (m_back b)" using assms(1) by (simp add: buf_ok_def)
  note front = segs_ok_front_write[OF ok]
  have "n \<le> segs_wa (m_back b)"
    using assms(1,3) front by (simp add: buf_ok_def)
  from produce_loop_ok[OF ok this] obtain front' back' where
    loop: "produce_loop n (m_front b) (m_back b) = Inr (front', back')" "segs_ok h front' back'"
      "map m_data (front' @ back') = map m_data (m_segments b)"
      "list_all2 shrinks (m_segments b) (front' @ back')"
      "segs_read h (front' @ back') = segs_read h (m_segments b) @ take n (segs_write h (m_back b))"
      "segs_write h back' = drop n (segs_write h (m_back b))"
    by blast
  let ?b = "\<lparr>m_front = front', m_back = back', m_readAvailable = m_readAvailable b + n,
             m_writeAvailable = m_writeAvailable b - n\<rparr>"
  note front' = segs_ok_front_write[OF loop(2)]
  have seg: "\<forall>s\<in>set (front' @ back'). seg_ok h s" using loop(2) by (simp add: segs_ok_def)
  have lw: "length (segs_write h (m_back b)) = m_writeAvailable b"
    using length_buf_write[OF assms(1)] front by (simp add: buf_write_def)
  have ra: "segs_ra (front' @ back') = m_readAvailable b + n"
    using arg_cong[OF loop(5), of length] length_buf_read[OF assms(1)] lw assms(3)
    by (simp add: length_segs_read[OF seg, simplified] buf_read_def length_segs_read min_def)
  have wa: "segs_wa (front' @ back') = m_writeAvailable b - n"
    using arg_cong[OF loop(6), of length] lw front'(1) seg
    by (simp add: length_segs_write)
  have ok': "buf_ok h ?b" using loop(2) ra wa by (simp add: buf_ok_def)
  have ch: "checked dbg ?b"
    using assms(2) merged_map_data[OF loop(3)] by (simp add: checked_def)
  show thesis
  proof (rule that)
    show "Buffer_produce dbg n b = Inr ?b"
      using assms(3) loop(1)
      by (simp add: Buffer_produce_def Let_def self_check_checked[OF ok' ch])
    show "buf_read h ?b = buf_read h b @ take n (buf_write h b)"
      "buf_write h ?b = drop n (buf_write h b)"
      using loop(5,6) front front' by (simp_all add: buf_read_def buf_write_def)
    show "buf_cells ?b \<subseteq> buf_cells b" "buf_wcells ?b \<subseteq> buf_wcells b"
      using segs_cells_shrinks[OF loop(4)] by (simp_all add: buf_cells_def buf_wcells_def)
  qed (fact ok' ch)+
qed

section \<open>consume\<close>

lemma segs_ok_tl: "segs_ok h (s # front) back \<Longrightarrow> segs_ok h front back"
  by (auto simp: segs_ok_def apart_list_Cons)

lemma consume_loop_ok:
  assumes "segs_ok h front back" and "n \<le> segs_ra (front @ back)"
  shows "\<exists>front' back'. consume_loop n front back = Inr (front', back') \<and> segs_ok h front' back' \<and>
     (merged (front @ back) \<longrightarrow> merged (front' @ back')) \<and>
     segs_cells (front' @ back') \<subseteq> segs_cells (front @ back) \<and>
     segs_wcells (front' @ back') = segs_wcells (front @ back) \<and>
     segs_read h (front' @ back') = drop n (segs_read h (front @ back)) \<and>
     segs_write h back' = segs_write h back"
  using assms
proof (induction front arbitrary: n)
  case Nil
  show ?case
  proof (cases "n = 0")
    case True
    then show ?thesis using Nil.prems by (simp add: consume_loop.simps)
  next
    case False
    then obtain s rest where b: "back = s # rest"
      using Nil.prems(2) by (cases "back") auto
    have ok: "seg_ok h s" "Segment_writeAvailable s \<noteq> 0"
      and rest: "segs_read h rest = []" "segs_ra rest = 0"
      using Nil.prems(1) segs_ok_tl_read[OF Nil.prems(1)] b by (auto simp: segs_ok_def)
    have n: "n \<le> Segment_readAvailable s" using Nil.prems(2) b rest(2) by simp
    obtain s' where s': "Segment_consume n s = Inr s'" "m_writeIndex s' = m_writeIndex s - n"
        "m_array (m_data s') = m_array (m_data s)" "m_start (m_data s') = m_start (m_data s) + n"
        "m_length (m_data s') = m_length (m_data s) - n"
        "seg_read h s' = drop n (seg_read h s)" "seg_write h s' = seg_write h s"
        "cells s' \<subseteq> cells s" "wcells s' = wcells s"
      using Segment_consume_ok[OF ok(1) n] by blast
    have wa: "Segment_writeAvailable s' = Segment_writeAvailable s"
      using s'(2,5) n ok(1) by (simp add: segment_defs seg_ok_def)
    then have len: "Segment_length s' \<noteq> 0" using ok(2) by (simp add: segment_defs)
    have ok': "seg_ok h s'"
      using ok(1) s'(2-5) len n by (auto simp: seg_ok_def segment_defs)
    have "consume_loop n [] back = Inr ([], s' # rest)"
      using False n s'(1) len b
      by (simp add: consume_loop.simps[of n] consume_loop.simps[of 0] min_absorb2)
    moreover have "segs_ok h [] (s' # rest)"
      using segs_ok_replace[of h "[]" s rest s'] Nil.prems(1) b ok' ok(2) wa s'(8,9)
      by (simp add: shrinks_def)
    moreover have "merged back \<longrightarrow> merged (s' # rest)"
      using s'(3-5) n ok(1) b by (auto simp: merged_Cons adjoins_def seg_ok_def segment_defs)
    ultimately show ?thesis
      using s'(6-9) b rest(1) by auto
  qed
next
  case (Cons s front)
  show ?case
  proof (cases "n = 0")
    case True
    then show ?thesis using Cons.prems by (auto simp: consume_loop.simps)
  next
    case False
    let ?t = "min (Segment_readAvailable s) n"
    have ok: "seg_ok h s" "Segment_writeAvailable s = 0"
      using Cons.prems(1) by (auto simp: segs_ok_def)
    obtain s' where s': "Segment_consume ?t s = Inr s'" "m_writeIndex s' = m_writeIndex s - ?t"
        "m_array (m_data s') = m_array (m_data s)" "m_start (m_data s') = m_start (m_data s) + ?t"
        "m_length (m_data s') = m_length (m_data s) - ?t"
        "seg_read h s' = drop ?t (seg_read h s)" "seg_write h s' = seg_write h s"
        "cells s' \<subseteq> cells s" "wcells s' = wcells s"
      using Segment_consume_ok[OF ok(1), of ?t] by (metis min.cobounded1)
    have full: "m_length (m_data s) = Segment_readAvailable s" "0 < Segment_readAvailable s"
      using ok ra_plus_wa[OF ok(1)] by (simp_all add: segment_defs)
    have rlen: "length (seg_read h s) = Segment_readAvailable s"
      using ok(1) by (rule length_seg_read)
    have sw: "seg_write h s = []" "wcells s = {}"
      using ok by (simp_all add: seg_write_full wcells_full)
    show ?thesis
    proof (cases "n < Segment_readAvailable s")
      case True
      have len: "Segment_length s' \<noteq> 0"
        using s'(5) full True by (simp add: segment_defs)
      have ok': "seg_ok h s'" "Segment_writeAvailable s' = 0"
        using ok s'(2-5) len full True by (auto simp: seg_ok_def segment_defs)
      have "consume_loop n (s # front) back = Inr (s' # front, back)"
        using False True s'(1) len
        by (simp add: consume_loop.simps[of n] consume_loop.simps[of 0] min_absorb2)
      moreover have "apart_list ((s' # front) @ back)"
      proof (rule apart_list_shrinks)
        show "apart_list ((s # front) @ back)" using Cons.prems(1) by (simp add: segs_ok_def)
        show "list_all2 shrinks ((s # front) @ back) ((s' # front) @ back)"
          using s'(8,9) by (simp add: shrinks_def)
      qed
      then have "segs_ok h (s' # front) back"
        using Cons.prems(1) ok' by (auto simp: segs_ok_def)
      moreover have "merged ((s # front) @ back) \<longrightarrow> merged ((s' # front) @ back)"
        using s'(3-5) True full by (auto simp: merged_Cons adjoins_def)
      ultimately show ?thesis
        using s'(6-9) True rlen by (auto simp: min_absorb2)
    next
      case ge: False
      have len: "Segment_length s' = 0"
        using s'(5) full ge by (simp add: segment_defs)
      have n: "n - Segment_readAvailable s \<le> segs_ra (front @ back)"
        using Cons.prems(2) by simp
      from Cons.IH[OF segs_ok_tl[OF Cons.prems(1)] n] obtain front' back' where
        IH: "consume_loop (n - Segment_readAvailable s) front back = Inr (front', back')"
          "segs_ok h front' back'" "merged (front @ back) \<longrightarrow> merged (front' @ back')"
          "segs_cells (front' @ back') \<subseteq> segs_cells (front @ back)"
          "segs_wcells (front' @ back') = segs_wcells (front @ back)"
          "segs_read h (front' @ back') = drop (n - Segment_readAvailable s) (segs_read h (front @ back))"
          "segs_write h back' = segs_write h back"
        by blast
      have "consume_loop n (s # front) back = Inr (front', back')"
        using False ge s'(1) len IH(1)
        by (simp add: consume_loop.simps[of n] min_absorb1)
      then show ?thesis
        using IH(2-7) sw rlen ge by (auto simp: merged_Cons)
    qed
  qed
qed

text \<open>\<open>consume\<close> drops bytes from the front and leaves the writable space alone.\<close>

lemma Buffer_consume_ok:
  assumes "buf_ok h b" and "checked dbg b" and "n \<le> m_readAvailable b"
  obtains b' where "Buffer_consume dbg n b = Inr b'" and "buf_ok h b'" and "checked dbg b'"
    and "buf_read h b' = drop n (buf_read h b)" and "buf_write h b' = buf_write h b"
    and "buf_cells b' \<subseteq> buf_cells b" and "buf_wcells b' \<subseteq> buf_wcells b"
proof -
  have ok: "segs_ok h (m_front b) (m_back b)" using assms(1) by (simp add: buf_ok_def)
  have "n \<le> segs_ra (m_segments b)" using assms(1,3) by (simp add: buf_ok_def)
  from consume_loop_ok[OF ok this] obtain front' back' where
    loop: "consume_loop n (m_front b) (m_back b) = Inr (front', back')" "segs_ok h front' back'"
      "merged (m_segments b) \<longrightarrow> merged (front' @ back')"
      "segs_cells (front' @ back') \<subseteq> segs_cells (m_segments b)"
      "segs_wcells (front' @ back') = segs_wcells (m_segments b)"
      "segs_read h (front' @ back') = drop n (segs_read h (m_segments b))"
      "segs_write h back' = segs_write h (m_back b)"
    by blast
  let ?b = "b\<lparr>m_front := front', m_back := back', m_readAvailable := m_readAvailable b - n\<rparr>"
  note fw = segs_ok_front_write[OF ok] and fw' = segs_ok_front_write[OF loop(2)]
  have seg: "\<forall>s\<in>set (front' @ back'). seg_ok h s" using loop(2) by (simp add: segs_ok_def)
  have ra: "segs_ra (front' @ back') = m_readAvailable b - n"
    using arg_cong[OF loop(6), of length] length_buf_read[OF assms(1)]
      length_segs_read[OF seg] by (simp add: buf_read_def)
  have wa: "segs_wa (front' @ back') = m_writeAvailable b"
    using arg_cong[OF loop(7), of length] length_buf_write[OF assms(1)] length_segs_write[OF seg] fw fw'
    by (simp add: buf_write_def)
  have ok': "buf_ok h ?b" using loop(2) ra wa by (simp add: buf_ok_def)
  have ch: "checked dbg ?b" using assms(2) loop(3) by (simp add: checked_def)
  show thesis
  proof (rule that)
    show "Buffer_consume dbg n b = Inr ?b"
      using assms(3) loop(1)
      by (simp add: Buffer_consume_def Let_def self_check_checked[OF ok' ch])
    show "buf_read h ?b = drop n (buf_read h b)" "buf_write h ?b = buf_write h b"
      using loop(6,7) fw fw' by (simp_all add: buf_read_def buf_write_def)
    show "buf_cells ?b \<subseteq> buf_cells b" "buf_wcells ?b \<subseteq> buf_wcells b"
      using loop(4,5) by (simp_all add: buf_cells_def buf_wcells_def)
  qed (fact ok' ch)+
qed

section \<open>truncate\<close>

lemma buf_okI:
  assumes "segs_ok h (m_front b) (m_back b)"
    and "length (buf_read h b) = m_readAvailable b" and "length (buf_write h b) = m_writeAvailable b"
  shows "buf_ok h b"
proof -
  have "\<forall>s\<in>set (m_segments b). seg_ok h s" using assms(1) by (simp add: segs_ok_def)
  from length_segs_read[OF this] length_segs_write[OF this] show ?thesis
    using assms by (simp add: buf_ok_def buf_read_def buf_write_def)
qed

lemma apart_list_split:
  assumes "apart_list (xs @ s # ys)" and "shrinks s r" and "shrinks s t" and "seg_apart r t"
  shows "apart_list (xs @ r # t # ys)"
proof -
  have "seg_apart x r" "seg_apart x t" if "x \<in> set xs" for x
    using assms(1-3) that seg_apart_mono[of x s x r] seg_apart_mono[of x s x t]
    by (simp_all add: apart_list_append shrinks_def)
  moreover have "seg_apart r y" "seg_apart t y" if "y \<in> set ys" for y
    using assms(1-3) that seg_apart_mono[of s y r y] seg_apart_mono[of s y t y]
    by (simp_all add: apart_list_append apart_list_Cons shrinks_def)
  ultimately show ?thesis
    using assms(1,4) by (simp add: apart_list_append apart_list_Cons)
qed

text \<open>Splitting a mixed segment moves the boundary between the two halves and nothing else.\<close>

lemma Buffer_splitMixed_ok:
  assumes "buf_ok h b"
  obtains b1 where "Buffer_splitMixed b = Inr b1" and "buf_ok h b1"
    and "\<forall>s\<in>set (m_back b1). Segment_readAvailable s = 0"
    and "buf_read h b1 = buf_read h b" and "buf_write h b1 = buf_write h b"
    and "m_readAvailable b1 = m_readAvailable b" and "m_writeAvailable b1 = m_writeAvailable b"
    and "merged (m_segments b) \<longrightarrow> weakly_merged (m_front b1) (m_back b1)"
    and "buf_cells b1 \<subseteq> buf_cells b" and "buf_wcells b1 \<subseteq> buf_wcells b"
proof (cases "m_back b = [] \<or> Segment_readAvailable (hd (m_back b)) = 0")
  case True
  have "Buffer_splitMixed b = Inr b"
    using True by (auto simp: Buffer_splitMixed_def split: list.splits)
  moreover have "\<forall>s\<in>set (m_back b). Segment_readAvailable s = 0"
    using True assms by (cases "m_back b") (auto simp: buf_ok_def segs_ok_def)
  ultimately show ?thesis
    using assms by (intro that[of b]) (auto simp: merged_weakly)
next
  case False
  then obtain s rest where bk: "m_back b = s # rest" and ra: "Segment_readAvailable s \<noteq> 0"
    by (cases "m_back b") auto
  have ok: "segs_ok h (m_front b) (s # rest)" using assms bk by (simp add: buf_ok_def)
  then have s: "seg_ok h s" "Segment_writeAvailable s \<noteq> 0" by (auto simp: segs_ok_def)
  let ?r = "Segment_of (Segment_readBuffer s)"
  note r = Segment_of_readBuffer_ok[OF s(1) ra]
  obtain s' where s': "Segment_consume (Segment_readAvailable s) s = Inr s'"
      "m_writeIndex s' = m_writeIndex s - Segment_readAvailable s"
      "m_array (m_data s') = m_array (m_data s)"
      "m_start (m_data s') = m_start (m_data s) + Segment_readAvailable s"
      "m_length (m_data s') = m_length (m_data s) - Segment_readAvailable s"
      "seg_read h s' = drop (Segment_readAvailable s) (seg_read h s)" "seg_write h s' = seg_write h s"
      "cells s' \<subseteq> cells s" "wcells s' = wcells s"
    using Segment_consume_ok[OF s(1) order_refl] by blast
  have ra': "Segment_readAvailable s' = 0" "Segment_writeAvailable s' \<noteq> 0" "seg_ok h s'"
    using s s'(2-5) by (auto simp: segment_defs seg_ok_def)
  have full: "Segment_writeAvailable ?r = 0" by (simp add: segment_defs)
  let ?b = "b\<lparr>m_front := m_front b @ [?r], m_back := s' # rest\<rparr>"
  have "apart_list (m_front b @ ?r # s' # rest)"
  proof (rule apart_list_split)
    show "apart_list (m_front b @ s # rest)" using ok by (simp add: segs_ok_def)
    show "shrinks s ?r" "shrinks s s'" using r s'(8,9) by (auto simp: shrinks_def)
    show "seg_apart ?r s'" using r s'(9) by (auto simp: seg_apart_def)
  qed
  then have ok': "segs_ok h (m_front ?b) (m_back ?b)"
    using ok r(1) full ra' by (auto simp: segs_ok_def)
  have rd: "buf_read h ?b = buf_read h b" "buf_write h ?b = buf_write h b"
    using r(2,3) s'(6,7) length_seg_read[OF s(1)] bk by (simp_all add: buf_read_def buf_write_def)
  have rest: "\<forall>t\<in>set rest. Segment_readAvailable t = 0" using ok by (auto simp: segs_ok_def)
  have wm: "weakly_merged (m_front ?b) (m_back ?b)" if "merged (m_segments b)"
    using that bk s'(3-5) s(1) ra'(1)
    by (auto simp: weakly_merged_def merged_append merged_Cons adjoins_def segment_defs seg_ok_def)
  show ?thesis
  proof (rule that)
    show "Buffer_splitMixed b = Inr ?b"
      using bk ra s'(1) by (simp add: Buffer_splitMixed_def)
    show "buf_ok h ?b"
      using rd length_buf_read[OF assms] length_buf_write[OF assms] by (intro buf_okI[OF ok']) simp_all
    show "buf_cells ?b \<subseteq> buf_cells b" "buf_wcells ?b \<subseteq> buf_wcells b"
      using r(4,5) s'(8,9) bk by (auto simp: buf_cells_def buf_wcells_def)
  qed (use rd rest ra'(1) wm in auto)
qed

text \<open>A segment cut at its end keeps its place.\<close>

definition cuts :: "segment \<Rightarrow> segment \<Rightarrow> bool" where
  "cuts s s' \<longleftrightarrow> shrinks s s' \<and> m_array (m_data s') = m_array (m_data s) \<and>
     m_start (m_data s') = m_start (m_data s)"

lemma list_all2_cuts_refl [simp]: "list_all2 cuts ss ss"
  by (simp add: list_all2_conv_all_nth cuts_def)

lemma truncate_scan_ok:
  assumes "\<forall>s\<in>set ss. seg_ok h s \<and> Segment_writeAvailable s = 0" and "n < segs_ra ss"
  shows "\<exists>kept0 kept dropped. truncate_scan n (ss @ ts) = Inr (kept, dropped @ ts) \<and>
     ss = kept0 @ dropped \<and> list_all2 cuts kept0 kept \<and>
     (\<forall>s\<in>set kept. seg_ok h s \<and> Segment_writeAvailable s = 0) \<and>
     (merged ss \<longrightarrow> merged kept) \<and> segs_read h kept = take n (segs_read h ss)"
  using assms
proof (induction ss arbitrary: n)
  case Nil
  then show ?case by simp
next
  case (Cons s ss)
  have ok: "seg_ok h s" "Segment_writeAvailable s = 0" using Cons.prems by auto
  have len: "length (seg_read h s) = Segment_readAvailable s" using ok(1) by (rule length_seg_read)
  consider "n = 0" | "0 < n" "n \<le> Segment_readAvailable s" | "Segment_readAvailable s < n"
    by linarith
  then show ?case
  proof cases
    case 1
    then have "truncate_scan n ((s # ss) @ ts) = Inr ([], (s # ss) @ ts)" by simp
    with 1 show ?thesis
      by - (rule exI[of _ "[]"], rule exI[of _ "[]"], rule exI[of _ "s # ss"], simp)
  next
    case 2
    obtain s' where s': "Segment_truncate n s = Inr s'" "seg_ok h s'" "m_writeIndex s' = n"
        "m_length (m_data s') = n" "seg_read h s' = take n (seg_read h s)" "cuts s s'"
      by (rule Segment_truncate_ok[OF ok(1) 2(2,1)]) (auto simp: cuts_def shrinks_def)
    then have "truncate_scan n ((s # ss) @ ts) = Inr ([s'], ss @ ts)" using 2 by simp
    moreover have "Segment_writeAvailable s' = 0" using s'(3,4) by (simp add: segment_defs)
    ultimately show ?thesis
      using s' 2 len by - (rule exI[of _ "[s]"], rule exI[of _ "[s']"], rule exI[of _ ss], simp)
  next
    case 3
    let ?m = "n - Segment_readAvailable s"
    have "?m < segs_ra ss" using Cons.prems(2) 3 by simp
    then obtain kept0 kept dropped where
      IH: "truncate_scan ?m (ss @ ts) = Inr (kept, dropped @ ts)" "ss = kept0 @ dropped"
        "list_all2 cuts kept0 kept" "\<forall>s\<in>set kept. seg_ok h s \<and> Segment_writeAvailable s = 0"
        "merged ss \<longrightarrow> merged kept" "segs_read h kept = take ?m (segs_read h ss)"
      using Cons.IH[of ?m] Cons.prems(1) by auto
    have "merged (s # kept)" if "merged (s # ss)"
      using that IH(2,3,5) by (cases kept0; cases kept) (auto simp: merged_Cons adjoins_def cuts_def)
    moreover have "truncate_scan n ((s # ss) @ ts) = Inr (s # kept, dropped @ ts)"
      using 3 IH(1) by simp
    ultimately show ?thesis
      using IH ok len 3
      by - (rule exI[of _ "s # kept0"], rule exI[of _ "s # kept"], rule exI[of _ dropped],
          simp add: cuts_def[of s s])
  qed
qed

lemma truncate_erase_ok:
  "\<forall>s\<in>set ss. seg_ok h s \<and> Segment_writeAvailable s = 0 \<Longrightarrow>
   \<forall>s\<in>set ts. Segment_readAvailable s = 0 \<Longrightarrow> truncate_erase (ss @ ts) = Inr ts"
proof (induction ss)
  case Nil
  then show ?case by (cases ts) auto
next
  case (Cons s ss)
  then show ?case using ra_plus_wa[of h s] by simp
qed

text \<open>\<open>truncate\<close> keeps the first \<open>n\<close> readable bytes and the writable space.\<close>

lemma Buffer_truncate_ok:
  assumes "buf_ok h b" and "checked dbg b" and "n \<le> m_readAvailable b"
  obtains b' where "Buffer_truncate dbg n b = Inr b'" and "buf_ok h b'"
    and "dbg \<longrightarrow> weakly_merged (m_front b') (m_back b')"
    and "buf_read h b' = take n (buf_read h b)" and "buf_write h b' = buf_write h b"
    and "buf_cells b' \<subseteq> buf_cells b" and "buf_wcells b' \<subseteq> buf_wcells b"
proof (cases "n = m_readAvailable b")
  case True
  then show ?thesis
    using assms length_buf_read[OF assms(1)]
    by (intro that[of b]) (auto simp: Buffer_truncate_def checked_def merged_weakly)
next
  case False
  obtain b1 where b1: "Buffer_splitMixed b = Inr b1" "buf_ok h b1"
      "\<forall>s\<in>set (m_back b1). Segment_readAvailable s = 0"
      "buf_read h b1 = buf_read h b" "buf_write h b1 = buf_write h b"
      "m_readAvailable b1 = m_readAvailable b"
      "merged (m_segments b) \<longrightarrow> weakly_merged (m_front b1) (m_back b1)"
      "buf_cells b1 \<subseteq> buf_cells b" "buf_wcells b1 \<subseteq> buf_wcells b"
    using Buffer_splitMixed_ok[OF assms(1)] by metis
  have ok1: "segs_ok h (m_front b1) (m_back b1)" using b1(2) by (simp add: buf_ok_def)
  have front: "\<forall>s\<in>set (m_front b1). seg_ok h s \<and> Segment_writeAvailable s = 0"
    using ok1 by (auto simp: segs_ok_def)
  have "segs_ra (m_back b1) = 0" using b1(3) by (simp add: sum_list_eq_0_all)
  then have n: "n < segs_ra (m_front b1)"
    using False assms(3) b1(2,6) unfolding buf_ok_def map_append sum_list_append by linarith
  obtain kept0 kept dropped where
    sc: "truncate_scan n (m_segments b1) = Inr (kept, dropped @ m_back b1)"
      "m_front b1 = kept0 @ dropped" "list_all2 cuts kept0 kept"
      "\<forall>s\<in>set kept. seg_ok h s \<and> Segment_writeAvailable s = 0"
      "merged (m_front b1) \<longrightarrow> merged kept" "segs_read h kept = take n (segs_read h (m_front b1))"
    using truncate_scan_ok[OF front n, of "m_back b1"] by blast
  have er: "truncate_erase (dropped @ m_back b1) = Inr (m_back b1)"
    using front sc(2) b1(3) by (intro truncate_erase_ok[of _ h]) auto
  have lk: "length kept0 = length kept" using sc(3) by (rule list_all2_lengthD)
  have shr: "list_all2 shrinks kept0 kept"
    using sc(3) by (auto simp: list_all2_conv_all_nth cuts_def)
  let ?b = "b1\<lparr>m_front := kept, m_readAvailable := n\<rparr>"
  have "apart_list (kept0 @ m_back b1)"
    using ok1 sc(2) by (auto simp: segs_ok_def apart_list_append)
  moreover have "list_all2 shrinks (kept0 @ m_back b1) (kept @ m_back b1)"
    using shr by (intro list_all2_appendI) auto
  ultimately have ap: "apart_list (kept @ m_back b1)" by (rule apart_list_shrinks)
  have ok': "segs_ok h (m_front ?b) (m_back ?b)"
    using ok1 sc(4) ap by (auto simp: segs_ok_def)
  have rd: "segs_read h (m_back b1) = []" using b1(3) by (rule segs_read_empty)
  have rd': "buf_read h ?b = take n (buf_read h b)"
    using sc(6) rd b1(4) by (simp add: buf_read_def)
  have wr': "buf_write h ?b = buf_write h b"
    using segs_ok_front_write[OF ok1] segs_ok_front_write[OF ok'] b1(5) by (simp add: buf_write_def)
  have bok: "buf_ok h ?b"
  proof (rule buf_okI[OF ok'])
    show "length (buf_read h ?b) = m_readAvailable ?b"
      using rd' length_buf_read[OF assms(1)] assms(3) by simp
    show "length (buf_write h ?b) = m_writeAvailable ?b"
      using wr' b1(5) length_buf_write[OF b1(2)] by simp
  qed
  have wm: "dbg \<longrightarrow> weakly_merged (m_front ?b) (m_back ?b)"
    using assms(2) b1(3,7) sc(5) by (cases "m_back b1") (auto simp: checked_def weakly_merged_def)
  have wl: "length (m_front b1) - length dropped = length kept" using sc(2) lk by simp
  show ?thesis
  proof (rule that)
    show "Buffer_truncate dbg n b = Inr ?b"
      using False assms(3) b1(1) sc(1) er wl lk sc(2)
      by (simp add: Buffer_truncate_def Let_def self_check_ok[OF bok wm])
    show "buf_cells ?b \<subseteq> buf_cells b" "buf_wcells ?b \<subseteq> buf_wcells b"
      using segs_cells_shrinks[OF shr] b1(8,9) sc(2)
      by (auto simp: buf_cells_def buf_wcells_def)
  qed (fact bok wm rd' wr')+
qed

section \<open>Changes of the heap\<close>

lemma segs_frame:
  assumes "heap_frame W h h'" and "\<forall>s\<in>set ss. seg_ok h s" and "W \<inter> segs_cells ss = {}"
  shows "(\<forall>s\<in>set ss. seg_ok h' s) \<and> segs_read h' ss = segs_read h ss \<and> segs_write h' ss = segs_write h ss"
  using assms(2,3)
proof (induction ss)
  case (Cons s ss)
  have "W \<inter> wcells s = {}" "W \<inter> (cells s - wcells s) = {}"
    using Cons.prems(2) wcells_subset[of s] by auto
  then show ?case
    using Cons seg_ok_frame[OF assms(1)] seg_read_frame[OF assms(1), of s]
      seg_write_frame[OF assms(1), of s] by auto
qed simp

lemma buf_frame:
  assumes "heap_frame W h h'" and "buf_ok h b" and "W \<inter> buf_cells b = {}"
  shows "buf_ok h' b" and "buf_read h' b = buf_read h b" and "buf_write h' b = buf_write h b"
proof -
  have "(\<forall>s\<in>set (m_segments b). seg_ok h' s) \<and> segs_read h' (m_segments b) = segs_read h (m_segments b)
     \<and> segs_write h' (m_segments b) = segs_write h (m_segments b)"
    using assms by (intro segs_frame) (auto simp: buf_ok_def segs_ok_def buf_cells_def)
  then show "buf_ok h' b" "buf_read h' b = buf_read h b" "buf_write h' b = buf_write h b"
    using assms(2) by (auto simp: buf_ok_def segs_ok_def buf_read_def buf_write_def)
qed

section \<open>adopt and reserve\<close>

lemma buf_no_read:
  assumes "buf_ok h b" and "m_readAvailable b = 0"
  shows "m_front b = []" and "\<forall>s\<in>set (m_back b). Segment_readAvailable s = 0"
proof -
  have z: "\<forall>s\<in>set (m_segments b). Segment_readAvailable s = 0"
    using assms sum_list_eq_0_all[of Segment_readAvailable "m_segments b"] by (simp add: buf_ok_def)
  then show "\<forall>s\<in>set (m_back b). Segment_readAvailable s = 0" by simp
  show "m_front b = []"
    using z assms(1) ra_plus_wa by (cases "m_front b") (fastforce simp: buf_ok_def segs_ok_def)+
qed

lemma buf_no_write: "buf_ok h b \<Longrightarrow> m_writeAvailable b = 0 \<longleftrightarrow> m_back b = []"
  using segs_ok_front_write[of h "m_front b" "m_back b"]
  by (cases "m_back b") (auto simp: buf_ok_def segs_ok_def)

lemma merged_snoc:
  "merged ss \<Longrightarrow> \<forall>t\<in>set ss. \<not> adjoins (m_data t) (m_data s) \<Longrightarrow> merged (ss @ [s])"
  by (auto simp: merged_append)

text \<open>A new segment that shares no array with the buffer extends its writable space.\<close>

lemma Buffer_addSegment_ok:
  assumes "buf_ok h b" and "checked dbg b" and "seg_ok h s" and "Segment_readAvailable s = 0"
    and "\<forall>t\<in>set (m_segments b). m_array (m_data t) \<noteq> m_array (m_data s)"
    and "b' = (Buffer_addSegment s b)\<lparr>m_writeAvailable := m_writeAvailable b + Segment_length s\<rparr>"
  shows "buf_ok h b'" and "checked dbg b'" and "buf_read h b' = buf_read h b"
    and "buf_write h b' = (if m_readAvailable b = 0 then seg_write h s @ buf_write h b
                           else buf_write h b @ seg_write h s)"
    and "buf_cells b' = cells s \<union> buf_cells b" and "buf_wcells b' = wcells s \<union> buf_wcells b"
    and "m_back b' \<noteq> []"
proof -
  have ok: "segs_ok h (m_front b) (m_back b)" using assms(1) by (simp add: buf_ok_def)
  have ap: "seg_apart s t \<and> seg_apart t s \<and> \<not> adjoins (m_data s) (m_data t) \<and> \<not> adjoins (m_data t) (m_data s)"
    if "t \<in> set (m_segments b)" for t
    using assms(5) that by (auto simp: seg_apart_def cells_def wcells_def adjoins_def)
  have wa: "Segment_writeAvailable s = Segment_length s" "Segment_writeAvailable s \<noteq> 0"
    using ra_plus_wa[OF assms(3)] assms(4) by auto
  have sr: "seg_read h s = []" using assms(4) by (rule seg_read_empty)
  have "buf_ok h b' \<and> checked dbg b' \<and> buf_read h b' = buf_read h b \<and>
    buf_write h b' = (if m_readAvailable b = 0 then seg_write h s @ buf_write h b
                      else buf_write h b @ seg_write h s) \<and>
    buf_cells b' = cells s \<union> buf_cells b \<and> buf_wcells b' = wcells s \<union> buf_wcells b \<and> m_back b' \<noteq> []"
  proof (cases "m_readAvailable b = 0")
    case True
    note e = buf_no_read[OF assms(1) True]
    have b': "m_front b' = []" "m_back b' = s # m_back b" "m_readAvailable b' = m_readAvailable b"
        "m_writeAvailable b' = m_writeAvailable b + Segment_length s"
      using assms(6) True e(1) by (simp_all add: Buffer_addSegment_def)
    have "segs_ok h (m_front b') (m_back b')"
      using ok e ap wa(2) assms(3) b' by (auto simp: segs_ok_def apart_list_Cons)
    moreover have "merged (m_segments b) \<longrightarrow> merged (m_segments b')"
      using ap b' e(1) by (cases "m_back b") (auto simp: merged_Cons)
    ultimately show ?thesis
      using assms(1,2) b' e(1) wa sr True assms(4)
      by (auto simp: buf_ok_def checked_def buf_read_def buf_write_def buf_cells_def buf_wcells_def)
  next
    case False
    have b': "m_front b' = m_front b" "m_back b' = m_back b @ [s]" "m_readAvailable b' = m_readAvailable b"
        "m_writeAvailable b' = m_writeAvailable b + Segment_length s"
      using assms(6) False buf_no_write[OF assms(1)] by (auto simp: Buffer_addSegment_def)
    have "apart_list ((m_front b @ m_back b) @ [s])"
      using ok ap unfolding apart_list_append[of "m_front b @ m_back b"]
      by (auto simp: segs_ok_def apart_list_Cons)
    then have "segs_ok h (m_front b') (m_back b')"
      using ok wa(2) assms(3,4) b' by (cases "m_back b") (auto simp: segs_ok_def)
    moreover have "merged (m_segments b) \<longrightarrow> merged (m_segments b @ [s])"
      using ap by (auto intro!: merged_snoc simp del: append_assoc)
    ultimately show ?thesis
      using assms(1,2) b' wa sr False assms(4)
      by (auto simp: buf_ok_def checked_def buf_read_def buf_write_def buf_cells_def buf_wcells_def)
  qed
  then show "buf_ok h b'" "checked dbg b'" "buf_read h b' = buf_read h b"
    "buf_write h b' = (if m_readAvailable b = 0 then seg_write h s @ buf_write h b
                           else buf_write h b @ seg_write h s)"
    "buf_cells b' = cells s \<union> buf_cells b" "buf_wcells b' = wcells s \<union> buf_wcells b"
    "m_back b' \<noteq> []"
    by simp_all
qed

lemma Buffer_addSegment_writeAvailable [simp]:
  "m_writeAvailable (Buffer_addSegment s b) = m_writeAvailable b"
  by (simp add: Buffer_addSegment_def)

text \<open>\<open>adopt\<close> of a block that no segment of the buffer lies in.\<close>

lemma Buffer_adopt_ok:
  assumes "buf_ok h b" and "checked dbg b" and "0 < n" and "a < hp_next h"
    and "n \<le> length (hp_mem h a)" and "length (hp_mem h a) < npos"
    and "\<forall>t\<in>set (m_segments b). m_array (m_data t) \<noteq> a"
  obtains b' where "Buffer_adopt dbg a n b = Inr b'" and "buf_ok h b'" and "checked dbg b'"
    and "buf_read h b' = buf_read h b"
    and "buf_write h b' = (if m_readAvailable b = 0 then mem_read h a 0 n @ buf_write h b
                           else buf_write h b @ mem_read h a 0 n)"
    and "buf_cells b' = {a} \<times> {..<n} \<union> buf_cells b"
    and "buf_wcells b' = {a} \<times> {..<n} \<union> buf_wcells b"
proof -
  let ?s = "Segment_adopt a n"
  let ?b = "(Buffer_addSegment ?s b)\<lparr>m_writeAvailable := m_writeAvailable b + Segment_length ?s\<rparr>"
  have s: "seg_ok h ?s" "Segment_readAvailable ?s = 0" "m_array (m_data ?s) = a" "Segment_length ?s = n"
    "seg_write h ?s = mem_read h a 0 n" "cells ?s = {a} \<times> {..<n}" "wcells ?s = {a} \<times> {..<n}"
    using assms by (auto simp: Segment_adopt_def SegmentData_adopt_def seg_ok_def segment_defs
        seg_write_def cells_def wcells_def)
  have "\<forall>t\<in>set (m_segments b). m_array (m_data t) \<noteq> m_array (m_data ?s)"
    using assms(7) s(3) by simp
  note add = Buffer_addSegment_ok[OF assms(1,2) s(1,2) this refl]
  have "Buffer_adopt dbg a n b = Inr ?b"
    using self_check_checked[OF add(1,2)] s(4)
    by (simp add: Buffer_adopt_def Let_def self_check_checked[OF assms(1,2)])
  then show thesis
    using add s by (intro that[of ?b]) (simp_all)
qed

lemma hp_next_not_used: "buf_ok h b \<Longrightarrow> \<forall>t\<in>set (m_segments b). m_array (m_data t) \<noteq> hp_next h"
  unfolding buf_ok_def segs_ok_def seg_ok_def by (metis less_irrefl)

text \<open>
  \<open>reserve\<close> makes at least \<open>n\<close> bytes of space and changes nothing that can be read. The
  bound says that the size it computes fits a \<open>size_t\<close>.
\<close>

lemma Buffer_reserve_ok:
  assumes "buf_ok h b" and "checked dbg b" and "2 * n < npos"
  obtains b' h' where "Buffer_reserve dbg n b h = Inr (b', h')" and "buf_ok h' b'" and "checked dbg b'"
    and "heap_frame {} h h'" and "n \<le> m_writeAvailable b'"
    and "m_readAvailable b' = m_readAvailable b"
    and "buf_read h' b' = buf_read h b"
    and "m_writeAvailable b = 0 \<and> n \<noteq> 0 \<longrightarrow>
           m_back b' \<noteq> [] \<and> Segment_writeAvailable (hd (m_back b')) = m_writeAvailable b'"
    and "buf_cells b' \<subseteq> buf_cells b \<union> fresh_cells h" and "buf_wcells b' \<subseteq> buf_wcells b \<union> fresh_cells h"
proof (cases "m_writeAvailable b < n")
  case False
  then show thesis
    using assms by (intro that[of b h]) (auto simp: Buffer_reserve_def)
next
  case True
  let ?n = "2 * n - m_writeAvailable b"
  have n: "0 < ?n" "?n < npos" "?n mod size_mod = ?n"
    using True assms(3) by (simp_all add: npos_def)
  obtain s h' where new: "Segment_new ?n h = (s, h')" "m_array (m_data s) = hp_next h"
      "m_length (m_data s) = ?n" "m_writeIndex s = 0" "seg_ok h' s" "heap_frame {} h h'"
      "cells s \<subseteq> fresh_cells h"
    by (rule Segment_new_ok[OF n(1,2), of h]) blast
  note fr = buf_frame[OF new(6) assms(1)]
  let ?b = "(Buffer_addSegment s b)\<lparr>m_writeAvailable := m_writeAvailable b + Segment_length s\<rparr>"
  have s: "Segment_readAvailable s = 0" "Segment_length s = ?n" "Segment_writeAvailable s = ?n"
    using new(3,4) by (simp_all add: segment_defs)
  have "\<forall>t\<in>set (m_segments b). m_array (m_data t) \<noteq> m_array (m_data s)"
    using hp_next_not_used[OF assms(1)] new(2) by simp
  note add = Buffer_addSegment_ok[OF fr(1) assms(2) new(5) s(1) this refl]
  have hd: "m_back ?b \<noteq> [] \<and> Segment_writeAvailable (hd (m_back ?b)) = m_writeAvailable ?b"
    if "m_writeAvailable b = 0"
    using that s(2,3) buf_no_write[OF assms(1)] by (auto simp: Buffer_addSegment_def)
  show thesis
  proof (rule that)
    show "Buffer_reserve dbg n b h = Inr (?b, h')"
      using True new(1) n(3) self_check_checked[OF add(1,2)]
      by (simp add: Buffer_reserve_def Let_def)
    show "buf_read h' ?b = buf_read h b" using add(3) fr(2) by simp
    show "n \<le> m_writeAvailable ?b" using True s(2) by simp
    show "m_readAvailable ?b = m_readAvailable b" by (simp add: Buffer_addSegment_def)
    show "buf_cells ?b \<subseteq> buf_cells b \<union> fresh_cells h" "buf_wcells ?b \<subseteq> buf_wcells b \<union> fresh_cells h"
      using add(5,6) new(7) wcells_subset[of s] by auto
  qed (use add(1,2) new(6) hd in auto)
qed

section \<open>compact and clear\<close>

lemma Buffer_compact_ok:
  assumes "buf_ok h b" and "checked dbg b"
  obtains b' where "Buffer_compact dbg b = Inr b'" and "buf_ok h b'" and "checked dbg b'"
    and "buf_read h b' = buf_read h b" and "m_writeAvailable b' = 0"
    and "m_readAvailable b' = m_readAvailable b"
    and "buf_cells b' \<subseteq> buf_cells b" and "buf_wcells b' \<subseteq> buf_wcells b"
proof (cases "m_back b")
  case Nil
  then have "m_writeAvailable b = 0" using buf_no_write[OF assms(1)] by simp
  then show thesis
    using assms Nil by (intro that[of b])
      (auto simp: Buffer_compact_def Let_def self_check_checked[OF assms])
next
  case (Cons s rest)
  have ok: "segs_ok h (m_front b) (s # rest)" using assms(1) Cons by (simp add: buf_ok_def)
  then have s: "seg_ok h s" by (simp add: segs_ok_def)
  have rest: "segs_read h rest = []" using segs_ok_tl_read[OF ok] by simp
  let ?r = "if Segment_readAvailable s > 0 then [Segment_of (Segment_readBuffer s)] else []"
  let ?b = "b\<lparr>m_front := m_front b @ ?r, m_back := [], m_writeAvailable := 0\<rparr>"
  have r: "\<forall>t\<in>set ?r. seg_ok h t \<and> Segment_writeAvailable t = 0" "segs_read h ?r = seg_read h s"
    "segs_cells ?r \<subseteq> cells s" "segs_wcells ?r = {}"
    using Segment_of_readBuffer_ok[OF s] seg_read_empty[of s h]
    by (auto simp: segment_defs)
  have full: "\<forall>t\<in>set (m_front b @ ?r). seg_ok h t \<and> Segment_writeAvailable t = 0"
    using ok r(1) by (auto simp: segs_ok_def)
  then have ok': "segs_ok h (m_front ?b) (m_back ?b)"
    using apart_list_full[of "m_front b @ ?r"] by (simp add: segs_ok_def)
  have rd: "buf_read h ?b = buf_read h b" using r(2) rest Cons by (simp add: buf_read_def)
  have wr: "buf_write h ?b = []" using segs_ok_front_write[OF ok'] by (simp add: buf_write_def)
  have "merged (m_segments b) \<longrightarrow> merged (m_segments ?b)"
    using Cons by (auto simp: merged_append merged_Cons adjoins_def segment_defs)
  then have ch: "checked dbg ?b" using assms(2) by (simp add: checked_def)
  have "Buffer_compact dbg b = Inr ?b"
    using Cons by (simp add: Buffer_compact_def Let_def self_check_checked[OF assms])
  moreover have "buf_ok h ?b"
    using rd wr length_buf_read[OF assms(1)] by (intro buf_okI[OF ok']) simp_all
  ultimately show thesis
    using ch rd r(3,4) Cons by (intro that[of ?b]) (auto simp: buf_cells_def buf_wcells_def)
qed

lemma Buffer_empty_ok [simp]:
  "buf_ok h Buffer_empty" "checked dbg Buffer_empty" "buf_read h Buffer_empty = []"
  "buf_write h Buffer_empty = []" "buf_cells Buffer_empty = {}" "buf_wcells Buffer_empty = {}"
  "m_readAvailable Buffer_empty = 0"
  by (simp_all add: Buffer_empty_def buf_ok_def segs_ok_def checked_def buf_read_def buf_write_def
      buf_cells_def buf_wcells_def)

text \<open>\<open>clear\<close> leaves nothing to read; with \<open>false\<close> it keeps the writable space.\<close>

lemma Buffer_clear_ok:
  assumes "buf_ok h b" and "checked dbg b"
  obtains b' where "Buffer_clear dbg flag b = Inr b'" and "buf_ok h b'" and "checked dbg b'"
    and "buf_read h b' = []" and "buf_write h b' = (if flag then [] else buf_write h b)"
    and "buf_cells b' \<subseteq> buf_cells b" and "buf_wcells b' \<subseteq> buf_wcells b"
proof (cases flag)
  case True
  then show thesis
    using self_check_checked[of h Buffer_empty dbg]
    by (intro that[of Buffer_empty])
      (simp_all add: Buffer_clear_def self_check_checked[OF assms])
next
  case False
  have ok: "segs_ok h (m_front b) (m_back b)" using assms(1) by (simp add: buf_ok_def)
  obtain bk where bk: "(case m_back b of [] \<Rightarrow> Inr []
       | s # rest \<Rightarrow> if Segment_readAvailable s \<noteq> 0
           then andThen (Segment_consume (Segment_readAvailable s) s) (\<lambda>s'. Inr (s' # rest))
           else Inr (s # rest)) = Inr bk"
      "segs_ok h [] bk" "\<forall>s\<in>set bk. Segment_readAvailable s = 0" "merged (m_back b) \<longrightarrow> merged bk"
      "segs_write h bk = segs_write h (m_back b)" "segs_cells bk \<subseteq> segs_cells (m_back b)"
      "segs_wcells bk \<subseteq> segs_wcells (m_back b)"
    using that
  proof (cases "m_back b = [] \<or> Segment_readAvailable (hd (m_back b)) = 0")
    case True
    then show ?thesis
      using ok by (intro that[of "m_back b"])
        (cases "m_back b"; auto simp: segs_ok_def apart_list_append apart_list_Cons)+
  next
    case False
    then obtain s rest where b: "m_back b = s # rest" and ra: "Segment_readAvailable s \<noteq> 0"
      by (cases "m_back b") auto
    have s: "seg_ok h s" "Segment_writeAvailable s \<noteq> 0" "segs_ok h [] (s # rest)"
      using ok b by (auto simp: segs_ok_def apart_list_append)
    obtain s' where s': "Segment_consume (Segment_readAvailable s) s = Inr s'"
        "m_writeIndex s' = m_writeIndex s - Segment_readAvailable s"
        "m_array (m_data s') = m_array (m_data s)"
        "m_start (m_data s') = m_start (m_data s) + Segment_readAvailable s"
        "m_length (m_data s') = m_length (m_data s) - Segment_readAvailable s"
        "seg_write h s' = seg_write h s" "cells s' \<subseteq> cells s" "wcells s' = wcells s"
      by (rule Segment_consume_ok[OF s(1) order_refl]) (rule that; assumption)
    have ra': "Segment_readAvailable s' = 0" "Segment_writeAvailable s' \<noteq> 0" "seg_ok h s'"
      using s s'(2-5) by (auto simp: segment_defs seg_ok_def)
    have "segs_ok h [] (s' # rest)"
      using s'(7,8) by (intro segs_ok_replace[OF s(3) ra'(3) _ ra'(2)]) (simp add: shrinks_def)
    moreover have "merged (s # rest) \<longrightarrow> merged (s' # rest)"
      using s'(3-5) s(1) by (auto simp: merged_Cons adjoins_def segment_defs seg_ok_def)
    ultimately show ?thesis
      using b ra s'(1,6-8) ra'(1) s(3) by (intro that[of "s' # rest"]) (auto simp: segs_ok_def)
  qed
  let ?b = "b\<lparr>m_readAvailable := 0, m_front := [], m_back := bk\<rparr>"
  have rd: "buf_read h ?b = []" "buf_write h ?b = buf_write h b"
    using bk(3,5) segs_ok_front_write[OF ok] by (simp_all add: buf_read_def buf_write_def segs_read_empty)
  have ok': "buf_ok h ?b"
    using rd length_buf_write[OF assms(1)] bk(2) by (intro buf_okI) simp_all
  have ch: "checked dbg ?b" using assms(2) bk(4) by (auto simp: checked_def merged_append)
  show thesis
  proof (rule that)
    show "Buffer_clear dbg flag b = Inr ?b"
      using False bk(1) by (simp add: Buffer_clear_def self_check_checked[OF assms] self_check_checked[OF ok' ch])
    show "buf_cells ?b \<subseteq> buf_cells b" "buf_wcells ?b \<subseteq> buf_wcells b"
      using bk(6,7) by (auto simp: buf_cells_def buf_wcells_def)
  qed (use ok' ch rd False in simp_all)
qed

end
