(* ===== verification/Buffer_Copy.thy ===== *)
theory Buffer_Copy
  imports Buffer_Moves
begin

text \<open>
  Correctness of the operations that copy bytes or hand out pieces of the memory of a buffer:
  \<open>copyOut\<close>, \<open>copyIn\<close> of bytes and of another buffer, the \<open>iovec\<close> lists of \<open>readBuffers\<close> and
  \<open>writeBuffers\<close>, and the contiguous slices of \<open>readBuffer\<close> and \<open>writeBuffer\<close>. Writing is
  described by the cells that may change, so that buffers which share arrays keep what they hold.
\<close>

section \<open>copyOut\<close>

text \<open>The bytes of a slice.\<close>

definition slice_bytes :: "heap \<Rightarrow> segment_data \<Rightarrow> byte list" where
  "slice_bytes h d = mem_read h (m_array d) (m_start d) (m_length d)"

lemma mem_read_add: "mem_read h a p (m + n) = mem_read h a p m @ mem_read h a (p + m) n"
  unfolding mem_read_def take_add by (simp add: add.commute)

lemma mem_read_seg:
  assumes "p + n \<le> Segment_readAvailable s"
  shows "mem_read h (m_array (m_data s)) (m_start (m_data s) + p) n = take n (drop p (seg_read h s))"
  using assms by (simp add: mem_read_def seg_read_def segment_defs drop_take min_def add.commute)

lemma skip_to_ok:
  assumes "\<forall>s\<in>set ss. seg_ok h s" and "pos < segs_ra ss"
  shows "\<exists>pre p s rest. ss = pre @ s # rest \<and> skip_to pos ss = (p, s # rest) \<and>
     pos = segs_ra pre + p \<and> p \<le> Segment_readAvailable s \<and> (p = 0 \<or> p < Segment_readAvailable s) \<and>
     segs_read h ss = segs_read h pre @ segs_read h (s # rest) \<and> length (segs_read h pre) = segs_ra pre"
  using assms
proof (induction ss arbitrary: pos)
  case (Cons s ss)
  show ?case
  proof (cases "pos \<noteq> 0 \<and> \<not> pos < Segment_readAvailable s")
    case True
    then have "pos - Segment_readAvailable s < segs_ra ss" using Cons.prems(2) by auto
    moreover have "\<forall>s\<in>set ss. seg_ok h s" using Cons.prems(1) by simp
    ultimately obtain pre p t rest where IH: "ss = pre @ t # rest"
        "skip_to (pos - Segment_readAvailable s) ss = (p, t # rest)"
        "pos - Segment_readAvailable s = segs_ra pre + p" "p \<le> Segment_readAvailable t"
        "p = 0 \<or> p < Segment_readAvailable t" "length (segs_read h pre) = segs_ra pre"
      using Cons.IH[of "pos - Segment_readAvailable s"] by blast
    show ?thesis
      using True IH Cons.prems(1)
      by - (rule exI[of _ "s # pre"], rule exI[of _ p], rule exI[of _ t], rule exI[of _ rest],
          auto simp: length_seg_read)
  next
    case False
    then show ?thesis
      by - (rule exI[of _ "[]"], rule exI[of _ pos], rule exI[of _ s], rule exI[of _ ss], auto)
  qed
qed simp

lemma copyOut_loop_ok:
  assumes "\<forall>s\<in>set ss. seg_ok h s" and "ss = [] \<or> pos \<le> Segment_readAvailable (hd ss)"
    and "len + pos \<le> segs_ra ss" and "ss \<noteq> [] \<or> pos = 0"
  shows "copyOut_loop h len pos ss = Inr (take len (drop pos (segs_read h ss)))"
  using assms
proof (induction ss arbitrary: len pos)
  case (Cons s ss)
  let ?todo = "min len (Segment_readAvailable s - pos)"
  have s: "length (seg_read h s) = Segment_readAvailable s" using Cons.prems(1) by (simp add: length_seg_read)
  have piece: "mem_read h (m_array (m_data s)) (m_start (m_data s) + pos) ?todo
      = take ?todo (drop pos (seg_read h s))"
    using Cons.prems(2) by (intro mem_read_seg) simp
  have "copyOut_loop h (len - ?todo) 0 ss = Inr (take (len - ?todo) (segs_read h ss))"
    if "len - ?todo \<noteq> 0"
    using Cons.IH[of 0 "len - ?todo"] Cons.prems that by (simp add: min_def split: if_splits)
  then show ?case
    using s Cons.prems(2) piece by (auto simp: Let_def min_def split: if_splits)
qed simp

lemma buf_ok_segs: "buf_ok h b \<Longrightarrow> \<forall>s\<in>set (m_segments b). seg_ok h s"
  by (auto simp: buf_ok_def segs_ok_def)

lemma Buffer_copyOut_ok:
  assumes "buf_ok h b" and "len + pos \<le> m_readAvailable b"
  shows "Buffer_copyOut len pos b h = Inr (take len (drop pos (buf_read h b)))"
proof (cases "len = 0")
  case False
  then have "pos < segs_ra (m_segments b)" using assms unfolding buf_ok_def by linarith
  from skip_to_ok[OF buf_ok_segs[OF assms(1)] this] obtain pre p s rest where
    sk: "m_segments b = pre @ s # rest" "skip_to pos (m_segments b) = (p, s # rest)"
      "pos = segs_ra pre + p" "p \<le> Segment_readAvailable s"
      "segs_read h (m_segments b) = segs_read h pre @ segs_read h (s # rest)"
      "length (segs_read h pre) = segs_ra pre"
    by blast
  have "m_readAvailable b = segs_ra pre + segs_ra (s # rest)"
    using assms(1) unfolding buf_ok_def sk(1) by simp
  then have "copyOut_loop h len p (s # rest) = Inr (take len (drop p (segs_read h (s # rest))))"
    using buf_ok_segs[OF assms(1)] sk(1,3,4) assms(2) by (intro copyOut_loop_ok) auto
  moreover have "drop pos (buf_read h b) = drop p (segs_read h (s # rest))"
    unfolding buf_read_def sk(5) using sk(3,6) by simp
  ultimately show ?thesis
    using False assms(2) sk(2) by (simp add: Buffer_copyOut_def)
qed (simp add: Buffer_copyOut_def)

lemma Buffer_toString_ok: "buf_ok h b \<Longrightarrow> Buffer_toString b h = Inr (buf_read h b)"
  using Buffer_copyOut_ok[of h b "m_readAvailable b" 0] length_buf_read[of h b]
  by (auto simp: Buffer_toString_def)

section \<open>readBuffers\<close>

lemma slice_read_bytes:
  assumes "seg_ok h s" and "n \<le> Segment_readAvailable s"
  obtains d where "SegmentData_slice 0 n (Segment_readBuffer s) = Inr d"
    and "slice_bytes h d = take n (seg_read h s)" and "m_length d = n"
proof -
  have "n \<noteq> npos" using assms by (auto simp: seg_ok_def segment_defs)
  then show thesis
    using assms mem_read_seg[of 0 n s h]
    by (intro that[of "(Segment_readBuffer s)\<lparr>m_length := n\<rparr>"])
      (auto simp: SegmentData_slice_def slice_bytes_def segment_defs)
qed

lemma readBuffers_loop_ok:
  assumes "\<forall>s\<in>set ss. seg_ok h s" and "n \<le> segs_ra ss"
  shows "\<exists>iovs. readBuffers_loop n ss = Inr iovs \<and>
     concat (map (slice_bytes h) iovs) = take n (segs_read h ss)"
  using assms
proof (induction ss arbitrary: n)
  case (Cons s ss)
  let ?t = "min (Segment_readAvailable s) n"
  have s: "length (seg_read h s) = Segment_readAvailable s" using Cons.prems(1) by (simp add: length_seg_read)
  obtain d where d: "SegmentData_slice 0 ?t (Segment_readBuffer s) = Inr d"
      "slice_bytes h d = take ?t (seg_read h s)" "m_length d = ?t"
    by (rule slice_read_bytes[of h s ?t]) (use Cons.prems(1) in auto)
  obtain iovs where "readBuffers_loop (n - ?t) ss = Inr iovs"
      "concat (map (slice_bytes h) iovs) = take (n - ?t) (segs_read h ss)"
    using Cons.IH[of "n - ?t"] Cons.prems by force
  then show ?case
    using d s by (auto simp: Let_def min_def split: if_splits)
qed simp

lemma Buffer_readBuffers_ok:
  assumes "buf_ok h b" and "checked dbg b" and "n \<le> m_readAvailable b" and "n \<noteq> npos"
  obtains iovs where "Buffer_readBuffers dbg n b = Inr iovs"
    and "concat (map (slice_bytes h) iovs) = take n (buf_read h b)"
proof -
  have "n \<le> segs_ra (m_segments b)" using assms(1,3) unfolding buf_ok_def by simp
  from readBuffers_loop_ok[OF buf_ok_segs[OF assms(1)] this] show thesis
    using that assms(3,4)
    by (auto simp: Buffer_readBuffers_def Let_def buf_read_def self_check_checked[OF assms(1,2)])
qed

section \<open>copyIn of bytes\<close>

lemma seg_write_memcpy:
  assumes "seg_ok h s" and "length bs \<le> Segment_writeAvailable s"
  obtains h' where "memcpy (m_array (Segment_writeBuffer s)) (m_start (Segment_writeBuffer s)) bs h = Inr h'"
    and "heap_frame (wcells s) h h'" and "hp_next h' = hp_next h"
    and "seg_write h' s = bs @ drop (length bs) (seg_write h s)"
proof -
  let ?a = "m_array (m_data s)" and ?p = "m_start (m_data s) + m_writeIndex s"
  have le: "?p + length bs \<le> length (hp_mem h ?a)"
    using assms by (auto simp: seg_ok_def segment_defs)
  then obtain h' where h': "memcpy ?a ?p bs h = Inr h'" by (rule memcpy_ok)
  have "{?a} \<times> {?p ..< ?p + length bs} \<subseteq> wcells s"
    using assms by (auto simp: wcells_def segment_defs)
  then have "heap_frame (wcells s) h h'" using memcpy_frame[OF h'] heap_frame_mono by blast
  moreover have "seg_write h' s = bs @ drop (length bs) (seg_write h s)"
    using assms le memcpy_InrD(3)[OF h']
    by (simp add: seg_write_def mem_read_def segment_defs drop_take min_def add.commute)
  ultimately show thesis
    using h' memcpy_InrD(2)[OF h'] by (intro that[of h']) (simp_all add: segment_defs)
qed

text \<open>Writing at the start of the writable space.\<close>

lemma memcpy_write_ok:
  assumes "buf_ok h b" and "m_back b = s # rest" and "length bs \<le> Segment_writeAvailable s"
  obtains h' where
    "memcpy (m_array (Segment_writeBuffer s)) (m_start (Segment_writeBuffer s)) bs h = Inr h'"
    and "buf_ok h' b" and "buf_read h' b = buf_read h b"
    and "buf_write h' b = bs @ drop (length bs) (buf_write h b)"
    and "heap_frame (buf_wcells b) h h'" and "hp_next h' = hp_next h"
    and "length bs \<le> m_writeAvailable b"
proof -
  have ok: "segs_ok h (m_front b) (s # rest)" using assms(1,2) by (simp add: buf_ok_def)
  then have s: "seg_ok h s" by (simp add: segs_ok_def)
  obtain h' where h': "memcpy (m_array (Segment_writeBuffer s)) (m_start (Segment_writeBuffer s)) bs h = Inr h'"
      "heap_frame (wcells s) h h'" "hp_next h' = hp_next h"
      "seg_write h' s = bs @ drop (length bs) (seg_write h s)"
    by (rule seg_write_memcpy[OF s assms(3)])
  have apart: "apart_list (m_front b @ s # rest)" using ok by (simp add: segs_ok_def)
  have "segs_cells (m_front b) \<inter> wcells s = {}" "wcells s \<inter> segs_cells rest = {}"
    using apart by (auto simp: apart_list_append_sets apart_list_Cons seg_apart_def segs_cells_def)
  then have front: "segs_read h' (m_front b) = segs_read h (m_front b)"
      "segs_write h' (m_front b) = segs_write h (m_front b)"
      "segs_read h' rest = segs_read h rest" "segs_write h' rest = segs_write h rest"
    using segs_frame[OF h'(2), of "m_front b"] segs_frame[OF h'(2), of rest] ok
    by (auto simp: segs_ok_def)
  have sr: "seg_read h' s = seg_read h s" by (rule seg_read_frame[OF h'(2) s]) auto
  have ok': "segs_ok h' (m_front b) (m_back b)"
    using ok seg_ok_frame[OF h'(2)] assms(2) by (auto simp: segs_ok_def)
  have len: "length (seg_write h s) = Segment_writeAvailable s" using s by (rule length_seg_write)
  have rd: "buf_read h' b = buf_read h b" "buf_write h' b = bs @ drop (length bs) (buf_write h b)"
    using front sr h'(4) assms(2,3) segs_ok_front_write[OF ok] len
    by (simp_all add: buf_read_def buf_write_def)
  have okb: "buf_ok h' b"
    using assms(1) ok' by (simp add: buf_ok_def)
  have le: "length bs \<le> m_writeAvailable b"
    using assms(1-3) by (simp add: buf_ok_def)
  have sub: "wcells s \<subseteq> buf_wcells b" using assms(2) by (auto simp: buf_wcells_def)
  show thesis
    by (rule that[OF h'(1) okb rd heap_frame_mono[OF h'(2) sub] h'(3) le])
qed

text \<open>Filling the space at \<open>m_writeIt\<close> and producing it, the body of the loop of \<open>copyIn\<close>.\<close>

lemma fill_ok:
  assumes "buf_ok h b" and "m_back b = s # rest" and "length bs \<le> Segment_writeAvailable s"
    and "bs \<noteq> []"
  obtains h' s' b1 where
    "memcpy (m_array (Segment_writeBuffer s)) (m_start (Segment_writeBuffer s)) bs h = Inr h'"
    and "Segment_produce (length bs) s = Inr s'"
    and "b1 = b\<lparr>m_front := (if Segment_writeAvailable s' = 0 then m_front b @ [s'] else m_front b),
                m_back := (if Segment_writeAvailable s' = 0 then rest else s' # rest),
                m_readAvailable := m_readAvailable b + length bs,
                m_writeAvailable := m_writeAvailable b - length bs\<rparr>"
    and "buf_ok h' b1" and "checked dbg b \<longrightarrow> checked dbg b1"
    and "buf_read h' b1 = buf_read h b @ bs"
    and "heap_frame (buf_wcells b) h h'" and "hp_next h' = hp_next h"
    and "buf_cells b1 \<subseteq> buf_cells b" and "buf_wcells b1 \<subseteq> buf_wcells b"
proof -
  have s: "seg_ok h s" using assms(1,2) by (simp add: buf_ok_def segs_ok_def)
  obtain h' where h': "memcpy (m_array (Segment_writeBuffer s)) (m_start (Segment_writeBuffer s)) bs h = Inr h'"
      "buf_ok h' b" "buf_read h' b = buf_read h b" "buf_write h' b = bs @ drop (length bs) (buf_write h b)"
      "heap_frame (buf_wcells b) h h'" "hp_next h' = hp_next h" "length bs \<le> m_writeAvailable b"
    by (rule memcpy_write_ok[OF assms(1-3)])
  obtain s' where s': "Segment_produce (length bs) s = Inr s'" "m_data s' = m_data s"
    by (rule Segment_produce_ok[OF s assms(3)]) blast
  have chk: "checked False b" by (simp add: checked_def)
  obtain b1 where b1: "Buffer_produce False (length bs) b = Inr b1" "buf_ok h' b1"
      "buf_read h' b1 = buf_read h' b @ take (length bs) (buf_write h' b)"
      "buf_cells b1 \<subseteq> buf_cells b" "buf_wcells b1 \<subseteq> buf_wcells b"
    by (rule Buffer_produce_ok[OF h'(2) chk h'(7)])
  have "Segment_writeAvailable s' = Segment_writeAvailable s - length bs"
    using s'(1) by (rule Segment_produce_writeAvailable)
  then have b1': "b1 = b\<lparr>m_front := (if Segment_writeAvailable s' = 0 then m_front b @ [s'] else m_front b),
                m_back := (if Segment_writeAvailable s' = 0 then rest else s' # rest),
                m_readAvailable := m_readAvailable b + length bs,
                m_writeAvailable := m_writeAvailable b - length bs\<rparr>"
    using b1(1) assms(2-4) h'(7) s'(1)
    by (auto simp: Buffer_produce_def produce_loop.simps self_check_def min_def Let_def split: if_splits)
  have "map m_data (m_segments b1) = map m_data (m_segments b)"
    using b1' assms(2) s'(2) by auto
  from merged_map_data[OF this] have "checked dbg b \<longrightarrow> checked dbg b1"
    by (simp add: checked_def)
  then show thesis
    using that[OF h'(1) s'(1) b1' b1(2)] b1(3-5) h'(3-6) by auto
qed

lemma copyInData_loop_ok:
  assumes "buf_ok h b" and "checked dbg b"
  shows "\<exists>bs' b' h'. copyInData_loop dbg bs b h = Inr (bs', b', h') \<and> buf_ok h' b' \<and> checked dbg b' \<and>
     buf_read h' b' @ bs' = buf_read h b @ bs \<and> (bs' = [] \<or> m_back b' = []) \<and>
     length bs' \<le> length bs \<and> m_readAvailable b' + length bs' = m_readAvailable b + length bs \<and>
     heap_frame (buf_wcells b) h h' \<and> hp_next h' = hp_next h \<and>
     buf_cells b' \<subseteq> buf_cells b \<and> buf_wcells b' \<subseteq> buf_wcells b"
  using assms
proof (induction dbg bs b h rule: copyInData_loop.induct)
  case (1 dbg bs b h)
  show ?case
  proof (cases "bs = [] \<or> m_back b = []")
    case True
    then show ?thesis
      using 1(2,3) by (auto simp: copyInData_loop.simps[of dbg bs b h])
  next
    case False
    then obtain s rest where bk: "m_back b = s # rest" by (cases "m_back b") auto
    let ?t = "min (length bs) (Segment_writeAvailable s)"
    have wa: "Segment_writeAvailable s \<noteq> 0" using 1(2) bk by (simp add: buf_ok_def segs_ok_def)
    have t: "length (take ?t bs) \<le> Segment_writeAvailable s" "take ?t bs \<noteq> []" "length (take ?t bs) = ?t"
      using wa False by auto
    obtain h1 s' b1 where f:
      "memcpy (m_array (Segment_writeBuffer s)) (m_start (Segment_writeBuffer s)) (take ?t bs) h = Inr h1"
      "Segment_produce (length (take ?t bs)) s = Inr s'"
      "b1 = b\<lparr>m_front := (if Segment_writeAvailable s' = 0 then m_front b @ [s'] else m_front b),
              m_back := (if Segment_writeAvailable s' = 0 then rest else s' # rest),
              m_readAvailable := m_readAvailable b + length (take ?t bs),
              m_writeAvailable := m_writeAvailable b - length (take ?t bs)\<rparr>"
      "buf_ok h1 b1" "checked dbg b \<longrightarrow> checked dbg b1" "buf_read h1 b1 = buf_read h b @ take ?t bs"
      "heap_frame (buf_wcells b) h h1" "hp_next h1 = hp_next h"
      "buf_cells b1 \<subseteq> buf_cells b" "buf_wcells b1 \<subseteq> buf_wcells b"
      by (rule fill_ok[OF 1(2) bk t(1,2), of dbg])
    have ch: "checked dbg b1" using f(5) 1(3) by simp
    then have inv: "\<not> (dbg \<and> \<not> Buffer_invariant b1)"
      using buf_ok_invariant[OF f(4)] by (auto simp: checked_def merged_weakly)
    have step: "copyInData_loop dbg bs b h = copyInData_loop dbg (drop ?t bs) b1 h1"
      using f(1,2) False bk inv t(3) unfolding f(3)
      by (subst copyInData_loop.simps) (auto simp: Let_def)
    have "\<exists>bs' b' h'. copyInData_loop dbg (drop ?t bs) b1 h1 = Inr (bs', b', h') \<and> buf_ok h' b' \<and>
       checked dbg b' \<and> buf_read h' b' @ bs' = buf_read h1 b1 @ drop ?t bs \<and> (bs' = [] \<or> m_back b' = []) \<and>
       length bs' \<le> length (drop ?t bs) \<and>
       m_readAvailable b' + length bs' = m_readAvailable b1 + length (drop ?t bs) \<and>
       heap_frame (buf_wcells b1) h1 h' \<and> hp_next h' = hp_next h1 \<and>
       buf_cells b' \<subseteq> buf_cells b1 \<and> buf_wcells b' \<subseteq> buf_wcells b1"
      using 1(1)[OF _ bk refl refl f(1) _ _ inv f(4) ch] False f(2,3) t(3) by simp
    then obtain bs' b' h' where IH: "copyInData_loop dbg (drop ?t bs) b1 h1 = Inr (bs', b', h')"
       "buf_ok h' b'" "checked dbg b'" "buf_read h' b' @ bs' = buf_read h1 b1 @ drop ?t bs"
       "bs' = [] \<or> m_back b' = []" "length bs' \<le> length (drop ?t bs)"
       "m_readAvailable b' + length bs' = m_readAvailable b1 + length (drop ?t bs)"
       "heap_frame (buf_wcells b1) h1 h'" "hp_next h' = hp_next h1"
       "buf_cells b' \<subseteq> buf_cells b1" "buf_wcells b' \<subseteq> buf_wcells b1"
      by blast
    have fr: "heap_frame (buf_wcells b) h h'"
      using f(10) by (intro heap_frame_trans[OF f(7) IH(8)]) auto
    have ra: "m_readAvailable b' + length bs' = m_readAvailable b + length bs"
      using IH(7) f(3) t(3) by simp
    have "buf_read h' b' @ bs' = buf_read h b @ bs" using IH(4) f(6) by simp
    then show ?thesis
      using step IH(1-3,5,6,9-11) fr ra f(8-10)
      by - (rule exI[of _ bs'], rule exI[of _ b'], rule exI[of _ h'], auto)
  qed
qed

text \<open>A full segment added before \<open>m_writeIt\<close>.\<close>

lemma segs_ok_add_full:
  assumes "segs_ok h front back" and "seg_ok h s" and "Segment_writeAvailable s = 0"
    and "cells s \<inter> segs_wcells back = {}"
  shows "segs_ok h (front @ [s]) back"
proof -
  have "seg_apart x s" if "x \<in> set front" for x
    using assms(1,3) that by (auto simp: segs_ok_def seg_apart_def wcells_full)
  moreover have "seg_apart s x" if "x \<in> set back" for x
    using assms(3,4) that by (auto simp: seg_apart_def wcells_full segs_wcells_def)
  ultimately have "apart_list (front @ s # back)"
    using assms(1) by (auto simp: segs_ok_def apart_list_append apart_list_Cons)
  then show ?thesis using assms by (auto simp: segs_ok_def)
qed

lemma buf_cells_not_fresh: "buf_ok h b \<Longrightarrow> buf_cells b \<inter> fresh_cells h = {}"
  using seg_ok_not_fresh by (fastforce simp: buf_cells_def segs_cells_def buf_ok_def segs_ok_def)

lemma buf_wcells_subset: "buf_wcells b \<subseteq> buf_cells b"
  by (simp add: buf_wcells_def buf_cells_def segs_wcells_subset del: segs_simps)

lemma Buffer_copyInData_ok:
  assumes "buf_ok h b" and "checked dbg b" and "length bs < npos"
  obtains b' h' where "Buffer_copyInData dbg bs b h = Inr (b', h')" and "buf_ok h' b'"
    and "checked dbg b'" and "buf_read h' b' = buf_read h b @ bs"
    and "heap_frame (buf_wcells b) h h'"
    and "buf_cells b' \<subseteq> buf_cells b \<union> fresh_cells h" and "buf_wcells b' \<subseteq> buf_wcells b"
proof -
  from copyInData_loop_ok[OF assms(1,2), of bs] obtain bs' b1 h1 where
    loop: "copyInData_loop dbg bs b h = Inr (bs', b1, h1)" "buf_ok h1 b1" "checked dbg b1"
      "buf_read h1 b1 @ bs' = buf_read h b @ bs" "bs' = [] \<or> m_back b1 = []" "length bs' \<le> length bs"
      "heap_frame (buf_wcells b) h h1" "hp_next h1 = hp_next h"
      "buf_cells b1 \<subseteq> buf_cells b" "buf_wcells b1 \<subseteq> buf_wcells b"
    by blast
  show thesis
  proof (cases "bs' = []")
    case True
    then show thesis
      using loop that[of b1 h1] by (auto simp: Buffer_copyInData_def self_check_checked[OF assms(1,2)])
  next
    case False
    then have bk: "m_back b1 = []" using loop(5) by simp
    have n: "0 < length bs'" "length bs' < npos" using False loop(6) assms(3) by auto
    obtain s h2 where new: "Segment_new (length bs') h1 = (s, h2)" "m_array (m_data s) = hp_next h1"
        "m_length (m_data s) = length bs'" "m_writeIndex s = 0" "seg_ok h2 s" "seg_read h2 s = []"
        "heap_frame {} h1 h2" "cells s \<subseteq> fresh_cells h1"
      by (rule Segment_new_ok[OF n, of h1]) blast
    have wa: "length bs' \<le> Segment_writeAvailable s" using new(3,4) by (simp add: segment_defs)
    obtain h3 where h3: "memcpy (m_array (Segment_writeBuffer s)) (m_start (Segment_writeBuffer s)) bs' h2 = Inr h3"
        "heap_frame (wcells s) h2 h3" "seg_write h3 s = bs' @ drop (length bs') (seg_write h2 s)"
      by (rule seg_write_memcpy[OF new(5) wa])
    have s3: "seg_ok h3 s" "seg_read h3 s = []"
      using seg_ok_frame[OF h3(2) new(5)] new(6) seg_read_frame[OF h3(2) new(5)] by auto
    obtain s' where s': "Segment_produce (length bs') s = Inr s'" "m_data s' = m_data s"
        "m_writeIndex s' = m_writeIndex s + length bs'" "seg_ok h3 s'"
        "seg_read h3 s' = seg_read h3 s @ take (length bs') (seg_write h3 s)" "cells s' = cells s"
      by (rule Segment_produce_ok[OF s3(1) wa]) blast
    have full: "Segment_writeAvailable s' = 0" using s'(2,3) new(3,4) by (simp add: segment_defs)
    have fr3: "heap_frame {} h1 h3"
      using new(8) wcells_subset[of s] by (intro heap_frame_trans[OF new(7) h3(2)]) auto
    note b1 = buf_frame[OF fr3 loop(2)]
    let ?b = "b1\<lparr>m_front := m_front b1 @ [s'], m_readAvailable := m_readAvailable b1 + length bs'\<rparr>"
    have ok': "segs_ok h3 (m_front b1 @ [s']) []"
      using b1(1) bk by (intro segs_ok_add_full[OF _ s'(4) full]) (simp_all add: buf_ok_def)
    have rd: "buf_read h3 ?b = buf_read h b @ bs"
      using b1(2) s'(5) h3(3) s3(2) loop(4) bk by (simp add: buf_read_def)
    have okb: "buf_ok h3 ?b"
      using b1(1) ok' bk full length_seg_read[OF s'(4)] s'(5) h3(3) s3(2) by (simp add: buf_ok_def)
    have "merged (m_front b1) \<longrightarrow> merged (m_front b1 @ [s'])"
      using hp_next_not_used[OF loop(2)] new(2) s'(2) bk by (auto intro!: merged_snoc simp: adjoins_def)
    then have ch: "checked dbg ?b" using loop(3) bk by (simp add: checked_def)
    have frsub: "fresh_cells h1 = fresh_cells h" using loop(8) by (simp add: fresh_cells_def)
    have fr: "heap_frame (buf_wcells b) h h3" by (rule heap_frame_trans[OF loop(7) fr3]) simp
    have cs: "buf_cells ?b \<subseteq> buf_cells b \<union> fresh_cells h" "buf_wcells ?b \<subseteq> buf_wcells b"
      using loop(9,10) s'(6) new(8) frsub bk wcells_full[OF full]
      by (auto simp: buf_cells_def buf_wcells_def)
    have "Buffer_copyInData dbg bs b h = Inr (?b, h3)"
      using loop(1) False new(1) h3(1) s'(1) bk
      by (simp add: Buffer_copyInData_def self_check_checked[OF assms(1,2)] Let_def)
    from that[OF this okb ch rd fr cs] show thesis .
  qed
qed

section \<open>copyIn of another buffer\<close>

text \<open>The cells of the segments that hold readable bytes.\<close>

definition segs_rcells :: "segment list \<Rightarrow> (array_id \<times> nat) set" where
  "segs_rcells ss = (\<Union>s\<in>set ss. cells s - wcells s)"

text \<open>
  Once a segment has nothing to read, neither have the ones after it: what keeps \<open>copyIn\<close>
  from inserting empty segments.
\<close>

fun dense :: "segment list \<Rightarrow> bool" where
  "dense [] = True"
| "dense (s # ss) = ((Segment_readAvailable s = 0 \<longrightarrow> segs_ra ss = 0) \<and> dense ss)"

lemma dense_empty: "\<forall>s\<in>set ss. Segment_readAvailable s = 0 \<Longrightarrow> dense ss"
  by (induction ss) (auto simp: sum_list_eq_0_all)

lemma segs_ok_dense: "segs_ok h front back \<Longrightarrow> dense (front @ back)"
proof (induction front)
  case Nil
  then show ?case
    by (cases "back") (auto simp: segs_ok_def dense_empty sum_list_eq_0_all)
next
  case (Cons s front)
  then have "Segment_readAvailable s \<noteq> 0" using ra_plus_wa[of h s] by (auto simp: segs_ok_def)
  then show ?case using Cons segs_ok_tl by auto
qed

lemma dense_append: "dense (ss @ ts) \<Longrightarrow> dense ts"
  by (induction ss) auto

lemma segs_ok_snocD:
  assumes "segs_ok h (fs @ [p]) bk"
  shows "segs_ok h fs bk" and "seg_ok h p" and "Segment_writeAvailable p = 0"
    and "cells p \<inter> segs_wcells bk = {}"
  using assms
  by (auto simp: segs_ok_def apart_list_append apart_list_Cons seg_apart_def segs_wcells_def)

text \<open>Extending a full segment by bytes that follow it in its array.\<close>

lemma Segment_extend_ok:
  assumes "seg_ok h p" and "Segment_writeAvailable p = 0" and "seg_ok h s"
    and "pos + n \<le> Segment_readAvailable s"
    and "adjoins (Segment_readBuffer p) ((Segment_readBuffer s)\<lparr>m_start := m_start (Segment_readBuffer s) + pos\<rparr>)"
  shows "seg_ok h (Segment_extend n p)" and "Segment_writeAvailable (Segment_extend n p) = 0"
    and "seg_read h (Segment_extend n p) = seg_read h p @ take n (drop pos (seg_read h s))"
    and "cells (Segment_extend n p) \<subseteq> cells p \<union> (cells s - wcells s)"
proof -
  have a: "m_array (m_data p) = m_array (m_data s)"
      "m_start (m_data p) + m_writeIndex p = m_start (m_data s) + pos"
      "m_length (m_data p) = m_writeIndex p"
    using assms(1,2,5) by (auto simp: adjoins_def segment_defs seg_ok_def)
  show "seg_ok h (Segment_extend n p)" "Segment_writeAvailable (Segment_extend n p) = 0"
    using assms(1,3,4) a by (auto simp: seg_ok_def segment_defs)
  show "cells (Segment_extend n p) \<subseteq> cells p \<union> (cells s - wcells s)"
    using assms(1,3,4) a by (auto simp: cells_def wcells_def segment_defs seg_ok_def)
  have "take n (drop pos (seg_read h s)) = mem_read h (m_array (m_data p)) (m_start (m_data p) + m_writeIndex p) n"
    using mem_read_seg[OF assms(4), of h] a by simp
  then show "seg_read h (Segment_extend n p) = seg_read h p @ take n (drop pos (seg_read h s))"
    by (simp add: seg_read_def segment_defs mem_read_add)
qed

lemma copyIn_piece_ok:
  assumes "segs_ok h front bk" and "seg_ok h s" and "pos + n \<le> Segment_readAvailable s" and "0 < n"
    and "(cells s - wcells s) \<inter> segs_wcells bk = {}"
  obtains d where "SegmentData_slice pos n (Segment_readBuffer s) = Inr d"
    and "segs_ok h (front @ [Segment_of d]) bk"
    and "seg_read h (Segment_of d) = take n (drop pos (seg_read h s))"
    and "cells (Segment_of d) \<subseteq> cells s - wcells s" and "Segment_readAvailable (Segment_of d) = n"
proof -
  obtain d where d: "SegmentData_slice pos n (Segment_readBuffer s) = Inr d" "m_length d = n"
      "seg_ok h (Segment_of d)" "seg_read h (Segment_of d) = take n (drop pos (seg_read h s))"
      "cells (Segment_of d) \<subseteq> cells s - wcells s"
    by (rule slice_read_ok[OF assms(2-4)]) blast
  have "segs_ok h (front @ [Segment_of d]) bk"
    using d(5) assms(5) by (intro segs_ok_add_full[OF assms(1) d(3)]) (auto simp: segment_defs)
  then show thesis using d by (intro that[of d]) (simp_all add: segment_defs)
qed

text \<open>
  The step of the loop: it puts the next piece of the source in front of \<open>m_writeIt\<close>, as a
  segment of its own or as an extension of the last one.
\<close>

definition copyIn_step :: "bool \<Rightarrow> nat \<Rightarrow> nat \<Rightarrow> segment \<Rightarrow> segment list \<Rightarrow> nat \<Rightarrow> (segment list) result" where
  "copyIn_step first pos n s front ra =
     (let insertNew = andThen (SegmentData_slice pos n (Segment_readBuffer s)) (\<lambda>d. Inr (front @ [Segment_of d]))
      in if ra \<noteq> 0 \<and> first then
           (if front = [] then Inl UB
            else if adjoins (Segment_readBuffer (last front))
                      ((Segment_readBuffer s)\<lparr>m_start := m_start (Segment_readBuffer s) + pos\<rparr>)
            then ensure (Segment_writeAvailable (last front) = 0)
                   (Inr (butlast front @ [Segment_extend n (last front)]))
            else insertNew)
         else insertNew)"

lemma copyIn_loop_step:
  "copyIn_loop first pos len (s # rest) front ra =
     (let n = min (Segment_readAvailable s - pos) len
      in andThen (copyIn_step first pos n s front ra) (\<lambda>front'.
           if len - n = 0 then Inr (front', ra + n)
           else copyIn_loop False 0 (len - n) rest front' (ra + n)))"
  by (cases "SegmentData_slice pos (min (Segment_readAvailable s - pos) len) (Segment_readBuffer s)")
    (simp_all add: copyIn_step_def Let_def ensure_def)

declare copyIn_loop.simps(2) [simp del]

lemma copyIn_step_ok:
  assumes "segs_ok h front bk" and "seg_ok h s" and "pos + n \<le> Segment_readAvailable s" and "0 < n"
    and "(cells s - wcells s) \<inter> segs_wcells bk = {}" and "ra = segs_ra front"
  obtains front' where "copyIn_step first pos n s front ra = Inr front'" and "segs_ok h front' bk"
    and "segs_read h front' = segs_read h front @ take n (drop pos (seg_read h s))"
    and "segs_ra front' = ra + n"
    and "segs_cells front' \<subseteq> segs_cells front \<union> (cells s - wcells s)"
proof (cases "ra \<noteq> 0 \<and> first \<and> adjoins (Segment_readBuffer (last front))
    ((Segment_readBuffer s)\<lparr>m_start := m_start (Segment_readBuffer s) + pos\<rparr>)")
  case True
  then obtain fs p where front: "front = fs @ [p]"
    using assms(6) by (cases front rule: rev_cases) auto
  note fs = segs_ok_snocD[OF assms(1)[unfolded front]]
  have adj: "adjoins (Segment_readBuffer p)
      ((Segment_readBuffer s)\<lparr>m_start := m_start (Segment_readBuffer s) + pos\<rparr>)"
    using True front by simp
  note p = Segment_extend_ok[OF fs(2,3) assms(2,3) adj]
  have "segs_ok h (fs @ [Segment_extend n p]) bk"
    using p(4) fs(4) assms(5) by (intro segs_ok_add_full[OF fs(1) p(1,2)]) blast
  then show thesis
    using that[of "fs @ [Segment_extend n p]"] True front fs(3) p(3,4) assms(6)
    by (auto simp: copyIn_step_def Let_def segment_defs)
next
  case False
  have ne: "ra \<noteq> 0 \<Longrightarrow> front \<noteq> []" using assms(6) by auto
  obtain d where d: "SegmentData_slice pos n (Segment_readBuffer s) = Inr d"
      "segs_ok h (front @ [Segment_of d]) bk"
      "seg_read h (Segment_of d) = take n (drop pos (seg_read h s))"
      "cells (Segment_of d) \<subseteq> cells s - wcells s" "Segment_readAvailable (Segment_of d) = n"
    by (rule copyIn_piece_ok[OF assms(1-5)])
  have "copyIn_step first pos n s front ra = Inr (front @ [Segment_of d])"
    using False d(1) ne by (auto simp: copyIn_step_def Let_def)
  then show thesis
    by (rule that[OF _ d(2)]) (use d(3-5) assms(6) in auto)
qed

lemma copyIn_loop_ok:
  assumes "segs_ok h front bk" and "\<forall>s\<in>set ss. seg_ok h s" and "dense ss"
    and "segs_rcells ss \<inter> segs_wcells bk = {}" and "ra = segs_ra front"
    and "0 < len" and "len + pos \<le> segs_ra ss" and "pos = 0 \<or> pos < Segment_readAvailable (hd ss)"
  shows "\<exists>front'. copyIn_loop first pos len ss front ra = Inr (front', ra + len) \<and> segs_ok h front' bk \<and>
     segs_read h front' = segs_read h front @ take len (drop pos (segs_read h ss)) \<and>
     segs_cells front' \<subseteq> segs_cells front \<union> segs_rcells ss"
  using assms
proof (induction ss arbitrary: first pos len front ra)
  case (Cons s ss)
  let ?n = "min (Segment_readAvailable s - pos) len"
  have s: "seg_ok h s" "\<forall>s\<in>set ss. seg_ok h s" using Cons.prems(2) by simp_all
  have rc: "segs_rcells (s # ss) = (cells s - wcells s) \<union> segs_rcells ss" by (auto simp: segs_rcells_def)
  have ra_s: "Segment_readAvailable s \<noteq> 0"
  proof
    assume z: "Segment_readAvailable s = 0"
    then have "segs_ra ss = 0" using Cons.prems(3) by simp
    then show False using z Cons.prems(6,7) by (simp del: sum_list_eq_0_iff)
  qed
  have n: "pos + ?n \<le> Segment_readAvailable s" "0 < ?n"
    using ra_s Cons.prems(6,8) by auto
  obtain front1 where st: "copyIn_step first pos ?n s front ra = Inr front1" "segs_ok h front1 bk"
      "segs_read h front1 = segs_read h front @ take ?n (drop pos (seg_read h s))"
      "segs_ra front1 = ra + ?n" "segs_cells front1 \<subseteq> segs_cells front \<union> (cells s - wcells s)"
    by (rule copyIn_step_ok[OF Cons.prems(1) s(1) n _ Cons.prems(5), of first])
      (use Cons.prems(4) rc in blast)+
  have len: "length (seg_read h s) = Segment_readAvailable s" using s(1) by (rule length_seg_read)
  show ?case
  proof (cases "len - ?n = 0")
    case True
    then have "?n = len" by simp
    moreover have "len \<le> Segment_readAvailable s - pos" using True by simp
    ultimately show ?thesis
      using st rc True len by (auto simp: copyIn_loop_step)
  next
    case False
    then have n': "?n = Segment_readAvailable s - pos" "0 < len - ?n" by auto
    have "len - ?n + 0 \<le> segs_ra ss" using Cons.prems(7) n' n(1) by simp
    moreover have "dense ss" "segs_rcells ss \<inter> segs_wcells bk = {}" using Cons.prems(3,4) rc by auto
    ultimately obtain front' where
      IH: "copyIn_loop False 0 (len - ?n) ss front1 (ra + ?n) = Inr (front', ra + ?n + (len - ?n))"
        "segs_ok h front' bk" "segs_read h front' = segs_read h front1 @ take (len - ?n) (segs_read h ss)"
        "segs_cells front' \<subseteq> segs_cells front1 \<union> segs_rcells ss"
      using Cons.IH[OF st(2) s(2) _ _ st(4)[symmetric] n'(2), of 0 False] by auto
    have "copyIn_loop first pos len (s # ss) front ra = Inr (front', ra + len)"
      using st(1) IH(1) False by (simp add: copyIn_loop_step Let_def)
    moreover have "segs_read h front' = segs_read h front @ take len (drop pos (segs_read h (s # ss)))"
      using IH(3) st(3) n' len n(1) by simp
    ultimately show ?thesis
      using IH(2,4) st(5) rc by blast
  qed
qed simp

lemma segs_rcells_apart:
  "apart_list ss \<Longrightarrow> segs_rcells ss \<subseteq> segs_cells ss - segs_wcells ss"
proof (induction ss)
  case (Cons s ss)
  then have "segs_rcells ss \<subseteq> segs_cells ss - segs_wcells ss" "wcells s \<inter> segs_cells ss = {}"
      "cells s \<inter> segs_wcells ss = {}"
    by (auto simp: apart_list_Cons seg_apart_def segs_cells_def segs_wcells_def)
  then show ?case by (auto simp: segs_rcells_def)
qed (simp add: segs_rcells_def)

lemma segs_rcells_mono: "set ss \<subseteq> set ts \<Longrightarrow> segs_rcells ss \<subseteq> segs_rcells ts"
  unfolding segs_rcells_def by blast

text \<open>
  \<open>copyIn\<close> of a part of another buffer appends those bytes. It shares the arrays, so the two
  buffers must be apart: neither can write what the other covers.
\<close>

lemma Buffer_copyIn_ok:
  assumes "buf_ok h b" and "checked dbg b" and "buf_ok h src"
    and "buf_wcells b \<inter> buf_cells src = {}"
    and "n + pos \<le> m_readAvailable src" and "n \<noteq> npos"
  obtains b' where "Buffer_copyIn dbg src n pos b = Inr b'" and "buf_ok h b'"
    and "buf_read h b' = buf_read h b @ take n (drop pos (buf_read h src))"
    and "buf_write h b' = buf_write h b"
    and "buf_cells b' \<subseteq> buf_cells b \<union> (buf_cells src - buf_wcells src)"
    and "buf_wcells b' \<subseteq> buf_wcells b"
proof (cases "n = 0")
  case True
  then show thesis
    using that[of b] assms
    by (auto simp: Buffer_copyIn_def Let_def self_check_checked[OF assms(1,2)])
next
  case False
  obtain b1 where b1: "Buffer_splitMixed b = Inr b1" "buf_ok h b1"
      "\<forall>s\<in>set (m_back b1). Segment_readAvailable s = 0"
      "buf_read h b1 = buf_read h b" "buf_write h b1 = buf_write h b"
      "m_readAvailable b1 = m_readAvailable b" "m_writeAvailable b1 = m_writeAvailable b"
      "merged (m_segments b) \<longrightarrow> weakly_merged (m_front b1) (m_back b1)"
      "buf_cells b1 \<subseteq> buf_cells b" "buf_wcells b1 \<subseteq> buf_wcells b"
    by (rule Buffer_splitMixed_ok[OF assms(1)])
  have chk: "self_check dbg b1 k = k" for k :: "buffer result"
    using b1(8) assms(2) by (intro self_check_ok[OF b1(2)]) (simp add: checked_def)
  have "pos < segs_ra (m_segments src)" using assms(3,5) False unfolding buf_ok_def by linarith
  from skip_to_ok[OF buf_ok_segs[OF assms(3)] this] obtain pre p s rest where
    sk: "m_segments src = pre @ s # rest" "skip_to pos (m_segments src) = (p, s # rest)"
      "pos = segs_ra pre + p" "p \<le> Segment_readAvailable s" "p = 0 \<or> p < Segment_readAvailable s"
      "segs_read h (m_segments src) = segs_read h pre @ segs_read h (s # rest)"
      "length (segs_read h pre) = segs_ra pre"
    by blast
  have src: "segs_ok h (m_front src) (m_back src)" using assms(3) by (simp add: buf_ok_def)
  have "segs_rcells (s # rest) \<subseteq> segs_rcells (m_segments src)"
    unfolding sk(1) by (rule segs_rcells_mono) auto
  also have "\<dots> \<subseteq> buf_cells src - buf_wcells src"
    using segs_rcells_apart[of "m_segments src"] src
    unfolding segs_ok_def buf_cells_def buf_wcells_def by blast
  finally have rc: "segs_rcells (s # rest) \<subseteq> buf_cells src - buf_wcells src" .
  have dn: "dense (s # rest)" using segs_ok_dense[OF src] dense_append unfolding sk(1) by blast
  have oks: "\<forall>s\<in>set (s # rest). seg_ok h s" using buf_ok_segs[OF assms(3)] unfolding sk(1) by simp
  have le: "n + p \<le> segs_ra (s # rest)"
    using assms(3,5) sk(3) unfolding buf_ok_def sk(1) by simp
  have ok1: "segs_ok h (m_front b1) (m_back b1)" and ra1: "m_readAvailable b1 = segs_ra (m_front b1)"
    using b1(2,3) sum_list_eq_0_all[of Segment_readAvailable "m_back b1"] by (simp_all add: buf_ok_def)
  have dis: "segs_rcells (s # rest) \<inter> segs_wcells (m_back b1) = {}"
    using rc assms(4) b1(10) by (auto simp: buf_wcells_def)
  obtain front' where
    loop: "copyIn_loop (length (s # rest) = length (m_segments src)) p n (s # rest) (m_front b1) (m_readAvailable b1)
        = Inr (front', m_readAvailable b1 + n)" "segs_ok h front' (m_back b1)"
      "segs_read h front' = segs_read h (m_front b1) @ take n (drop p (segs_read h (s # rest)))"
      "segs_cells front' \<subseteq> segs_cells (m_front b1) \<union> segs_rcells (s # rest)"
    using copyIn_loop_ok[OF ok1 oks dn dis ra1 _ le] sk(5) False by auto
  let ?b = "b1\<lparr>m_front := front', m_readAvailable := m_readAvailable b1 + n\<rparr>"
  have eq: "Buffer_copyIn dbg src n pos b = Inr ?b"
    using assms(5,6) False b1(1) sk(2) loop(1)
    by (simp add: Buffer_copyIn_def Let_def self_check_checked[OF assms(1,2)] chk)
  have bk: "segs_read h (m_back b1) = []" using b1(3) by (rule segs_read_empty)
  have drp: "drop pos (buf_read h src) = drop p (segs_read h (s # rest))"
    unfolding buf_read_def sk(6) using sk(3,7) by simp
  have rd: "buf_read h ?b = buf_read h b @ take n (drop pos (buf_read h src))"
    unfolding drp using loop(3) bk b1(4) by (simp add: buf_read_def)
  have wr: "buf_write h ?b = buf_write h b"
    using segs_ok_front_write[OF loop(2)] segs_ok_front_write[OF ok1] b1(5) by (simp add: buf_write_def)
  have okb: "buf_ok h ?b"
  proof (rule buf_okI)
    show "segs_ok h (m_front ?b) (m_back ?b)" using loop(2) by simp
    show "length (buf_read h ?b) = m_readAvailable ?b"
      using rd length_buf_read[OF assms(1)] length_buf_read[OF assms(3)] assms(5) b1(6) by simp
    show "length (buf_write h ?b) = m_writeAvailable ?b"
      using wr length_buf_write[OF assms(1)] b1(7) by simp
  qed
  have "segs_wcells front' = {}" using loop(2) by (auto simp: segs_ok_def segs_wcells_def wcells_full)
  then have "buf_cells ?b \<subseteq> buf_cells b \<union> (buf_cells src - buf_wcells src)" "buf_wcells ?b \<subseteq> buf_wcells b"
    using loop(4) rc b1(9,10) by (auto simp: buf_cells_def buf_wcells_def)
  from that[OF eq okb rd wr this] show thesis .
qed

end
