(* ===== verification/Buffer_Slices.thy ===== *)
theory Buffer_Slices
  imports Buffer_Copy
begin

text \<open>
  Correctness of the operations that hand out slices of a buffer's memory, contiguous ones
  (\<open>readBuffer\<close>, \<open>writeBuffer\<close>) and lists (\<open>writeBuffers\<close>), and of construction, copying and
  assignment of whole buffers.
\<close>

section \<open>writeBuffers and writeBuffer\<close>

text \<open>The cells of a slice.\<close>

definition slice_cells :: "segment_data \<Rightarrow> (array_id \<times> nat) set" where
  "slice_cells d = {m_array d} \<times> {m_start d ..< m_start d + m_length d}"

lemma slice_write_ok:
  assumes "seg_ok h s" and "n \<le> Segment_writeAvailable s"
  obtains d where "SegmentData_slice 0 n (Segment_writeBuffer s) = Inr d" and "m_length d = n"
    and "slice_bytes h d = take n (seg_write h s)" and "slice_cells d \<subseteq> wcells s"
proof -
  have "n \<noteq> npos" using assms by (auto simp: seg_ok_def segment_defs)
  then show thesis
    using assms by (intro that[of "(Segment_writeBuffer s)\<lparr>m_length := n\<rparr>"])
      (auto simp: SegmentData_slice_def slice_bytes_def segment_defs seg_write_def mem_read_def
         slice_cells_def wcells_def)
qed

lemma writeBuffers_loop_ok:
  assumes "\<forall>s\<in>set ss. seg_ok h s" and "n \<le> segs_wa ss"
  shows "\<exists>iovs. writeBuffers_loop n ss = Inr iovs \<and>
     concat (map (slice_bytes h) iovs) = take n (segs_write h ss) \<and>
     sum_list (map m_length iovs) = n \<and> (\<forall>d\<in>set iovs. slice_cells d \<subseteq> segs_wcells ss)"
  using assms
proof (induction ss arbitrary: n)
  case (Cons s ss)
  show ?case
  proof (cases "n = 0")
    case False
    let ?t = "min (Segment_writeAvailable s) n"
    have s: "seg_ok h s" "length (seg_write h s) = Segment_writeAvailable s"
      using Cons.prems(1) by (simp_all add: length_seg_write)
    obtain d where d: "SegmentData_slice 0 ?t (Segment_writeBuffer s) = Inr d" "m_length d = ?t"
        "slice_bytes h d = take ?t (seg_write h s)" "slice_cells d \<subseteq> wcells s"
      by (rule slice_write_ok[of h s ?t]) (use s(1) in auto)
    have "n - ?t \<le> segs_wa ss" using Cons.prems(2) by auto
    then obtain iovs where IH: "writeBuffers_loop (n - ?t) ss = Inr iovs"
        "concat (map (slice_bytes h) iovs) = take (n - ?t) (segs_write h ss)"
        "sum_list (map m_length iovs) = n - ?t" "\<forall>d\<in>set iovs. slice_cells d \<subseteq> segs_wcells ss"
      using Cons.IH[of "n - ?t"] Cons.prems(1) by auto
    have "writeBuffers_loop n (s # ss) = Inr (d # iovs)"
      using False d(1) IH(1) by (simp add: Let_def)
    moreover have "concat (map (slice_bytes h) (d # iovs)) = take n (segs_write h (s # ss))"
      using d(3) IH(2) s(2) by (auto simp: min_def)
    moreover have "sum_list (map m_length (d # iovs)) = n" using d(2) IH(3) by simp
    moreover have "\<forall>e\<in>set (d # iovs). slice_cells e \<subseteq> segs_wcells (s # ss)" using d(4) IH(4) by auto
    ultimately show ?thesis by blast
  qed simp
qed simp

lemma buf_write_back: "buf_ok h b \<Longrightarrow> buf_write h b = segs_write h (m_back b)"
  and buf_wa_back: "buf_ok h b \<Longrightarrow> m_writeAvailable b = segs_wa (m_back b)"
  using segs_ok_front_write[of h "m_front b" "m_back b"] by (auto simp: buf_ok_def buf_write_def)

lemma Buffer_writeBuffers_ok:
  assumes "buf_ok h b" and "checked dbg b" and "2 * n < npos"
  obtains iovs b' h' where "Buffer_writeBuffers dbg n b h = Inr (iovs, b', h')" and "buf_ok h' b'"
    and "checked dbg b'" and "heap_frame {} h h'" and "buf_read h' b' = buf_read h b"
    and "n \<le> m_writeAvailable b'" and "sum_list (map m_length iovs) = n"
    and "concat (map (slice_bytes h') iovs) = take n (buf_write h' b')"
    and "\<forall>d\<in>set iovs. slice_cells d \<subseteq> buf_wcells b'"
    and "buf_cells b' \<subseteq> buf_cells b \<union> fresh_cells h" and "buf_wcells b' \<subseteq> buf_wcells b \<union> fresh_cells h"
proof -
  obtain b' h' where r: "Buffer_reserve dbg n b h = Inr (b', h')" "buf_ok h' b'" "checked dbg b'"
      "heap_frame {} h h'" "n \<le> m_writeAvailable b'" "buf_read h' b' = buf_read h b"
      "buf_cells b' \<subseteq> buf_cells b \<union> fresh_cells h" "buf_wcells b' \<subseteq> buf_wcells b \<union> fresh_cells h"
    by (rule Buffer_reserve_ok[OF assms])
  have "\<forall>s\<in>set (m_back b'). seg_ok h' s" "n \<le> segs_wa (m_back b')"
    using buf_ok_segs[OF r(2)] r(5) buf_wa_back[OF r(2)] by auto
  from writeBuffers_loop_ok[OF this] obtain iovs where
    w: "writeBuffers_loop n (m_back b') = Inr iovs"
      "concat (map (slice_bytes h') iovs) = take n (segs_write h' (m_back b'))"
      "sum_list (map m_length iovs) = n" "\<forall>d\<in>set iovs. slice_cells d \<subseteq> segs_wcells (m_back b')"
    by blast
  have "n \<noteq> npos" using assms(3) by auto
  then have "Buffer_writeBuffers dbg n b h = Inr (iovs, b', h')"
    using r(1) w(1) by (simp add: Buffer_writeBuffers_def self_check_checked[OF r(2,3)])
  then show thesis
    using that[OF _ r(2-4,6,5) w(3)] w(2,4) buf_write_back[OF r(2)] r(7,8) by (auto simp: buf_wcells_def)
qed

lemma hd_slice_write_ok:
  assumes "buf_ok h b" and "m_back b = s # rest" and "n \<le> Segment_writeAvailable s"
  obtains d where "SegmentData_slice 0 n (Segment_writeBuffer s) = Inr d" and "m_length d = n"
    and "slice_bytes h d = take n (buf_write h b)" and "slice_cells d \<subseteq> buf_wcells b"
    and "n \<le> m_writeAvailable b" and "m_array d = m_array (Segment_writeBuffer s)"
    and "m_start d = m_start (Segment_writeBuffer s)"
proof -
  have s: "seg_ok h s" using buf_ok_segs[OF assms(1)] assms(2) by simp
  obtain d where d: "SegmentData_slice 0 n (Segment_writeBuffer s) = Inr d" "m_length d = n"
      "slice_bytes h d = take n (seg_write h s)" "slice_cells d \<subseteq> wcells s"
    by (rule slice_write_ok[OF s assms(3)])
  have "slice_bytes h d = take n (buf_write h b)"
    using d(3) buf_write_back[OF assms(1)] assms(2,3) length_seg_write[OF s] by simp
  moreover have "m_array d = m_array (Segment_writeBuffer s)" "m_start d = m_start (Segment_writeBuffer s)"
    using d(1) by (auto simp: SegmentData_slice_def Let_def split: if_splits)
  ultimately show thesis
    using that d(1,2,4) assms(2,3) buf_wa_back[OF assms(1)] by (auto simp: buf_wcells_def)
qed

text \<open>
  \<open>writeBuffer\<close> with \<open>coalesce\<close>: one slice of \<open>n\<close> bytes at the start of the writable space.
\<close>

lemma Buffer_writeBuffer_ok:
  assumes "buf_ok h b" and "checked dbg b" and "2 * n < npos" and "0 < n"
  obtains d b' h' where "Buffer_writeBuffer dbg n True b h = Inr (Some d, b', h')" and "buf_ok h' b'"
    and "checked dbg b'" and "heap_frame {} h h'" and "buf_read h' b' = buf_read h b"
    and "m_length d = n" and "n \<le> m_writeAvailable b'" and "slice_bytes h' d = take n (buf_write h' b')"
    and "m_back b' \<noteq> []" and "n \<le> Segment_writeAvailable (hd (m_back b'))"
    and "m_array d = m_array (Segment_writeBuffer (hd (m_back b')))"
    and "m_start d = m_start (Segment_writeBuffer (hd (m_back b')))"
    and "buf_cells b' \<subseteq> buf_cells b \<union> fresh_cells h" and "buf_wcells b' \<subseteq> buf_wcells b \<union> fresh_cells h"
proof (cases "m_writeAvailable b \<noteq> 0 \<and> n \<le> Segment_writeAvailable (hd (m_back b))")
  case True
  then obtain s rest where b: "m_back b = s # rest"
    using buf_no_write[OF assms(1)] by (cases "m_back b") auto
  have le: "n \<le> Segment_writeAvailable s" using True b by simp
  obtain d where d: "SegmentData_slice 0 n (Segment_writeBuffer s) = Inr d" "m_length d = n"
     "slice_bytes h d = take n (buf_write h b)" "n \<le> m_writeAvailable b"
     "m_array d = m_array (Segment_writeBuffer s)" "m_start d = m_start (Segment_writeBuffer s)"
    by (rule hd_slice_write_ok[OF assms(1) b le])
  show thesis
    by (rule that[of d b h]) (use True b d assms in \<open>auto simp: Buffer_writeBuffer_def Let_def\<close>)
next
  case False
  obtain b0 where c: "(if m_writeAvailable b = 0 then Inr b else Buffer_compact dbg b) = Inr b0"
      "buf_ok h b0" "checked dbg b0" "buf_read h b0 = buf_read h b" "m_writeAvailable b0 = 0"
      "buf_cells b0 \<subseteq> buf_cells b" "buf_wcells b0 \<subseteq> buf_wcells b"
    by (cases "m_writeAvailable b = 0")
      (use assms in \<open>auto intro: Buffer_compact_ok[OF assms(1,2)]\<close>)
  obtain b' h' where r: "Buffer_reserve dbg n b0 h = Inr (b', h')" "buf_ok h' b'" "checked dbg b'"
      "heap_frame {} h h'" "n \<le> m_writeAvailable b'" "buf_read h' b' = buf_read h b0"
      "m_writeAvailable b0 = 0 \<and> n \<noteq> 0 \<longrightarrow>
         m_back b' \<noteq> [] \<and> Segment_writeAvailable (hd (m_back b')) = m_writeAvailable b'"
      "buf_cells b' \<subseteq> buf_cells b0 \<union> fresh_cells h" "buf_wcells b' \<subseteq> buf_wcells b0 \<union> fresh_cells h"
    by (rule Buffer_reserve_ok[OF c(2,3) assms(3)])
  then obtain s rest where b': "m_back b' = s # rest" and le: "n \<le> Segment_writeAvailable s"
    using c(5) assms(4) by (cases "m_back b'") auto
  obtain d where d: "SegmentData_slice 0 n (Segment_writeBuffer s) = Inr d" "m_length d = n"
     "slice_bytes h' d = take n (buf_write h' b')" "n \<le> m_writeAvailable b'"
     "m_array d = m_array (Segment_writeBuffer s)" "m_start d = m_start (Segment_writeBuffer s)"
    by (rule hd_slice_write_ok[OF r(2) b' le])
  have "m_writeAvailable b \<noteq> 0 \<Longrightarrow> m_back b \<noteq> []" using buf_no_write[OF assms(1)] by simp
  then have eq: "Buffer_writeBuffer dbg n True b h = Inr (Some d, b', h')"
    using False c(1) r(1) b' le d(1) assms(4)
    by (auto simp: Buffer_writeBuffer_def Let_def split: list.splits if_splits)
  have "buf_cells b' \<subseteq> buf_cells b \<union> fresh_cells h" "buf_wcells b' \<subseteq> buf_wcells b \<union> fresh_cells h"
    using r(8,9) c(6,7) by blast+
  then show thesis
    using that[OF eq r(2-4) _ d(2,4,3)] d(5,6) b' le r(6) c(4) by simp
qed

section \<open>readBuffer\<close>

definition iov_bytes :: "heap \<Rightarrow> iovec \<Rightarrow> byte list" where
  "iov_bytes h iov = (case iov of None \<Rightarrow> [] | Some d \<Rightarrow> slice_bytes h d)"

lemma buf_single_ok:
  assumes "seg_ok h s" and "Segment_writeAvailable s = 0"
    and "b' = \<lparr>m_front = [s], m_back = [], m_readAvailable = Segment_readAvailable s, m_writeAvailable = 0\<rparr>"
  shows "buf_ok h b'" and "checked dbg b'" and "buf_read h b' = seg_read h s"
    and "buf_cells b' = cells s" and "buf_wcells b' = {}"
  using assms wcells_full[OF assms(2)]
  by (auto simp: buf_ok_def segs_ok_def apart_list_Cons checked_def buf_read_def buf_cells_def buf_wcells_def)

text \<open>What the two coalescing branches share: a full segment that holds all readable bytes.\<close>

lemma coalesced_ok:
  assumes "seg_ok h' s" and "Segment_writeAvailable s = 0" and "seg_read h' s = rd"
    and "n \<le> length rd" and "b' = \<lparr>m_front = [s], m_back = [], m_readAvailable = length rd, m_writeAvailable = 0\<rparr>"
  obtains d where "self_check dbg b' (andThen (SegmentData_slice 0 n (Segment_readBuffer s)) (\<lambda>data.
        Inr (Some data, b', h'))) = Inr (Some d, b', h')"
    and "slice_bytes h' d = take n rd" and "buf_ok h' b'" and "checked dbg b'" and "buf_read h' b' = rd"
    and "buf_cells b' = cells s" and "buf_wcells b' = {}"
proof -
  have len: "length rd = Segment_readAvailable s" using length_seg_read[OF assms(1)] assms(3) by simp
  note b' = buf_single_ok[OF assms(1,2) assms(5)[unfolded len]]
  obtain d where "SegmentData_slice 0 n (Segment_readBuffer s) = Inr d" "slice_bytes h' d = take n rd"
    by (rule slice_read_bytes[OF assms(1)]) (use assms(3,4) len in auto)
  then show thesis
    using that[of d] b' assms(3) by (simp add: self_check_checked[OF b'(1,2)])
qed

lemma readBuffer_in_place:
  assumes "buf_ok h b" and "m_back b = s # rest" and "m_readAvailable b \<le> Segment_writeAvailable s"
    and "0 < m_readAvailable b"
  obtains h' d where
    "memcpy (m_array (Segment_writeBuffer s)) (m_start (Segment_writeBuffer s)) (buf_read h b) h = Inr h'"
    and "SegmentData_slice 0 (m_readAvailable b) (Segment_writeBuffer s) = Inr d"
    and "seg_ok h' (Segment_of d)" and "Segment_writeAvailable (Segment_of d) = 0"
    and "seg_read h' (Segment_of d) = buf_read h b"
    and "heap_frame (buf_wcells b) h h'" and "hp_next h' = hp_next h" and "cells (Segment_of d) \<subseteq> buf_wcells b"
proof -
  have s: "seg_ok h s" using buf_ok_segs[OF assms(1)] assms(2) by simp
  have len: "length (buf_read h b) = m_readAvailable b" using assms(1) by (rule length_buf_read)
  have le: "length (buf_read h b) \<le> Segment_writeAvailable s" using assms(3) len by simp
  obtain h' where h': "memcpy (m_array (Segment_writeBuffer s)) (m_start (Segment_writeBuffer s)) (buf_read h b) h = Inr h'"
      "heap_frame (wcells s) h h'" "hp_next h' = hp_next h"
      "seg_write h' s = buf_read h b @ drop (length (buf_read h b)) (seg_write h s)"
    by (rule seg_write_memcpy[OF s le])
  have s': "seg_ok h' s" using h'(2) s by (rule seg_ok_frame)
  obtain d where d: "SegmentData_slice 0 (m_readAvailable b) (Segment_writeBuffer s) = Inr d"
      "m_length d = m_readAvailable b" "slice_bytes h' d = take (m_readAvailable b) (seg_write h' s)"
      "slice_cells d \<subseteq> wcells s"
    by (rule slice_write_ok[OF s' assms(3)])
  have rd: "seg_read h' (Segment_of d) = buf_read h b"
    using d(3) h'(4) len by (simp add: seg_read_def slice_bytes_def segment_defs)
  have m: "m_array d = m_array (m_data s)" "m_start d + m_length d \<le> m_start (m_data s) + m_length (m_data s)"
    using d(1) s by (auto simp: SegmentData_slice_def segment_defs Let_def seg_ok_def split: if_splits)
  have "seg_ok h' (Segment_of d)" using s' m d(2) assms(4) by (auto simp: seg_ok_def segment_defs)
  moreover have "cells (Segment_of d) = slice_cells d" by (simp add: cells_def slice_cells_def segment_defs)
  moreover have sub: "wcells s \<subseteq> buf_wcells b" using assms(2) by (auto simp: buf_wcells_def)
  ultimately show thesis
    using that[OF h'(1) d(1) _ _ rd heap_frame_mono[OF h'(2) sub] h'(3)] d(4)
    by (auto simp: segment_defs)
qed

lemma readBuffer_fresh:
  assumes "0 < length bs" and "length bs < npos"
  obtains t h0 h' t' where "Segment_new (length bs) h = (t, h0)" and "heap_frame {} h h0"
    and "memcpy (m_array (Segment_writeBuffer t)) (m_start (Segment_writeBuffer t)) bs h0 = Inr h'"
    and "Segment_produce (length bs) t = Inr t'" and "seg_ok h' t'" and "Segment_writeAvailable t' = 0"
    and "seg_read h' t' = bs" and "heap_frame {} h h'" and "cells t' \<subseteq> fresh_cells h"
proof -
  obtain t h0 where new: "Segment_new (length bs) h = (t, h0)"
      "m_length (m_data t) = length bs" "m_writeIndex t = 0" "seg_ok h0 t" "seg_read h0 t = []"
      "heap_frame {} h h0" "cells t \<subseteq> fresh_cells h"
    by (rule Segment_new_ok[OF assms, of h]) blast
  have wa: "length bs \<le> Segment_writeAvailable t" using new(2,3) by (simp add: segment_defs)
  obtain h' where h': "memcpy (m_array (Segment_writeBuffer t)) (m_start (Segment_writeBuffer t)) bs h0 = Inr h'"
      "heap_frame (wcells t) h0 h'" "seg_write h' t = bs @ drop (length bs) (seg_write h0 t)"
    by (rule seg_write_memcpy[OF new(4) wa])
  have t: "seg_ok h' t" "seg_read h' t = []"
    using seg_ok_frame[OF h'(2) new(4)] seg_read_frame[OF h'(2) new(4)] new(5) by auto
  obtain t' where t': "Segment_produce (length bs) t = Inr t'" "m_data t' = m_data t"
      "m_writeIndex t' = m_writeIndex t + length bs" "seg_ok h' t'"
      "seg_read h' t' = seg_read h' t @ take (length bs) (seg_write h' t)" "cells t' = cells t"
    by (rule Segment_produce_ok[OF t(1) wa]) blast
  have fr: "heap_frame {} h h'"
    using new(7) wcells_subset[of t] by (intro heap_frame_trans[OF new(6) h'(2)]) auto
  show thesis
    using that[OF new(1,6) h'(1) t'(1,4) _ _ fr] t'(2,3,5,6) t(2) h'(3) new(2,3,7)
    by (simp add: segment_defs)
qed

text \<open>
  \<open>readBuffer\<close> with \<open>coalesce\<close> returns the first \<open>n\<close> readable bytes as one slice; whatever it
  rearranges, the readable bytes stay the same.
\<close>

lemma Buffer_readBuffer_ok:
  assumes "buf_ok h b" and "checked dbg b" and "n \<le> m_readAvailable b" and "m_readAvailable b < npos"
  obtains iov b' h' where "Buffer_readBuffer dbg n True b h = Inr (iov, b', h')" and "buf_ok h' b'"
    and "checked dbg b'" and "buf_read h' b' = buf_read h b" and "iov_bytes h' iov = take n (buf_read h b)"
    and "heap_frame (buf_wcells b) h h'"
    and "buf_cells b' \<subseteq> buf_cells b \<union> fresh_cells h" and "buf_wcells b' \<subseteq> buf_wcells b"
proof (cases "m_readAvailable b = 0")
  case True
  then show thesis
    using that[of None b h] assms by (auto simp: Buffer_readBuffer_def iov_bytes_def Let_def)
next
  case ra: False
  have len: "length (buf_read h b) = m_readAvailable b" using assms(1) by (rule length_buf_read)
  have nn: "n \<noteq> npos" using assms(3,4) by auto
  obtain s ss where segs: "m_segments b = s # ss"
    using ra assms(1) by (cases "m_segments b") (auto simp: buf_ok_def)
  have s: "seg_ok h s" using buf_ok_segs[OF assms(1)] unfolding segs by simp
  have rd: "buf_read h b = seg_read h s @ segs_read h ss" unfolding buf_read_def segs by simp
  show thesis
  proof (cases "n \<le> Segment_readAvailable s")
    case True
    obtain d where "SegmentData_slice 0 n (Segment_readBuffer s) = Inr d" "slice_bytes h d = take n (seg_read h s)"
      by (rule slice_read_bytes[OF s True])
    then show thesis
      using that[of "Some d" b h] assms ra segs nn True rd length_seg_read[OF s]
      by (auto simp: Buffer_readBuffer_def iov_bytes_def Let_def)
  next
    case far: False
    have co: "Buffer_copyOut (m_readAvailable b) 0 b h = Inr (buf_read h b)"
      using Buffer_copyOut_ok[OF assms(1), of "m_readAvailable b" 0] len by simp
    have n: "n \<le> length (buf_read h b)" using assms(3) len by simp
    show thesis
    proof (cases "m_back b \<noteq> [] \<and> m_readAvailable b \<le> Segment_writeAvailable (hd (m_back b))")
      case True
      then obtain w rest where w: "m_back b = w # rest" "m_readAvailable b \<le> Segment_writeAvailable w"
        by (cases "m_back b") auto
      obtain h' d where ip: "memcpy (m_array (Segment_writeBuffer w)) (m_start (Segment_writeBuffer w)) (buf_read h b) h = Inr h'"
          "SegmentData_slice 0 (m_readAvailable b) (Segment_writeBuffer w) = Inr d"
          "seg_ok h' (Segment_of d)" "Segment_writeAvailable (Segment_of d) = 0"
          "seg_read h' (Segment_of d) = buf_read h b" "heap_frame (buf_wcells b) h h'"
          "cells (Segment_of d) \<subseteq> buf_wcells b"
        using readBuffer_in_place[OF assms(1) w] ra by (metis neq0_conv)
      let ?b = "\<lparr>m_front = [Segment_of d], m_back = [], m_readAvailable = length (buf_read h b), m_writeAvailable = 0\<rparr>"
      obtain e where e: "self_check dbg ?b (andThen (SegmentData_slice 0 n (Segment_readBuffer (Segment_of d))) (\<lambda>data.
          Inr (Some data, ?b, h'))) = Inr (Some e, ?b, h')" "slice_bytes h' e = take n (buf_read h b)"
          "buf_ok h' ?b" "checked dbg ?b" "buf_read h' ?b = buf_read h b"
          "buf_cells ?b = cells (Segment_of d)" "buf_wcells ?b = {}"
        by (rule coalesced_ok[OF ip(3-5) n refl, of dbg])
      have "Buffer_readBuffer dbg n True b h = Inr (Some e, ?b, h')"
        using ra segs far nn True w co ip(1,2) e(1) len assms(3) by (simp add: Buffer_readBuffer_def Let_def)
      then show thesis
        using that[OF _ e(3-5) _ ip(6)] e(2,6,7) ip(7) buf_wcells_subset[of b] by (auto simp: iov_bytes_def)
    next
      case False
      obtain t h0 h' t' where fr: "Segment_new (length (buf_read h b)) h = (t, h0)" "heap_frame {} h h0"
          "memcpy (m_array (Segment_writeBuffer t)) (m_start (Segment_writeBuffer t)) (buf_read h b) h0 = Inr h'"
          "Segment_produce (length (buf_read h b)) t = Inr t'" "seg_ok h' t'" "Segment_writeAvailable t' = 0"
          "seg_read h' t' = buf_read h b" "heap_frame {} h h'" "cells t' \<subseteq> fresh_cells h"
        by (rule readBuffer_fresh[of "buf_read h b" h]) (use len ra assms(4) in auto)
      note b0 = buf_frame[OF fr(2) assms(1)]
      have co0: "Buffer_copyOut (m_readAvailable b) 0 b h0 = Inr (buf_read h b)"
        using Buffer_copyOut_ok[OF b0(1), of "m_readAvailable b" 0] b0(2) len by simp
      let ?b = "\<lparr>m_front = [t'], m_back = [], m_readAvailable = length (buf_read h b), m_writeAvailable = 0\<rparr>"
      obtain e where e: "self_check dbg ?b (andThen (SegmentData_slice 0 n (Segment_readBuffer t')) (\<lambda>data.
          Inr (Some data, ?b, h'))) = Inr (Some e, ?b, h')" "slice_bytes h' e = take n (buf_read h b)"
          "buf_ok h' ?b" "checked dbg ?b" "buf_read h' ?b = buf_read h b"
          "buf_cells ?b = cells t'" "buf_wcells ?b = {}"
        by (rule coalesced_ok[OF fr(5-7) n refl, of dbg])
      have "Buffer_readBuffer dbg n True b h = Inr (Some e, ?b, h')"
        using ra segs far nn False co0 fr(1,3,4) e(1) len assms(3)
        by (auto simp: Buffer_readBuffer_def Let_def)
      moreover have "heap_frame (buf_wcells b) h h'" using fr(8) heap_frame_mono by blast
      ultimately show thesis
        using that[OF _ e(3-5)] e(2,6,7) fr(9) by (auto simp: iov_bytes_def)
    qed
  qed
qed

section \<open>Whole buffers\<close>

lemma Buffer_copyIn_all:
  "Buffer_copyIn dbg src npos pos b = Buffer_copyIn dbg src (m_readAvailable src - pos) pos b"
  by (simp add: Buffer_copyIn_def Let_def)

lemma Buffer_copy_ok:
  assumes "buf_ok h src" and "m_readAvailable src < npos"
  obtains b' where "Buffer_copy dbg src = Inr b'" and "buf_ok h b'" and "buf_read h b' = buf_read h src"
    and "buf_cells b' \<subseteq> buf_cells src - buf_wcells src" and "buf_wcells b' = {}"
proof -
  obtain b' where "Buffer_copyIn dbg src (m_readAvailable src) 0 Buffer_empty = Inr b'" "buf_ok h b'"
      "buf_read h b' = buf_read h Buffer_empty @ take (m_readAvailable src) (drop 0 (buf_read h src))"
      "buf_cells b' \<subseteq> buf_cells Buffer_empty \<union> (buf_cells src - buf_wcells src)"
      "buf_wcells b' \<subseteq> buf_wcells Buffer_empty"
    by (rule Buffer_copyIn_ok[OF Buffer_empty_ok(1,2) assms(1), where n="m_readAvailable src" and pos=0])
      (use assms(2) in auto)
  then show thesis
    using that length_buf_read[OF assms(1)] by (simp add: Buffer_copy_def Buffer_copyIn_all)
qed

lemma Buffer_assign_ok:
  assumes "buf_ok h b" and "checked dbg b" and "buf_ok h src" and "m_readAvailable src < npos"
  obtains b' where "Buffer_assign dbg src b = Inr b'" and "buf_ok h b'" and "buf_read h b' = buf_read h src"
    and "buf_cells b' \<subseteq> buf_cells src - buf_wcells src" and "buf_wcells b' = {}"
proof -
  have "Buffer_clear dbg True b = Inr Buffer_empty"
    using self_check_checked[OF Buffer_empty_ok(1,2)]
    by (simp add: Buffer_clear_def self_check_checked[OF assms(1,2)])
  then have "Buffer_assign dbg src b = Buffer_copy dbg src"
    by (simp add: Buffer_assign_def Buffer_copy_def)
  then show thesis using Buffer_copy_ok[OF assms(3,4), of dbg] that by metis
qed

end
