(* ===== verification/Buffer_Search.thy ===== *)
theory Buffer_Search
  imports Buffer_Slices
begin

text \<open>
  Correctness of the operations that look into a buffer: \<open>find\<close> for a character and for a
  string, \<open>getDelimited\<close>, \<open>visit\<close> and the comparisons. Each is related to the readable bytes
  as one list, however they are spread over segments.
\<close>

section \<open>find of a character\<close>

lemma memchr_append:
  "memchr c (xs @ ys) = (case memchr c xs of Some i \<Rightarrow> Some i
                         | None \<Rightarrow> map_option (\<lambda>i. length xs + i) (memchr c ys))"
proof (induction xs)
  case Nil
  then show ?case by (cases "memchr c ys") auto
next
  case (Cons x xs)
  then show ?case by (cases "memchr c xs"; cases "memchr c ys") auto
qed

lemma memchr_None: "memchr c xs = None \<longleftrightarrow> c \<notin> set xs"
  by (induction xs) auto

definition index_result :: "nat option \<Rightarrow> int" where
  "index_result r = (case r of None \<Rightarrow> -1 | Some i \<Rightarrow> int i)"

lemma find_loop_ok:
  assumes "\<forall>s\<in>set ss. seg_ok h s"
  shows "find_loop h c len tot ss =
    index_result (map_option (\<lambda>i. tot + i) (memchr c (take len (segs_read h ss))))"
  using assms
proof (induction ss arbitrary: len tot)
  case (Cons s ss)
  have len: "length (seg_read h s) = Segment_readAvailable s" using Cons.prems by (simp add: length_seg_read)
  define t where "t = min len (Segment_readAvailable s)"
  define x where "x = take t (seg_read h s)"
  define y where "y = take (len - t) (segs_read h ss)"
  have tk: "take len (segs_read h (s # ss)) = x @ y"
    using len by (auto simp: min_def t_def x_def y_def)
  have IH: "find_loop h c (len - t) (tot + t) ss = index_result (map_option (\<lambda>i. tot + t + i) (memchr c y))"
    unfolding y_def using Cons by simp
  have lx: "length x = t" using len by (simp add: x_def t_def)
  have y0: "len - t = 0 \<Longrightarrow> memchr c y = None" by (simp add: y_def)
  have step: "find_loop h c len tot (s # ss) = (case memchr c x of Some i \<Rightarrow> int (tot + i)
      | None \<Rightarrow> if len - t = 0 then -1 else find_loop h c (len - t) (tot + t) ss)"
    by (simp only: find_loop.simps Let_def x_def t_def)
  show ?case
    unfolding tk step memchr_append lx IH using y0
    by (cases "memchr c x"; cases "memchr c y"; cases "len - t = 0") (auto simp: index_result_def)
qed (simp add: index_result_def)

lemma Buffer_find_ok:
  assumes "buf_ok h b" and "n \<le> m_readAvailable b" and "n \<noteq> npos"
  shows "Buffer_find c n b h = Inr (index_result (memchr c (take n (buf_read h b))))"
  using assms(2,3) find_loop_ok[OF buf_ok_segs[OF assms(1)], of c n 0]
  by (simp add: Buffer_find_def buf_read_def option.map_ident del: take_append segs_simps)

section \<open>visit\<close>

lemma drop_split: "drop n xs = take m (drop n xs) @ drop (n + m) xs"
  by (metis append_take_drop_id drop_drop add.commute)

lemma dense_hd_empty: "dense (s # ss) \<Longrightarrow> Segment_readAvailable s = 0 \<Longrightarrow> segs_read h (s # ss) = []"
  by (simp add: seg_read_empty segs_read_empty)

lemma visit_loop_ok:
  assumes "\<forall>s\<in>set ss. seg_ok h s" and "dense ss" and "n \<le> segs_ra ss"
  shows "\<exists>vs. visit_loop h n ss = Inr vs \<and> concat vs = take n (segs_read h ss) \<and> [] \<notin> set vs"
  using assms
proof (induction ss arbitrary: n)
  case (Cons s ss)
  have len: "length (seg_read h s) = Segment_readAvailable s" using Cons.prems(1) by (simp add: length_seg_read)
  let ?t = "min n (Segment_readAvailable s)"
  show ?case
  proof (cases "n = 0")
    case False
    have ra: "Segment_readAvailable s \<noteq> 0"
    proof
      assume z: "Segment_readAvailable s = 0"
      then have "segs_ra ss = 0" using Cons.prems(2) by simp
      then show False using z False Cons.prems(3) by (simp del: sum_list_eq_0_iff)
    qed
    have "n - ?t \<le> segs_ra ss" using Cons.prems(3) by auto
    then obtain vs where "visit_loop h (n - ?t) ss = Inr vs" "concat vs = take (n - ?t) (segs_read h ss)" "[] \<notin> set vs"
      using Cons.IH[of "n - ?t"] Cons.prems(1,2) by auto
    moreover have "take n (segs_read h (s # ss)) = take ?t (seg_read h s) @ take (n - ?t) (segs_read h ss)"
      using len by (auto simp: min_def)
    moreover have "take ?t (seg_read h s) \<noteq> []" using False ra len by auto
    moreover have "?t \<noteq> 0" using False ra by simp
    ultimately show ?thesis using False unfolding visit_loop.simps Let_def
      by (intro exI[of _ "take ?t (seg_read h s) # vs"]) simp
  qed simp
qed simp

lemma Buffer_visit_ok:
  assumes "buf_ok h b" and "n \<le> m_readAvailable b" and "n \<noteq> npos"
  obtains vs where "Buffer_visit n b h = Inr vs" and "concat vs = take n (buf_read h b)" and "[] \<notin> set vs"
proof -
  have "dense (m_segments b)" "n \<le> segs_ra (m_segments b)"
    using assms(1,2) segs_ok_dense unfolding buf_ok_def by auto
  from visit_loop_ok[OF buf_ok_segs[OF assms(1)] this] show thesis
    using that assms(2,3) by (auto simp: Buffer_visit_def buf_read_def Let_def)
qed

section \<open>Comparison\<close>

lemma memcmp_append:
  "length xs = length ys \<Longrightarrow> memcmp (xs @ us) (ys @ vs) = (if memcmp xs ys = 0 then memcmp us vs else memcmp xs ys)"
  by (induction xs ys rule: list_induct2) auto

lemma memcmp_eq_0:
  "length xs = length ys \<Longrightarrow> memcmp xs ys = 0 \<longleftrightarrow> xs = ys"
  by (induction xs ys rule: list_induct2) auto

lemma memcmp_refl [simp]: "memcmp xs xs = 0"
  by (induction xs) auto

lemma memcmp_Nil [simp]: "memcmp [] ys = 0" "memcmp xs [] = 0"
  by (cases ys; simp) (cases xs; simp)

text \<open>Advancing by \<open>t\<close> readable bytes, over the end of the first segment if they reach it.\<close>

lemma advance_read:
  assumes "seg_ok h l" and "lo + t \<le> Segment_readAvailable l"
  shows "drop lo (segs_read h (l # ls)) = take t (drop lo (seg_read h l)) @
     drop (if lo + t = Segment_readAvailable l then 0 else lo + t)
       (segs_read h (if lo + t = Segment_readAvailable l then ls else l # ls))"
proof -
  have "drop lo (seg_read h l) = take t (drop lo (seg_read h l)) @ drop (lo + t) (seg_read h l)"
    by (rule drop_split)
  then show ?thesis using assms(2) length_seg_read[OF assms(1)] by simp
qed

text \<open>
  The loop of \<open>opCmp\<close>: the first difference decides, otherwise the difference of the lengths
  does.
\<close>

lemma opCmp_loop_ok:
  assumes "\<forall>s\<in>set (ls @ rs). seg_ok h s" and "dense ls" and "dense rs"
    and "ls = [] \<or> lo \<le> Segment_readAvailable (hd ls)" and "rs = [] \<or> ro \<le> Segment_readAvailable (hd rs)"
    and "lo = 0 \<or> ls \<noteq> [] \<and> lo < Segment_readAvailable (hd ls)"
    and "ro = 0 \<or> rs \<noteq> [] \<and> ro < Segment_readAvailable (hd rs)"
  shows "opCmp_loop h z lo ro ls rs =
    Inr (let r = memcmp (drop lo (segs_read h ls)) (drop ro (segs_read h rs)) in if r \<noteq> 0 then r else z)"
  using assms
proof (induction h z lo ro ls rs rule: opCmp_loop.induct)
  case (1 h z lo ro ls rs)
  show ?case
  proof (cases "ls = [] \<or> rs = []")
    case True
    then show ?thesis using 1(7,8) by (subst opCmp_loop.simps) (auto split: list.splits)
  next
    case False
    then obtain l ls' r rs' where ls: "ls = l # ls'" and rs: "rs = r # rs'"
      by (cases ls; cases rs) auto
    have len: "length (seg_read h l) = Segment_readAvailable l" "length (seg_read h r) = Segment_readAvailable r"
      using 1(2) ls rs by (simp_all add: length_seg_read)
    let ?t = "min (Segment_readAvailable l - lo) (Segment_readAvailable r - ro)"
    let ?x = "take ?t (drop lo (seg_read h l))" and ?y = "take ?t (drop ro (seg_read h r))"
    have le: "lo \<le> Segment_readAvailable l" "ro \<le> Segment_readAvailable r" using 1(5,6) ls rs by auto
    have lx: "length ?x = ?t" "length ?y = ?t" using len by auto
    show ?thesis
    proof (cases "?t = 0")
      case True
      then have "Segment_readAvailable l = 0 \<or> Segment_readAvailable r = 0"
        using 1(7,8) ls rs by auto
      then have "segs_read h ls = [] \<or> segs_read h rs = []"
        using dense_hd_empty 1(3,4) unfolding ls rs by blast
      then have "memcmp (drop lo (segs_read h ls)) (drop ro (segs_read h rs)) = 0" by auto
      then show ?thesis
        using True le ls rs by (subst opCmp_loop.simps) (simp add: Let_def)
    next
      case nz: False
      define lo' where "lo' = (if lo + ?t = Segment_readAvailable l then 0 else lo + ?t)"
      define ro' where "ro' = (if ro + ?t = Segment_readAvailable r then 0 else ro + ?t)"
      define l' where "l' = (if lo + ?t = Segment_readAvailable l then ls' else ls)"
      define r' where "r' = (if ro + ?t = Segment_readAvailable r then rs' else rs)"
      have t: "lo + ?t \<le> Segment_readAvailable l" "ro + ?t \<le> Segment_readAvailable r" using le by auto
      have dl: "drop lo (segs_read h ls) = ?x @ drop lo' (segs_read h l')"
        unfolding lo'_def l'_def ls using 1(2) ls by (intro advance_read t(1)) simp
      have dr: "drop ro (segs_read h rs) = ?y @ drop ro' (segs_read h r')"
        unfolding ro'_def r'_def rs using 1(2) rs by (intro advance_read t(2)) simp
      have step: "opCmp_loop h z lo ro ls rs =
          (if memcmp ?x ?y \<noteq> 0 then Inr (memcmp ?x ?y) else opCmp_loop h z lo' ro' l' r')"
        unfolding lo'_def ro'_def l'_def r'_def ls rs
        by (subst opCmp_loop.simps) (simp only: list.case Let_def nz le simp_thms if_False)
      have mc: "memcmp (drop lo (segs_read h ls)) (drop ro (segs_read h rs)) =
          (if memcmp ?x ?y = 0 then memcmp (drop lo' (segs_read h l')) (drop ro' (segs_read h r')) else memcmp ?x ?y)"
        unfolding dl dr by (intro memcmp_append) (simp only: lx)
      have pre: "\<forall>s\<in>set (l' @ r'). seg_ok h s" "dense l'" "dense r'"
        "l' = [] \<or> lo' \<le> Segment_readAvailable (hd l')" "r' = [] \<or> ro' \<le> Segment_readAvailable (hd r')"
        "lo' = 0 \<or> l' \<noteq> [] \<and> lo' < Segment_readAvailable (hd l')"
        "ro' = 0 \<or> r' \<noteq> [] \<and> ro' < Segment_readAvailable (hd r')"
        using 1(2-4) t ls rs unfolding lo'_def ro'_def l'_def r'_def
        by (simp_all del: sum_list_eq_0_iff split del: if_split split: if_split)
      show ?thesis
      proof (cases "memcmp ?x ?y = 0")
        case True
        have "opCmp_loop h z lo' ro' l' r' = Inr (let q = memcmp (drop lo' (segs_read h l')) (drop ro' (segs_read h r'))
            in if q \<noteq> 0 then q else z)"
          unfolding lo'_def ro'_def l'_def r'_def
        proof (rule 1(1)[OF ls rs refl refl _ nz], goal_cases)
          case 1
          show ?case using le by simp
        next
          case 2
          show ?case using True by simp
        qed (fact pre[unfolded lo'_def ro'_def l'_def r'_def])+
        then show ?thesis using step mc True by simp
      next
        case False
        then show ?thesis using step mc by (simp add: Let_def)
      qed
    qed
  qed
qed

lemma Buffer_opCmp_ok:
  assumes "buf_ok h b" and "buf_ok h c"
  shows "Buffer_opCmp b c h = Inr (let r = memcmp (buf_read h b) (buf_read h c) in
     if r \<noteq> 0 then r else to_int32 (int (length (buf_read h b)) - int (length (buf_read h c))))"
proof -
  have "dense (m_segments b)" "dense (m_segments c)"
    using assms segs_ok_dense by (auto simp: buf_ok_def)
  moreover have "\<forall>s\<in>set (m_segments b @ m_segments c). seg_ok h s"
    using buf_ok_segs[OF assms(1)] buf_ok_segs[OF assms(2)] by auto
  ultimately show ?thesis
    unfolding Buffer_opCmp_def length_buf_read[OF assms(1)] length_buf_read[OF assms(2)]
    by (subst opCmp_loop_ok) (simp_all add: buf_read_def)
qed

lemma Buffer_eq_ok:
  assumes "buf_ok h b" and "buf_ok h c"
  shows "Buffer_eq b c h = Inr (buf_read h b = buf_read h c)"
proof (cases "m_readAvailable c = m_readAvailable b")
  case True
  then have "length (buf_read h b) = length (buf_read h c)"
    using length_buf_read assms by simp
  then show ?thesis
    using True memcmp_eq_0[of "buf_read h b" "buf_read h c"]
    by (auto simp: Buffer_eq_def Buffer_opCmp_ok[OF assms] Let_def to_int32_def)
next
  case False
  then show ?thesis
    using length_buf_read[OF assms(1)] length_buf_read[OF assms(2)] by (auto simp: Buffer_eq_def)
qed

lemma opCmpString_loop_ok:
  assumes "\<forall>s\<in>set ss. seg_ok h s" and "len = length str" and "segs_ra ss = len"
  shows "opCmpString_loop h z str len ss =
    (let r = memcmp (segs_read h ss) str in if r \<noteq> 0 then r else z)"
  using assms
proof (induction ss arbitrary: str len)
  case (Cons s ss)
  have len: "length (seg_read h s) = Segment_readAvailable s" using Cons.prems(1) by (simp add: length_seg_read)
  define t where "t = Segment_readAvailable s"
  have t: "min t len = t" "t \<le> length str" using Cons.prems(2,3) by (simp_all add: t_def)
  have mc: "memcmp (segs_read h (s # ss)) str =
     (if memcmp (seg_read h s) (take t str) = 0 then memcmp (segs_read h ss) (drop t str)
      else memcmp (seg_read h s) (take t str))"
    using memcmp_append[of "seg_read h s" "take t str" "segs_read h ss" "drop t str"] len t
    by (simp add: t_def)
  have "opCmpString_loop h z (drop t str) (len - t) ss =
     (let r = memcmp (segs_read h ss) (drop t str) in if r \<noteq> 0 then r else z)"
    using Cons by (intro Cons.IH) (auto simp: t_def)
  moreover have "opCmpString_loop h z str len (s # ss) =
      (if memcmp (seg_read h s) (take t str) \<noteq> 0 then memcmp (seg_read h s) (take t str)
       else if len - t = 0 then z else opCmpString_loop h z (drop t str) (len - t) ss)"
    using len t by (simp add: Let_def t_def[symmetric])
  moreover have "len - t = 0 \<Longrightarrow> drop t str = []" using Cons.prems(2) by simp
  ultimately show ?case unfolding mc by (auto simp: Let_def)
qed simp

lemma Buffer_eqString_ok:
  assumes "buf_ok h b"
  shows "Buffer_eqString str b h \<longleftrightarrow> buf_read h b = str"
proof (cases "length str = m_readAvailable b")
  case True
  have "opCmpString_loop h 0 str (length str) (m_segments b) =
      (let r = memcmp (segs_read h (m_segments b)) str in if r \<noteq> 0 then r else 0)"
    using buf_ok_segs[OF assms] True assms unfolding buf_ok_def by (intro opCmpString_loop_ok) simp_all
  then show ?thesis
    using True memcmp_eq_0[of "buf_read h b" str] length_buf_read[OF assms]
    by (auto simp: Buffer_eqString_def Buffer_opCmpString_def to_int32_def Let_def buf_read_def)
next
  case False
  then show ?thesis using length_buf_read[OF assms] by (auto simp: Buffer_eqString_def)
qed

section \<open>find of a string\<close>

definition occurs_at :: "byte list \<Rightarrow> byte list \<Rightarrow> nat \<Rightarrow> bool" where
  "occurs_at str xs i \<longleftrightarrow> take (length str) (drop i xs) = str"

text \<open>
  The state of the scan after the bytes \<open>p\<close>: the last \<open>f\<close> of them, from position \<open>t\<close> on, are
  the first \<open>f\<close> bytes of the string.
\<close>

definition scan_inv :: "byte list \<Rightarrow> byte list \<Rightarrow> nat \<Rightarrow> nat \<Rightarrow> bool" where
  "scan_inv str p f t \<longleftrightarrow> t + f = length p \<and> f \<le> length str \<and> drop t p = take f str"

lemma scan_inv_0 [simp]: "scan_inv str p 0 t \<longleftrightarrow> t = length p"
  by (auto simp: scan_inv_def)

lemma scan_inv_extend:
  assumes "scan_inv str p f t" and "ys = take (length ys) (drop f str)"
  shows "scan_inv str (p @ ys) (f + length ys) t"
proof -
  have "length ys \<le> length str - f" using arg_cong[OF assms(2), of length] by simp
  moreover have "take (f + length ys) str = take f str @ ys" using assms(2) by (metis take_add)
  ultimately show ?thesis using assms(1) by (auto simp: scan_inv_def)
qed

lemma findString_scan_Nil [simp]: "findString_scan str [] f t = (f, t, [])"
  by (subst findString_scan.simps) simp

text \<open>One round of the inner loop, after the search for the first character.\<close>

lemma findString_scan_found:
  assumes "xs \<noteq> []" and "0 < f"
  shows "findString_scan str xs f t =
    (let k = min (length xs) (length str - f)
     in if take k xs = take k (drop f str)
        then if f + k \<ge> length str then (length str, t, drop k xs) else findString_scan str (drop k xs) (f + k) t
        else findString_scan str xs 0 (t + f))"
  using assms by (subst findString_scan.simps) (simp add: Let_def)

lemma findString_scan_first:
  assumes "xs \<noteq> []" and "memchr (hd str) xs = Some i" and "str \<noteq> []"
  shows "findString_scan str xs 0 t =
    (if drop (Suc i) xs = [] \<and> length str \<noteq> 1 then (1, t + i, [])
     else if drop (Suc i) xs = [] then (length str, t + i, [])
     else findString_scan str (drop (Suc i) xs) 1 (t + i))"
proof (cases "drop (Suc i) xs = []")
  case True
  then show ?thesis
    using assms by (subst findString_scan.simps)
      (cases str; cases "tl str"; simp add: Let_def)
next
  case False
  then show ?thesis
    using assms findString_scan_found[OF False, of 1 str "t + i"]
    by (subst findString_scan.simps) (simp add: Let_def)
qed

text \<open>
  The scan of one piece \<open>xs\<close> of the readable bytes after \<open>p\<close>: it keeps the invariant, stops
  early only with the whole string found, and, for a string whose first character does not
  come again in it, skips no occurrence.
\<close>

definition scan_result :: "byte list \<Rightarrow> byte list \<Rightarrow> byte list \<Rightarrow> nat \<Rightarrow> nat \<times> nat \<times> byte list \<Rightarrow> bool" where
  "scan_result str p xs t r = (case r of (f', t', lft) \<Rightarrow>
     (\<exists>pre. xs = pre @ lft \<and> scan_inv str (p @ pre) f' t') \<and> t \<le> t' \<and> (f' < length str \<longrightarrow> lft = []) \<and>
     (hd str \<notin> set (tl str) \<longrightarrow> (\<forall>j zs. t \<le> j \<and> j < t' \<longrightarrow> \<not> occurs_at str (p @ xs @ zs) j)))"

lemma scan_result_shift:
  assumes "scan_result str (p @ us) ys t1 r" and "xs = us @ ys" and "t \<le> t1"
    and "hd str \<notin> set (tl str) \<longrightarrow> (\<forall>j zs. t \<le> j \<and> j < t1 \<longrightarrow> \<not> occurs_at str (p @ xs @ zs) j)"
  shows "scan_result str p xs t r"
proof -
  obtain f' t' lft where r: "r = (f', t', lft)" by (cases r)
  obtain pre where pre: "ys = pre @ lft" "scan_inv str ((p @ us) @ pre) f' t'"
    using assms(1) by (auto simp: scan_result_def r)
  have "xs = (us @ pre) @ lft" "scan_inv str (p @ (us @ pre)) f' t'" using pre assms(2) by simp_all
  moreover have "\<not> occurs_at str (p @ xs @ zs) j"
    if "hd str \<notin> set (tl str)" "t \<le> j" "j < t'" for j zs
    using that assms by (cases "j < t1") (auto simp: scan_result_def r)
  ultimately show ?thesis using assms(1,3) by (auto simp: scan_result_def r intro: order_trans)
qed

lemma occurs_at_nth:
  "occurs_at str xs j \<Longrightarrow> k < length str \<Longrightarrow> j + k < length xs \<and> xs ! (j + k) = str ! k"
proof -
  assume o: "occurs_at str xs j" and k: "k < length str"
  have "length str \<le> length xs - j" using arg_cong[OF o[unfolded occurs_at_def], of length] by simp
  then have "j + k < length xs" using k by linarith
  moreover have "take (length str) (drop j xs) ! k = str ! k" using o by (simp add: occurs_at_def)
  ultimately show ?thesis using k by simp
qed

lemma no_occurrence_run:
  assumes "str \<noteq> []" and "hd str \<notin> set us" and "length p \<le> j" and "j < length p + length us"
  shows "\<not> occurs_at str (p @ us @ zs) j"
proof
  assume "occurs_at str (p @ us @ zs) j"
  from occurs_at_nth[OF this, of 0] have eq: "(p @ us @ zs) ! j = hd str"
    using assms(1) by (auto simp: hd_conv_nth)
  have "j - length p < length us" using assms(3,4) by linarith
  then have "us ! (j - length p) = hd str" using eq assms(3) by (simp add: nth_append)
  then show False using \<open>j - length p < length us\<close> assms(2) by (metis nth_mem)
qed

text \<open>
  A mismatch after \<open>f\<close> matching bytes: the string does not occur where they start, nor at a
  later one of them unless its first character comes again in it.
\<close>

lemma no_occurrence_overlap:
  assumes "scan_inv str p f t" and "f < length str" and "hd str \<notin> set (tl str)"
    and "us \<noteq> take (length us) (drop f str)" and "f + length us \<le> length str"
    and "t \<le> j" and "j < t + f"
  shows "\<not> occurs_at str (p @ (us @ ys) @ zs) j"
proof
  assume o: "occurs_at str (p @ (us @ ys) @ zs) j"
  have t: "t + f = length p" "drop t p = take f str" using assms(1) by (auto simp: scan_inv_def)
  show False
  proof (cases "j = t")
    case True
    have "us = take (length us) (drop f str)"
    proof (rule nth_equalityI)
      show "length us = length (take (length us) (drop f str))" using assms(5) by simp
      fix q assume q: "q < length us"
      then have "f + q < length str" using assms(5) by simp
      from occurs_at_nth[OF o this] have "(p @ (us @ ys) @ zs) ! (length p + q) = str ! (f + q)"
        using True t(1) by (simp add: add.assoc[symmetric])
      then show "us ! q = take (length us) (drop f str) ! q"
        using q assms(5) by (simp add: nth_append)
    qed
    then show False using assms(4) by simp
  next
    case ne: False
    define q where "q = j - t"
    have q: "0 < q" "q < f" "j = t + q" using assms(6,7) ne by (auto simp: q_def)
    have "str \<noteq> []" using assms(2) by auto
    with occurs_at_nth[OF o, of 0] have "p ! j = hd str"
      using assms(7) t(1) by (auto simp: nth_append hd_conv_nth)
    moreover have "p ! j = str ! q"
      using arg_cong[OF t(2), of "\<lambda>l. l ! q"] q t(1) by simp
    moreover have "str ! q \<in> set (tl str)"
      using q assms(2) by (cases str) (auto simp: nth_Cons')
    ultimately show False using assms(3) by simp
  qed
qed

lemma findString_scan_ok:
  assumes "str \<noteq> []" and "scan_inv str p f t" and "f < length str"
  shows "scan_result str p xs t (findString_scan str xs f t)"
  using assms(2,3)
proof (induction "2 * length xs + (if f = 0 then 0 else 1)" arbitrary: p xs f t rule: less_induct)
  case less
  consider (Nil) "xs = []" | (none) "xs \<noteq> []" "f = 0" "memchr (hd str) xs = None"
    | (first) i where "xs \<noteq> []" "f = 0" "memchr (hd str) xs = Some i" | (cont) "xs \<noteq> []" "0 < f"
    by (cases "memchr (hd str) xs"; cases "xs = []"; cases "f = 0") auto
  then show ?case
  proof cases
    case Nil
    then show ?thesis using less.prems by (auto simp: scan_result_def)
  next
    case none
    have "\<not> occurs_at str (p @ xs @ zs) j" if "t \<le> j" "j < t + length xs" for j zs
      using no_occurrence_run[OF assms(1), of xs p j zs] that none(2,3) less.prems(1)
      by (simp add: memchr_None)
    then show ?thesis
      using none less.prems by (subst findString_scan.simps) (auto simp: scan_result_def)
  next
    case first
    note i = memchr_SomeD[OF first(3)]
    have t: "t = length p" using less.prems(1) first(2) by simp
    define us ys where "us = take i xs" and "ys = drop (Suc i) xs"
    have xs: "xs = us @ hd str # ys" using i id_take_nth_drop[of i xs] by (simp add: us_def ys_def)
    have us: "length us = i" "hd str \<notin> set us" using i by (auto simp: us_def in_set_conv_nth)
    have inv: "scan_inv str (p @ us @ [hd str]) 1 (t + i)"
      using t us(1) assms(1) by (cases str) (auto simp: scan_inv_def)
    have no: "\<not> occurs_at str (p @ xs @ zs) j" if "t \<le> j" "j < t + i" for j zs
      using no_occurrence_run[OF assms(1) us(2), of p j "hd str # ys @ zs"] that t us(1) xs by simp
    note st = findString_scan_first[OF first(1,3) assms(1), of t, folded ys_def]
    show ?thesis
    proof (cases "ys = []")
      case True
      have "findString_scan str xs f t = (if length str = 1 then length str else 1, t + i, [])"
        using st True by (simp add: first(2))
      moreover have "scan_inv str (p @ xs) 1 (t + i)" using inv xs True by simp
      moreover have "length str \<noteq> 1 \<Longrightarrow> 1 < length str" using assms(1) by (cases str) auto
      ultimately show ?thesis using no by (auto simp: scan_result_def)
    next
      case False
      have r1: "scan_result str (p @ us @ [hd str]) ys (t + i) (findString_scan str ys 1 (t + i))"
        if "1 < length str"
        using less.hyps[OF _ inv that] xs first(2) by simp
      show ?thesis
      proof (cases "length str = 1")
        case True
        then have "findString_scan str ys 1 (t + i) = (length str, t + i, ys)"
          using findString_scan_found[OF False, of 1 str "t + i"] by simp
        then have "findString_scan str xs f t = (length str, t + i, ys)" using st False by (simp add: first(2))
        moreover have "xs = (us @ [hd str]) @ ys" using xs by simp
        moreover have "scan_inv str (p @ us @ [hd str]) (length str) (t + i)" using inv True by simp
        ultimately show ?thesis using no unfolding scan_result_def by (auto simp del: append.assoc)
      next
        case ne: False
        then have "1 < length str" using assms(1) by (cases str) auto
        then have "scan_result str p xs t (findString_scan str ys 1 (t + i))"
          using r1 no xs by (intro scan_result_shift[of str p "us @ [hd str]" ys "t + i"]) auto
        then show ?thesis using False st by (simp add: first(2))
      qed
    qed
  next
    case cont
    define k where "k = min (length xs) (length str - f)"
    define us ys where "us = take k xs" and "ys = drop k xs"
    have xs: "xs = us @ ys" "length us = k" "0 < k" using cont less.prems(2) by (auto simp: us_def ys_def k_def)
    note st = findString_scan_found[OF cont, of str t, folded k_def, unfolded Let_def, folded us_def ys_def]
    show ?thesis
    proof (cases "us = take k (drop f str)")
      case True
      then have inv: "scan_inv str (p @ us) (f + k) t"
        using scan_inv_extend[OF less.prems(1), of us] xs(2) by simp
      show ?thesis
      proof (cases "length str \<le> f + k")
        case ge: True
        then have "f + k = length str" using less.prems(2) by (simp add: k_def)
        then have "findString_scan str xs f t = (length str, t, ys)" "scan_inv str (p @ us) (length str) t"
          using st True ge inv by simp_all
        then show ?thesis using xs(1) by (auto simp: scan_result_def)
      next
        case lt: False
        have "scan_result str (p @ us) ys t (findString_scan str ys (f + k) t)"
          using less.hyps[OF _ inv] lt xs cont(2) by auto
        then have "scan_result str p xs t (findString_scan str ys (f + k) t)"
          using xs by (intro scan_result_shift[of str p us ys t]) auto
        then show ?thesis using True lt st by simp
      qed
    next
      case False
      have t: "t + f = length p" "drop t p = take f str" using less.prems(1) by (auto simp: scan_inv_def)
      have ne: "us \<noteq> take (length us) (drop f str)" using False xs(2) by simp
      have fk: "f + length us \<le> length str" using less.prems(2) unfolding xs(2) k_def by linarith
      have "scan_result str (p @ []) xs (t + f) (findString_scan str xs 0 (t + f))"
        using less.hyps[of xs 0 p "t + f"] cont(2) t assms(1) by simp
      moreover have "\<not> occurs_at str (p @ xs @ zs) j"
        if "hd str \<notin> set (tl str)" "t \<le> j" "j < t + f" for j zs
        using no_occurrence_overlap[OF less.prems that(1) ne fk that(2,3), of ys zs]
        unfolding xs(1)[symmetric] .
      ultimately have "scan_result str p xs t (findString_scan str xs 0 (t + f))"
        by (intro scan_result_shift[of str p "[]" xs "t + f"]) auto
      then show ?thesis using False st by simp
    qed
  qed
qed

lemma scan_end:
  assumes "scan_inv str p f t" and "f < length str" and "t \<le> j"
  shows "\<not> occurs_at str p j"
proof
  assume "occurs_at str p j"
  from occurs_at_nth[OF this, of "length str - 1"] have "j + (length str - 1) < length p"
    using assms(2) by linarith
  then show False using assms unfolding scan_inv_def by linarith
qed

lemma scan_found: "scan_inv str p (length str) t \<Longrightarrow> occurs_at str (p @ zs) t"
  by (auto simp: scan_inv_def occurs_at_def)

text \<open>What the search promises about its result on the bytes \<open>xs\<close> from position \<open>t\<close> on.\<close>

definition search_result :: "byte list \<Rightarrow> byte list \<Rightarrow> nat \<Rightarrow> int \<Rightarrow> bool" where
  "search_result str xs t r \<longleftrightarrow>
     (r = -1 \<or> (\<exists>i. r = int i \<and> t \<le> i \<and> occurs_at str xs i)) \<and>
     (hd str \<notin> set (tl str) \<longrightarrow>
        (\<forall>j. t \<le> j \<and> (r = -1 \<or> int j < r) \<longrightarrow> \<not> occurs_at str xs j))"

lemma findString_loop_ok:
  assumes "str \<noteq> []" and "\<forall>s\<in>set ss. seg_ok h s" and "scan_inv str p f t" and "f < length str"
  shows "search_result str (p @ take len (segs_read h ss)) t (findString_loop h str len f t ss)"
  using assms(2-4)
proof (induction ss arbitrary: p f t len)
  case Nil
  then show ?case using scan_end[OF Nil(2,3)] by (auto simp: search_result_def)
next
  case (Cons s ss)
  have len: "length (seg_read h s) = Segment_readAvailable s" using Cons.prems(1) by (simp add: length_seg_read)
  define n where "n = min len (Segment_readAvailable s)"
  define x where "x = take n (seg_read h s)"
  define y where "y = take (len - n) (segs_read h ss)"
  have tk: "take len (segs_read h (s # ss)) = x @ y" "length x = n"
    using len by (auto simp: min_def n_def x_def y_def)
  obtain f' t' lft where r: "findString_scan str x f t = (f', t', lft)" by (cases "findString_scan str x f t")
  from findString_scan_ok[OF assms(1) Cons.prems(2,3), of x] obtain pre where
    scan: "x = pre @ lft" "scan_inv str (p @ pre) f' t'" "t \<le> t'" "f' < length str \<longrightarrow> lft = []"
      "hd str \<notin> set (tl str) \<longrightarrow> (\<forall>j zs. t \<le> j \<and> j < t' \<longrightarrow> \<not> occurs_at str (p @ x @ zs) j)"
    by (auto simp: scan_result_def r)
  have step: "findString_loop h str len f t (s # ss) =
      (if f' = length str then int t' else if len - (n - length lft) = 0 then -1
       else findString_loop h str (len - (n - length lft)) f' t' ss)"
    by (simp add: n_def[symmetric] x_def[symmetric] r Let_def)
  show ?case
  proof (cases "f' = length str")
    case True
    then have "occurs_at str (p @ x @ y) t'" using scan_found[of str "p @ pre" t' "lft @ y"] scan(1,2) by simp
    then show ?thesis
      using step True scan(3,5) unfolding tk(1) by (auto simp: search_result_def)
  next
    case False
    then have lt: "f' < length str" "lft = []" "x = pre" using scan(1,2,4) by (auto simp: scan_inv_def)
    have "search_result str (p @ x @ y) t' (findString_loop h str len f t (s # ss))"
    proof (cases "len - n = 0")
      case True
      then have "y = []" by (simp add: y_def)
      then show ?thesis
        using step True False lt scan_end[OF scan(2) lt(1)] by (auto simp: search_result_def)
    next
      case ne: False
      have "search_result str ((p @ x) @ y) t' (findString_loop h str (len - n) f' t' ss)"
        unfolding y_def using Cons.IH[of "p @ x" f' t' "len - n"] Cons.prems(1) scan(2) lt by simp
      then show ?thesis using step ne False lt(2) by simp
    qed
    then show ?thesis
      using scan(3,5) unfolding tk(1) search_result_def by (meson not_le order_trans)
  qed
qed

lemma Buffer_findString_ok:
  assumes "buf_ok h b" and "n \<le> m_readAvailable b" and "n \<noteq> npos" and "str \<noteq> []"
  obtains r where "Buffer_findString str n b h = Inr r" and "search_result str (take n (buf_read h b)) 0 r"
proof -
  have "search_result str ([] @ take n (segs_read h (m_segments b))) 0 (findString_loop h str n 0 0 (m_segments b))"
    using buf_ok_segs[OF assms(1)] assms(4) by (intro findString_loop_ok) auto
  then show thesis
    using that assms(2-4) by (simp add: Buffer_findString_def buf_read_def del: take_append)
qed

section \<open>getDelimited\<close>

text \<open>Taking the first \<open>i\<close> bytes and a delimiter of \<open>d\<close> bytes off the front.\<close>

lemma getDelimited_at_ok:
  assumes "buf_ok h b" and "checked dbg b" and "i + d \<le> m_readAvailable b"
  obtains b' where
    "getDelimited_at dbg (int i) d eof incl b h = Inr (take (if incl then i + d else i) (buf_read h b), b')"
    and "buf_ok h b'" and "checked dbg b'" and "buf_read h b' = drop (i + d) (buf_read h b)"
    and "buf_write h b' = buf_write h b"
proof (cases incl)
  case True
  obtain b' where "Buffer_consume dbg (i + d) b = Inr b'" "buf_ok h b'" "checked dbg b'"
      "buf_read h b' = drop (i + d) (buf_read h b)" "buf_write h b' = buf_write h b"
    by (rule Buffer_consume_ok[OF assms])
  then show thesis
    using that True Buffer_copyOut_ok[OF assms(1), of "i + d" 0] assms(3)
    by (simp add: getDelimited_at_def Let_def)
next
  case False
  have i: "i \<le> m_readAvailable b" using assms(3) by simp
  obtain b1 where b1: "Buffer_consume dbg i b = Inr b1" "buf_ok h b1" "checked dbg b1"
      "buf_read h b1 = drop i (buf_read h b)" "buf_write h b1 = buf_write h b"
    by (rule Buffer_consume_ok[OF assms(1,2) i])
  have "d \<le> m_readAvailable b1"
    using length_buf_read[OF b1(2)] length_buf_read[OF assms(1)] b1(4) assms(3) by simp
  then obtain b' where "Buffer_consume dbg d b1 = Inr b'" "buf_ok h b'" "checked dbg b'"
      "buf_read h b' = drop d (buf_read h b1)" "buf_write h b' = buf_write h b1"
    by (rule Buffer_consume_ok[OF b1(2,3)])
  then show thesis
    using that[of b'] False b1 Buffer_copyOut_ok[OF assms(1), of i 0] i
    by (simp add: getDelimited_at_def Let_def add.commute)
qed

lemma getDelimited_at_eof:
  assumes "buf_ok h b" and "checked dbg b"
  obtains b' where "getDelimited_at dbg (-1) d True incl b h = Inr (buf_read h b, b')"
    and "buf_ok h b'" and "checked dbg b'" and "buf_read h b' = []" and "buf_write h b' = buf_write h b"
proof -
  obtain b' where "Buffer_consume dbg (m_readAvailable b) b = Inr b'" "buf_ok h b'" "checked dbg b'"
      "buf_read h b' = drop (m_readAvailable b) (buf_read h b)" "buf_write h b' = buf_write h b"
    by (rule Buffer_consume_ok[OF assms order_refl])
  then show thesis
    using that Buffer_copyOut_ok[OF assms(1), of "m_readAvailable b" 0] length_buf_read[OF assms(1)]
    by (simp add: getDelimited_at_def Let_def)
qed

end
