(* ===== verification/Refinement.thy ===== *)
theory Refinement
  imports Prelude
begin

text \<open>
  The contract between a component and an abstract specification of it, as a locale: every
  operation that the specification allows succeeds, keeps the invariant and does what the
  specification says. What holds for one operation then holds for every sequence of them.
\<close>

text \<open>Running a sequence of operations up to the first error.\<close>

fun run_ops :: "('op \<Rightarrow> 's \<Rightarrow> 's result) \<Rightarrow> 'op list \<Rightarrow> 's \<Rightarrow> 's result" where
  "run_ops step [] s = Inr s"
| "run_ops step (a # as) s = andThen (step a s) (run_ops step as)"

text \<open>The specification allows each operation of the sequence in the state it meets.\<close>

fun all_enabled :: "('op \<Rightarrow> 'a \<Rightarrow> bool) \<Rightarrow> ('op \<Rightarrow> 'a \<Rightarrow> 'a) \<Rightarrow> 'op list \<Rightarrow> 'a \<Rightarrow> bool" where
  "all_enabled enabled spec [] x = True"
| "all_enabled enabled spec (a # as) x = (enabled a x \<and> all_enabled enabled spec as (spec a x))"

locale data_refinement =
  fixes step :: "'op \<Rightarrow> 's \<Rightarrow> 's result"
    and inv :: "'s \<Rightarrow> bool"
    and abs_of :: "'s \<Rightarrow> 'a"
    and enabled :: "'op \<Rightarrow> 'a \<Rightarrow> bool"
    and spec :: "'op \<Rightarrow> 'a \<Rightarrow> 'a"
  assumes step_refines: "inv s \<Longrightarrow> enabled a (abs_of s) \<Longrightarrow>
    \<exists>s'. step a s = Inr s' \<and> inv s' \<and> abs_of s' = spec a (abs_of s)"
begin

lemma run_refines:
  assumes "inv s" and "all_enabled enabled spec as (abs_of s)"
  shows "\<exists>s'. run_ops step as s = Inr s' \<and> inv s' \<and> abs_of s' = fold spec as (abs_of s)"
  using assms
proof (induction as arbitrary: s)
  case (Cons a as)
  then obtain s1 where "step a s = Inr s1" "inv s1" "abs_of s1 = spec a (abs_of s)"
    using step_refines by (metis all_enabled.simps(2))
  then show ?case using Cons.IH[of s1] Cons.prems(2) by simp
qed simp

end

text \<open>
  A transition system whose actions have guards: a sequence of actions, each allowed where it is taken, stays in the states
  that can be reached, and what every action keeps holds at its end.
\<close>

locale guarded_actions =
  fixes allows :: "'op \<Rightarrow> 's \<Rightarrow> bool"
    and act :: "'op \<Rightarrow> 's \<Rightarrow> 's"
    and reach :: "'s \<Rightarrow> bool"
  assumes reach_step: "reach s \<Longrightarrow> allows a s \<Longrightarrow> reach (act a s)"
begin

lemma reach_fold: "reach s \<Longrightarrow> all_enabled allows act as s \<Longrightarrow> reach (fold act as s)"
  by (induction as arbitrary: s) (auto intro: reach_step)

end

end
