(* ===== verification/Buffer_World.thy ===== *)
theory Buffer_World
  imports Buffer_Search Refinement
begin

text \<open>
  Several buffers in one memory. \<open>copyIn\<close> and assignment share arrays between buffers, and
  \<open>copyIn\<close> of bytes writes into them; still every buffer behaves like a byte string of its own.
  The buffers are named by numbers; the build is one without the self-check.
\<close>

record world =
  w_buf :: "nat \<Rightarrow> buffer"
  w_heap :: heap

datatype buffer_op =
    Op_copyInData nat "byte list"
  | Op_copyIn nat nat nat nat
  | Op_assign nat nat
  | Op_consume nat nat
  | Op_truncate nat nat
  | Op_clear nat bool
  | Op_compact nat
  | Op_reserve nat nat
  | Op_coalesce nat

definition set_buf :: "nat \<Rightarrow> world \<Rightarrow> buffer \<Rightarrow> world result" where
  "set_buf i w b = Inr (w\<lparr>w_buf := (w_buf w)(i := b)\<rparr>)"

definition set_both :: "nat \<Rightarrow> world \<Rightarrow> buffer \<times> heap \<Rightarrow> world result" where
  "set_both i w = (\<lambda>(b, h). Inr \<lparr>w_buf = (w_buf w)(i := b), w_heap = h\<rparr>)"

fun exec_op :: "buffer_op \<Rightarrow> world \<Rightarrow> world result" where
  "exec_op (Op_copyInData i bs) w = andThen (Buffer_copyInData False bs (w_buf w i) (w_heap w)) (set_both i w)"
| "exec_op (Op_copyIn i j n pos) w = andThen (Buffer_copyIn False (w_buf w j) n pos (w_buf w i)) (set_buf i w)"
| "exec_op (Op_assign i j) w = andThen (Buffer_assign False (w_buf w j) (w_buf w i)) (set_buf i w)"
| "exec_op (Op_consume i n) w = andThen (Buffer_consume False n (w_buf w i)) (set_buf i w)"
| "exec_op (Op_truncate i n) w = andThen (Buffer_truncate False n (w_buf w i)) (set_buf i w)"
| "exec_op (Op_clear i f) w = andThen (Buffer_clear False f (w_buf w i)) (set_buf i w)"
| "exec_op (Op_compact i) w = andThen (Buffer_compact False (w_buf w i)) (set_buf i w)"
| "exec_op (Op_reserve i n) w = andThen (Buffer_reserve False n (w_buf w i) (w_heap w)) (set_both i w)"
| "exec_op (Op_coalesce i) w =
     andThen (Buffer_readBuffer False npos True (w_buf w i) (w_heap w)) (\<lambda>(iov, p). set_both i w p)"

text \<open>The same operations on byte strings, and when the code allows them.\<close>

fun spec_op :: "buffer_op \<Rightarrow> (nat \<Rightarrow> byte list) \<Rightarrow> nat \<Rightarrow> byte list" where
  "spec_op (Op_copyInData i bs) x = x(i := x i @ bs)"
| "spec_op (Op_copyIn i j n pos) x = x(i := x i @ take n (drop pos (x j)))"
| "spec_op (Op_assign i j) x = x(i := x j)"
| "spec_op (Op_consume i n) x = x(i := drop n (x i))"
| "spec_op (Op_truncate i n) x = x(i := take n (x i))"
| "spec_op (Op_clear i f) x = x(i := [])"
| "spec_op (Op_compact i) x = x"
| "spec_op (Op_reserve i n) x = x"
| "spec_op (Op_coalesce i) x = x"

fun op_enabled :: "buffer_op \<Rightarrow> (nat \<Rightarrow> byte list) \<Rightarrow> bool" where
  "op_enabled (Op_copyInData i bs) x = (length bs < npos)"
| "op_enabled (Op_copyIn i j n pos) x = (i \<noteq> j \<and> n + pos \<le> length (x j) \<and> n \<noteq> npos)"
| "op_enabled (Op_assign i j) x = (i \<noteq> j \<and> length (x j) < npos)"
| "op_enabled (Op_consume i n) x = (n \<le> length (x i))"
| "op_enabled (Op_truncate i n) x = (n \<le> length (x i))"
| "op_enabled (Op_clear i f) x = True"
| "op_enabled (Op_compact i) x = True"
| "op_enabled (Op_reserve i n) x = (2 * n < npos)"
| "op_enabled (Op_coalesce i) x = (length (x i) < npos)"

text \<open>No buffer can write what another one covers.\<close>

definition world_ok :: "world \<Rightarrow> bool" where
  "world_ok w \<longleftrightarrow> (\<forall>i. buf_ok (w_heap w) (w_buf w i)) \<and>
     (\<forall>i j. i \<noteq> j \<longrightarrow> buf_wcells (w_buf w i) \<inter> buf_cells (w_buf w j) = {})"

definition world_abs :: "world \<Rightarrow> nat \<Rightarrow> byte list" where
  "world_abs w i = buf_read (w_heap w) (w_buf w i)"

text \<open>
  Replacing one buffer. The new one may write only where the old one could or in fresh memory,
  may cover besides that only cells no buffer can write, and memory changed only where the
  old one could write.
\<close>

lemma world_update:
  assumes "world_ok w" and "buf_ok h' b'" and "heap_frame (buf_wcells (w_buf w i)) (w_heap w) h'"
    and "buf_wcells b' \<subseteq> buf_wcells (w_buf w i) \<union> fresh_cells (w_heap w)"
    and "\<forall>j. j \<noteq> i \<longrightarrow> buf_cells b' \<inter> buf_wcells (w_buf w j) = {}"
  shows "world_ok \<lparr>w_buf = (w_buf w)(i := b'), w_heap = h'\<rparr>"
    and "world_abs \<lparr>w_buf = (w_buf w)(i := b'), w_heap = h'\<rparr> = (world_abs w)(i := buf_read h' b')"
proof -
  have ok: "\<And>j. buf_ok (w_heap w) (w_buf w j)"
    and ap: "\<And>i j. i \<noteq> j \<Longrightarrow> buf_wcells (w_buf w i) \<inter> buf_cells (w_buf w j) = {}"
    using assms(1) by (auto simp: world_ok_def)
  have other: "buf_ok h' (w_buf w j)" "buf_read h' (w_buf w j) = buf_read (w_heap w) (w_buf w j)"
    if "j \<noteq> i" for j
    using buf_frame[OF assms(3) ok ap] that by auto
  have "buf_wcells b' \<inter> buf_cells (w_buf w j) = {}" if "j \<noteq> i" for j
    using assms(4) ap[of i j] that buf_cells_not_fresh[OF ok[of j]] by auto
  then show "world_ok \<lparr>w_buf = (w_buf w)(i := b'), w_heap = h'\<rparr>"
    using other(1) assms(2,5) ap by (auto simp: world_ok_def)
  show "world_abs \<lparr>w_buf = (w_buf w)(i := b'), w_heap = h'\<rparr> = (world_abs w)(i := buf_read h' b')"
    using other(2) by (auto simp: world_abs_def)
qed

text \<open>An operation that stays inside the memory of its buffer or takes fresh memory.\<close>

lemma world_update_own:
  assumes "world_ok w" and "buf_ok h' b'" and "heap_frame (buf_wcells (w_buf w i)) (w_heap w) h'"
    and "buf_wcells b' \<subseteq> buf_wcells (w_buf w i) \<union> fresh_cells (w_heap w)"
    and "buf_cells b' \<subseteq> buf_cells (w_buf w i) \<union> fresh_cells (w_heap w)"
  shows "world_ok \<lparr>w_buf = (w_buf w)(i := b'), w_heap = h'\<rparr>"
    and "world_abs \<lparr>w_buf = (w_buf w)(i := b'), w_heap = h'\<rparr> = (world_abs w)(i := buf_read h' b')"
proof -
  have "buf_cells b' \<inter> buf_wcells (w_buf w j) = {}" if "j \<noteq> i" for j
    using assms(1,5) that buf_cells_not_fresh[of "w_heap w" "w_buf w j"] buf_wcells_subset[of "w_buf w j"]
    unfolding world_ok_def by blast
  then show "world_ok \<lparr>w_buf = (w_buf w)(i := b'), w_heap = h'\<rparr>"
    "world_abs \<lparr>w_buf = (w_buf w)(i := b'), w_heap = h'\<rparr> = (world_abs w)(i := buf_read h' b')"
    using world_update[OF assms(1-4)] by auto
qed

text \<open>An operation that takes over readable cells of another buffer.\<close>

lemma world_update_share:
  assumes "world_ok w" and "buf_ok (w_heap w) b'" and "i \<noteq> j"
    and "buf_wcells b' \<subseteq> buf_wcells (w_buf w i)"
    and "buf_cells b' \<subseteq> buf_cells (w_buf w i) \<union> (buf_cells (w_buf w j) - buf_wcells (w_buf w j))"
  shows "world_ok (w\<lparr>w_buf := (w_buf w)(i := b')\<rparr>)"
    and "world_abs (w\<lparr>w_buf := (w_buf w)(i := b')\<rparr>) = (world_abs w)(i := buf_read (w_heap w) b')"
proof -
  have eq: "w\<lparr>w_buf := (w_buf w)(i := b')\<rparr> = \<lparr>w_buf = (w_buf w)(i := b'), w_heap = w_heap w\<rparr>" by simp
  have "buf_cells b' \<inter> buf_wcells (w_buf w k) = {}" if "k \<noteq> i" for k
    using assms(1,5) that unfolding world_ok_def by (cases "k = j") blast+
  then show "world_ok (w\<lparr>w_buf := (w_buf w)(i := b')\<rparr>)"
    "world_abs (w\<lparr>w_buf := (w_buf w)(i := b')\<rparr>) = (world_abs w)(i := buf_read (w_heap w) b')"
    unfolding eq using world_update[OF assms(1,2) heap_frame_refl, of i] assms(4) by auto
qed

lemma world_upd_eq: "w\<lparr>w_buf := f\<rparr> = \<lparr>w_buf = f, w_heap = w_heap w\<rparr>"
  by simp

lemma world_abs_same: "(world_abs w)(i := buf_read (w_heap w) (w_buf w i)) = world_abs w"
  by (auto simp: world_abs_def)

lemma exec_op_ok:
  assumes "world_ok w" and "op_enabled a (world_abs w)"
  shows "\<exists>w'. exec_op a w = Inr w' \<and> world_ok w' \<and> world_abs w' = spec_op a (world_abs w)"
proof -
  have ok: "buf_ok (w_heap w) (w_buf w i)" for i using assms(1) by (simp add: world_ok_def)
  have len: "length (world_abs w i) = m_readAvailable (w_buf w i)" for i
    using length_buf_read[OF ok] by (simp add: world_abs_def)
  have ch: "checked False b" for b by (simp add: checked_def)
  note own = world_update_own[OF assms(1)]
  note own0 = world_update_own[OF assms(1) _ heap_frame_refl]
  show ?thesis
  proof (cases a)
    case (Op_copyInData i bs)
    obtain b' h' where r: "Buffer_copyInData False bs (w_buf w i) (w_heap w) = Inr (b', h')" "buf_ok h' b'"
        "buf_read h' b' = buf_read (w_heap w) (w_buf w i) @ bs"
        "heap_frame (buf_wcells (w_buf w i)) (w_heap w) h'"
        "buf_cells b' \<subseteq> buf_cells (w_buf w i) \<union> fresh_cells (w_heap w)" "buf_wcells b' \<subseteq> buf_wcells (w_buf w i)"
      by (rule Buffer_copyInData_ok[OF ok ch]) (use assms(2) Op_copyInData in auto)
    then show ?thesis using own[OF r(2,4) _ r(5)] by (auto simp: Op_copyInData set_both_def world_abs_def)
  next
    case (Op_copyIn i j n pos)
    have ij: "i \<noteq> j" and dis: "buf_wcells (w_buf w i) \<inter> buf_cells (w_buf w j) = {}"
      and n: "n + pos \<le> m_readAvailable (w_buf w j)" "n \<noteq> npos"
      using assms Op_copyIn len by (auto simp: world_ok_def)
    obtain b' where r: "Buffer_copyIn False (w_buf w j) n pos (w_buf w i) = Inr b'" "buf_ok (w_heap w) b'"
        "buf_read (w_heap w) b' = buf_read (w_heap w) (w_buf w i) @ take n (drop pos (buf_read (w_heap w) (w_buf w j)))"
        "buf_cells b' \<subseteq> buf_cells (w_buf w i) \<union> (buf_cells (w_buf w j) - buf_wcells (w_buf w j))"
        "buf_wcells b' \<subseteq> buf_wcells (w_buf w i)"
      by (rule Buffer_copyIn_ok[OF ok ch ok dis n])
    then show ?thesis using world_update_share[OF assms(1) r(2) ij r(5,4)]
      by (auto simp: Op_copyIn set_buf_def world_abs_def)
  next
    case (Op_assign i j)
    have ij: "i \<noteq> j" and n: "m_readAvailable (w_buf w j) < npos" using assms(2) Op_assign len by auto
    obtain b' where r: "Buffer_assign False (w_buf w j) (w_buf w i) = Inr b'" "buf_ok (w_heap w) b'"
        "buf_read (w_heap w) b' = buf_read (w_heap w) (w_buf w j)"
        "buf_cells b' \<subseteq> buf_cells (w_buf w j) - buf_wcells (w_buf w j)" "buf_wcells b' = {}"
      by (rule Buffer_assign_ok[OF ok ch ok n])
    then show ?thesis using world_update_share[OF assms(1) r(2) ij]
      by (auto simp: Op_assign set_buf_def world_abs_def)
  next
    case (Op_consume i n)
    have n: "n \<le> m_readAvailable (w_buf w i)" using assms(2) Op_consume len by simp
    show ?thesis
      by (rule Buffer_consume_ok[OF ok ch n])
        (use own0 in \<open>auto simp: Op_consume set_buf_def world_abs_def world_upd_eq le_supI1\<close>)
  next
    case (Op_truncate i n)
    have n: "n \<le> m_readAvailable (w_buf w i)" using assms(2) Op_truncate len by simp
    show ?thesis
      by (rule Buffer_truncate_ok[OF ok ch n])
        (use own0 in \<open>auto simp: Op_truncate set_buf_def world_abs_def world_upd_eq le_supI1\<close>)
  next
    case (Op_clear i f)
    show ?thesis
      by (rule Buffer_clear_ok[OF ok[of i] ch, where flag = f])
        (use own0 in \<open>auto simp: Op_clear set_buf_def world_abs_def world_upd_eq le_supI1\<close>)
  next
    case (Op_compact i)
    show ?thesis
      by (rule Buffer_compact_ok[OF ok[of i] ch])
        (use own0 in \<open>auto simp: Op_compact set_buf_def world_abs_def world_upd_eq le_supI1\<close>)
  next
    case (Op_reserve i n)
    have n: "2 * n < npos" using assms(2) Op_reserve by simp
    obtain b' h' where r: "Buffer_reserve False n (w_buf w i) (w_heap w) = Inr (b', h')" "buf_ok h' b'"
        "heap_frame {} (w_heap w) h'" "buf_read h' b' = buf_read (w_heap w) (w_buf w i)"
        "buf_cells b' \<subseteq> buf_cells (w_buf w i) \<union> fresh_cells (w_heap w)"
        "buf_wcells b' \<subseteq> buf_wcells (w_buf w i) \<union> fresh_cells (w_heap w)"
      by (rule Buffer_reserve_ok[OF ok ch n])
    then show ?thesis using own[OF r(2) heap_frame_mono[OF r(3)] r(6,5)]
      by (auto simp: Op_reserve set_both_def world_abs_def)
  next
    case (Op_coalesce i)
    have n: "m_readAvailable (w_buf w i) < npos" using assms(2) Op_coalesce len by simp
    obtain iov b' h' where r: "Buffer_readBuffer False (m_readAvailable (w_buf w i)) True (w_buf w i) (w_heap w) = Inr (iov, b', h')"
        "buf_ok h' b'" "buf_read h' b' = buf_read (w_heap w) (w_buf w i)"
        "heap_frame (buf_wcells (w_buf w i)) (w_heap w) h'"
        "buf_cells b' \<subseteq> buf_cells (w_buf w i) \<union> fresh_cells (w_heap w)" "buf_wcells b' \<subseteq> buf_wcells (w_buf w i)"
      by (rule Buffer_readBuffer_ok[OF ok ch order_refl n])
    have "Buffer_readBuffer False npos True (w_buf w i) (w_heap w) =
        Buffer_readBuffer False (m_readAvailable (w_buf w i)) True (w_buf w i) (w_heap w)"
      by (simp add: Buffer_readBuffer_def Let_def)
    then show ?thesis using r own[OF r(2,4) _ r(5)]
      by (auto simp: Op_coalesce set_both_def world_abs_same)
  qed
qed

interpretation bufs: data_refinement exec_op world_ok world_abs op_enabled spec_op
  by unfold_locales (rule exec_op_ok)

end
