(* ===== verification/Buffer_Props.thy ===== *)
theory Buffer_Props
  imports Buffer_World
begin

text \<open>
  The properties of \<open>struct Buffer\<close>: what a client may rely on, over the lemmas of the
  theories before. A small memory with two buffers serves as the concrete case of each.
\<close>

section \<open>A debug build with one buffer\<close>

text \<open>
  With the self-check compiled in, a client that only adds bytes, reserves, compacts, clears,
  consumes and coalesces never meets a failing \<open>invariant()\<close>.
\<close>

datatype checked_op =
    Chk_copyInData "byte list" | Chk_consume nat | Chk_clear bool | Chk_compact | Chk_reserve nat | Chk_coalesce

fun exec_checked :: "checked_op \<Rightarrow> buffer \<times> heap \<Rightarrow> (buffer \<times> heap) result" where
  "exec_checked (Chk_copyInData bs) (b, h) = Buffer_copyInData True bs b h"
| "exec_checked (Chk_consume n) (b, h) = andThen (Buffer_consume True n b) (\<lambda>b'. Inr (b', h))"
| "exec_checked (Chk_clear f) (b, h) = andThen (Buffer_clear True f b) (\<lambda>b'. Inr (b', h))"
| "exec_checked Chk_compact (b, h) = andThen (Buffer_compact True b) (\<lambda>b'. Inr (b', h))"
| "exec_checked (Chk_reserve n) (b, h) = Buffer_reserve True n b h"
| "exec_checked Chk_coalesce (b, h) = andThen (Buffer_readBuffer True npos True b h) (\<lambda>(iov, p). Inr p)"

fun checked_spec :: "checked_op \<Rightarrow> byte list \<Rightarrow> byte list" where
  "checked_spec (Chk_copyInData bs) x = x @ bs"
| "checked_spec (Chk_consume n) x = drop n x"
| "checked_spec (Chk_clear f) x = []"
| "checked_spec Chk_compact x = x"
| "checked_spec (Chk_reserve n) x = x"
| "checked_spec Chk_coalesce x = x"

fun checked_enabled :: "checked_op \<Rightarrow> byte list \<Rightarrow> bool" where
  "checked_enabled (Chk_copyInData bs) x = (length bs < npos)"
| "checked_enabled (Chk_consume n) x = (n \<le> length x)"
| "checked_enabled (Chk_reserve n) x = (2 * n < npos)"
| "checked_enabled Chk_coalesce x = (length x < npos)"
| "checked_enabled _ x = True"

fun checked_ok :: "buffer \<times> heap \<Rightarrow> bool" where
  "checked_ok (b, h) = (buf_ok h b \<and> checked True b)"

fun checked_abs :: "buffer \<times> heap \<Rightarrow> byte list" where
  "checked_abs (b, h) = buf_read h b"

lemma Buffer_readBuffer_all:
  "Buffer_readBuffer dbg npos c b h = Buffer_readBuffer dbg (m_readAvailable b) c b h"
  by (simp add: Buffer_readBuffer_def Let_def)

lemma exec_checked_ok:
  assumes "checked_ok s" and "checked_enabled a (checked_abs s)"
  shows "\<exists>s'. exec_checked a s = Inr s' \<and> checked_ok s' \<and> checked_abs s' = checked_spec a (checked_abs s)"
proof -
  obtain b h where s: "s = (b, h)" by (cases s)
  have ok: "buf_ok h b" and ch: "checked True b" using assms(1) s by simp_all
  note len = length_buf_read[OF ok]
  show ?thesis
  proof (cases a)
    case (Chk_copyInData bs)
    show ?thesis
      by (rule Buffer_copyInData_ok[OF ok ch, of bs]) (use assms(2) s Chk_copyInData in auto)
  next
    case (Chk_consume n)
    show ?thesis
      by (rule Buffer_consume_ok[OF ok ch, of n]) (use assms(2) s Chk_consume len in auto)
  next
    case (Chk_clear f)
    show ?thesis by (rule Buffer_clear_ok[OF ok ch, where flag = f]) (use s Chk_clear in auto)
  next
    case Chk_compact
    show ?thesis by (rule Buffer_compact_ok[OF ok ch]) (use s Chk_compact in auto)
  next
    case (Chk_reserve n)
    show ?thesis by (rule Buffer_reserve_ok[OF ok ch, of n]) (use assms(2) s Chk_reserve in auto)
  next
    case Chk_coalesce
    show ?thesis
      by (rule Buffer_readBuffer_ok[OF ok ch order_refl])
        (use assms(2) s Chk_coalesce len in \<open>auto simp: Buffer_readBuffer_all\<close>)
  qed
qed

interpretation dbg_buf: data_refinement exec_checked checked_ok checked_abs checked_enabled checked_spec
  by unfold_locales (rule exec_checked_ok)

section \<open>A concrete memory\<close>

definition demo_heap :: heap where
  "demo_heap = \<lparr>hp_mem = (\<lambda>_. [])(0 := ''abcdefgh'', 1 := ''xyz''), hp_next = 2, hp_junk = \<lambda>_ _. CHR ''?''\<rparr>"

text \<open>\<open>abc\<close>, then \<open>x\<close> with two bytes of space behind it.\<close>

definition demo_buf :: buffer where
  "demo_buf = \<lparr>m_front = [\<lparr>m_writeIndex = 3, m_data = \<lparr>m_array = 0, m_start = 0, m_length = 3\<rparr>\<rparr>],
     m_back = [\<lparr>m_writeIndex = 1, m_data = \<lparr>m_array = 1, m_start = 0, m_length = 3\<rparr>\<rparr>],
     m_readAvailable = 4, m_writeAvailable = 2\<rparr>"

lemmas demo_defs = demo_heap_def demo_buf_def buf_ok_def segs_ok_def seg_ok_def segment_defs npos_def
  apart_list_def seg_apart_def cells_def wcells_def checked_def merged_def adjoins_def

lemma demo_ok: "buf_ok demo_heap demo_buf" and demo_checked: "checked dbg demo_buf"
  by (auto simp: demo_defs)

lemma demo_read: "buf_read demo_heap demo_buf = ''abcx''"
  by (simp add: demo_heap_def demo_buf_def buf_read_def seg_read_def mem_read_def)

lemma demo_ra: "m_readAvailable demo_buf = 4"
  by (simp add: demo_buf_def)

lemma demo_write: "buf_write demo_heap demo_buf = ''yz''"
  by (simp add: demo_heap_def demo_buf_def buf_write_def seg_write_def mem_read_def)

section \<open>Properties\<close>

text \<open>
  C1. Buffers that share memory behave like separate byte strings. From any memory in which no
  buffer can write what another covers, every sequence of \<open>copyIn\<close> of bytes, \<open>copyIn\<close> of a
  part of another buffer, assignment, \<open>consume\<close>, \<open>truncate\<close>, \<open>clear\<close>, \<open>compact\<close>,
  \<open>reserve\<close> and coalescing \<open>readBuffer\<close> whose arguments are in range succeeds, without an
  assertion failure, an invalid iterator or an endless loop, and changes the readable bytes of
  each buffer exactly as the same operations change strings.
\<close>

theorem buffers_refine_strings:
  assumes "world_ok w" and "all_enabled op_enabled spec_op ops (world_abs w)"
  shows "\<exists>w'. run_ops exec_op ops w = Inr w' \<and> world_ok w' \<and>
     world_abs w' = fold spec_op ops (world_abs w)"
  using assms by (rule bufs.run_refines)

definition demo_world :: world where
  "demo_world = \<lparr>w_buf = (\<lambda>_. Buffer_empty)(0 := demo_buf), w_heap = demo_heap\<rparr>"

lemma demo_world_ok: "world_ok demo_world"
  using demo_ok by (auto simp: world_ok_def demo_world_def)

lemma demo_world_abs: "world_abs demo_world = (\<lambda>_. [])(0 := ''abcx'')"
  by (auto simp: world_abs_def demo_world_def demo_read)

theorem buffers_refine_strings_witness:
  "\<exists>w'. run_ops exec_op [Op_assign 1 0, Op_copyInData 0 ''12'', Op_copyIn 2 0 3 2, Op_truncate 0 1,
      Op_copyInData 0 ''!'', Op_consume 1 1] demo_world = Inr w' \<and> world_ok w' \<and>
    world_abs w' 0 = ''a!'' \<and> world_abs w' 1 = ''bcx'' \<and> world_abs w' 2 = ''cx1''"
  using buffers_refine_strings[of demo_world "[Op_assign 1 0, Op_copyInData 0 ''12'', Op_copyIn 2 0 3 2,
      Op_truncate 0 1, Op_copyInData 0 ''!'', Op_consume 1 1]"] demo_world_ok
  by (auto simp: demo_world_abs npos_def)

text \<open>
  C23. Starting from empty buffers, any sequence of allowed operations leads to a state in which every segment lies inside
  the array it refers to with its write index inside the segment, the two counters of every buffer are what its
  segments hold and have room for, the segments before the write position are full and the one at it is not, and no
  buffer can write to memory that another one covers.
\<close>

theorem buffers_stay_well_formed:
  assumes "all_enabled op_enabled spec_op ops (\<lambda>_. [])"
  shows "\<exists>w. run_ops exec_op ops \<lparr>w_buf = (\<lambda>_. Buffer_empty), w_heap = h\<rparr> = Inr w \<and>
    (\<forall>i. (\<forall>s \<in> set (m_segments (w_buf w i)). m_writeIndex s \<le> m_length (m_data s) \<and>
            m_start (m_data s) + m_length (m_data s) \<le> length (hp_mem (w_heap w) (m_array (m_data s)))) \<and>
         m_readAvailable (w_buf w i) = sum_list (map Segment_readAvailable (m_segments (w_buf w i))) \<and>
         m_writeAvailable (w_buf w i) = sum_list (map Segment_writeAvailable (m_segments (w_buf w i))) \<and>
         (\<forall>s \<in> set (m_front (w_buf w i)). Segment_writeAvailable s = 0) \<and>
         (m_back (w_buf w i) = [] \<or> Segment_writeAvailable (hd (m_back (w_buf w i))) \<noteq> 0)) \<and>
    (\<forall>i j. i \<noteq> j \<longrightarrow> buf_wcells (w_buf w i) \<inter> buf_cells (w_buf w j) = {})"
proof -
  let ?w0 = "\<lparr>w_buf = (\<lambda>_. Buffer_empty), w_heap = h\<rparr>"
  have "buf_wcells Buffer_empty = {}" by (simp add: buf_wcells_def Buffer_empty_def)
  then have "world_ok ?w0" "world_abs ?w0 = (\<lambda>_. [])" by (auto simp: world_ok_def world_abs_def fun_eq_iff)
  then obtain w where w: "run_ops exec_op ops ?w0 = Inr w" "world_ok w" using bufs.run_refines[of ?w0 ops] assms by auto
  then show ?thesis by (auto simp: world_ok_def buf_ok_def segs_ok_def seg_ok_def Segment_invariant_def)
qed

theorem buffers_stay_well_formed_witness:
  "\<exists>w. run_ops exec_op [Op_copyInData 0 ''abcd'', Op_copyIn 1 0 2 1, Op_consume 0 1, Op_copyInData 1 ''!'']
      \<lparr>w_buf = (\<lambda>_. Buffer_empty), w_heap = demo_heap\<rparr> = Inr w \<and>
    buf_wcells (w_buf w 0) \<inter> buf_cells (w_buf w 1) = {}"
proof -
  have "all_enabled op_enabled spec_op [Op_copyInData 0 ''abcd'', Op_copyIn 1 0 2 1, Op_consume 0 1, Op_copyInData 1 ''!''] (\<lambda>_. [])"
    by (simp add: npos_def)
  from buffers_stay_well_formed[OF this, of demo_heap] show ?thesis by (metis zero_neq_one)
qed

text \<open>
  C22. In a debug build, any sequence of \<open>copyIn\<close> of bytes, \<open>consume\<close>, \<open>clear\<close>, \<open>compact\<close>,
  \<open>reserve\<close> and coalescing \<open>readBuffer\<close> on one buffer passes every call of
  \<open>Buffer::invariant()\<close>, and the readable bytes are those of the string operations.
\<close>

theorem self_check_never_fails:
  assumes "buf_ok h b" and "merged (m_segments b)"
    and "all_enabled checked_enabled checked_spec ops (buf_read h b)"
  shows "\<exists>b' h'. run_ops exec_checked ops (b, h) = Inr (b', h') \<and> Buffer_invariant b' \<and>
     buf_read h' b' = fold checked_spec ops (buf_read h b)"
proof -
  have "checked_ok (b, h)" using assms(1,2) by (simp add: checked_def)
  from dbg_buf.run_refines[OF this, of ops] obtain b' h' where
    r: "run_ops exec_checked ops (b, h) = Inr (b', h')" "checked_ok (b', h')"
      "checked_abs (b', h') = fold checked_spec ops (buf_read h b)"
    using assms(3) by auto
  then have "Buffer_invariant b'"
    using buf_ok_invariant[of h' b'] by (auto simp: checked_def merged_weakly)
  then show ?thesis using r by auto
qed

theorem self_check_never_fails_witness:
  "\<exists>b' h'. run_ops exec_checked [Chk_consume 2, Chk_copyInData ''1234'', Chk_coalesce, Chk_reserve 9]
      (demo_buf, demo_heap) = Inr (b', h') \<and> Buffer_invariant b' \<and> buf_read h' b' = ''cx1234''"
proof -
  have "merged (m_segments demo_buf)" using demo_checked[of True] by (simp add: checked_def)
  from self_check_never_fails[OF demo_ok this, of "[Chk_consume 2, Chk_copyInData ''1234'', Chk_coalesce, Chk_reserve 9]"]
  show ?thesis by (simp add: demo_read npos_def)
qed

text \<open>
  The way the streams receive data: a slice of \<open>n\<close> bytes asked for with \<open>writeBuffer\<close>,
  filled with at most \<open>n\<close> bytes and \<open>produce\<close>d, appends exactly those bytes, in either build.
\<close>

lemma writeBuffer_produce_appends:
  assumes "buf_ok h b" and "checked dbg b" and "0 < n" and "2 * n < npos" and "length bs \<le> n"
  shows "\<exists>d b1 h1 h2 b2. Buffer_writeBuffer dbg n True b h = Inr (Some d, b1, h1) \<and> m_length d = n \<and>
     memcpy (m_array d) (m_start d) bs h1 = Inr h2 \<and> Buffer_produce dbg (length bs) b1 = Inr b2 \<and>
     buf_ok h2 b2 \<and> checked dbg b2 \<and> buf_read h2 b2 = buf_read h b @ bs"
proof -
  obtain d b1 h1 where w: "Buffer_writeBuffer dbg n True b h = Inr (Some d, b1, h1)" "buf_ok h1 b1"
      "checked dbg b1" "buf_read h1 b1 = buf_read h b" "m_length d = n" "m_back b1 \<noteq> []"
      "n \<le> Segment_writeAvailable (hd (m_back b1))"
      "m_array d = m_array (Segment_writeBuffer (hd (m_back b1)))"
      "m_start d = m_start (Segment_writeBuffer (hd (m_back b1)))"
    by (rule Buffer_writeBuffer_ok[OF assms(1,2,4,3)])
  have bk: "m_back b1 = hd (m_back b1) # tl (m_back b1)" using w(6) by simp
  have le: "length bs \<le> Segment_writeAvailable (hd (m_back b1))" using assms(5) w(7) by simp
  obtain h2 where m: "memcpy (m_array d) (m_start d) bs h1 = Inr h2" "buf_ok h2 b1"
      "buf_read h2 b1 = buf_read h1 b1" "buf_write h2 b1 = bs @ drop (length bs) (buf_write h1 b1)"
      "length bs \<le> m_writeAvailable b1"
    unfolding w(8,9) by (rule memcpy_write_ok[OF w(2) bk le])
  show ?thesis
    by (rule Buffer_produce_ok[OF m(2) w(3) m(5)]) (use w m in auto)
qed

lemma writeBuffer_produce_appends_example:
  "\<exists>d b1 h1 h2 b2. Buffer_writeBuffer True 5 True demo_buf demo_heap = Inr (Some d, b1, h1) \<and>
     m_length d = 5 \<and> memcpy (m_array d) (m_start d) ''123'' h1 = Inr h2 \<and>
     Buffer_produce True (length ''123'') b1 = Inr b2 \<and>
     buf_ok h2 b2 \<and> checked True b2 \<and> buf_read h2 b2 = ''abcx123''"
  using writeBuffer_produce_appends[OF demo_ok demo_checked, of 5 "''123''" True]
  by (simp add: demo_read npos_def)

text \<open>
  C37. \<open>readBuffer\<close> with \<open>coalesce\<close> returns one slice that holds the first \<open>n\<close> readable bytes,
  wherever they were before; the readable bytes do not change, and memory changes only in the
  writable space of the buffer.
\<close>

theorem readBuffer_coalesces:
  assumes "buf_ok h b" and "checked dbg b" and "n \<le> m_readAvailable b" and "m_readAvailable b < npos"
  shows "\<exists>iov b' h'. Buffer_readBuffer dbg n True b h = Inr (iov, b', h') \<and> buf_ok h' b' \<and> checked dbg b' \<and>
     iov_bytes h' iov = take n (buf_read h b) \<and> buf_read h' b' = buf_read h b \<and>
     heap_frame (buf_wcells b) h h'"
  by (rule Buffer_readBuffer_ok[OF assms]) auto

theorem readBuffer_coalesces_witness:
  "\<exists>iov b' h'. Buffer_readBuffer True 4 True demo_buf demo_heap = Inr (iov, b', h') \<and> buf_ok h' b' \<and>
     iov_bytes h' iov = ''abcx'' \<and> buf_read h' b' = ''abcx''"
  using readBuffer_coalesces[OF demo_ok demo_checked, of 4 True]
  by (auto simp: demo_read npos_def demo_ra)

text \<open>
  \<open>getDelimited\<close> of a character returns the bytes before its first occurrence, with the
  delimiter if asked, and leaves the bytes after it. Without an occurrence it returns all bytes
  if the end counts as a delimiter and throws \<open>UnexpectedEofException\<close> otherwise, in which
  case nothing is taken.
\<close>

lemma getDelimited_splits:
  assumes "buf_ok h b" and "checked dbg b" and "m_readAvailable b < npos"
  shows "case memchr c (buf_read h b) of
      Some i \<Rightarrow> \<exists>b'. Buffer_getDelimited dbg c eof incl b h =
                  Inr (take (if incl then i + 1 else i) (buf_read h b), b') \<and>
                buf_ok h b' \<and> buf_read h b' = drop (i + 1) (buf_read h b)
    | None \<Rightarrow> if eof then \<exists>b'. Buffer_getDelimited dbg c eof incl b h = Inr (buf_read h b, b') \<and>
                             buf_ok h b' \<and> buf_read h b' = []
              else Buffer_getDelimited dbg c eof incl b h = Inl UnexpectedEof"
proof -
  have "Buffer_find c npos b h = Buffer_find c (m_readAvailable b) b h"
    by (simp add: Buffer_find_def Let_def)
  also have "\<dots> = Inr (index_result (memchr c (buf_read h b)))"
    using Buffer_find_ok[OF assms(1) order_refl, of c] assms(3) length_buf_read[OF assms(1)] by simp
  finally have find: "Buffer_find c npos b h = Inr (index_result (memchr c (buf_read h b)))" .
  show ?thesis
  proof (cases "memchr c (buf_read h b)")
    case (Some i)
    have i: "i + 1 \<le> m_readAvailable b"
      using memchr_SomeD[OF Some] length_buf_read[OF assms(1)] by simp
    show ?thesis
      by (rule getDelimited_at_ok[OF assms(1,2) i, where eof = eof and incl = incl])
        (use Some find in \<open>auto simp: Buffer_getDelimited_def index_result_def\<close>)
  next
    case None
    show ?thesis
    proof (cases eof)
      case True
      show ?thesis
        by (rule getDelimited_at_eof[OF assms(1,2), where d = 1 and incl = incl])
          (use None True find in \<open>auto simp: Buffer_getDelimited_def index_result_def\<close>)
    next
      case False
      then show ?thesis
        using None find by (simp add: Buffer_getDelimited_def index_result_def getDelimited_at_def)
    qed
  qed
qed

lemma getDelimited_splits_example:
  "\<exists>b'. Buffer_getDelimited True CHR ''c'' False True demo_buf demo_heap = Inr (''abc'', b') \<and>
     buf_ok demo_heap b' \<and> buf_read demo_heap b' = ''x''"
  using getDelimited_splits[OF demo_ok demo_checked, where dbg = True and c = "CHR ''c''" and eof = False and incl = True]
  by (simp add: demo_read demo_ra npos_def)

text \<open>
  C38. \<open>find\<close> of a string is sound: an offset it returns is the position of an occurrence in
  the first \<open>n\<close> bytes, across segments. For a string whose first character does not come
  again in it, as in a \<open>CRLF\<close>, it is also complete: the offset is that of the first occurrence,
  and \<open>-1\<close> means that there is none.
\<close>

theorem findString_correct:
  assumes "buf_ok h b" and "n \<le> m_readAvailable b" and "n \<noteq> npos" and "str \<noteq> []"
  shows "\<exists>r. Buffer_findString str n b h = Inr r \<and>
     (r = -1 \<or> (\<exists>i. r = int i \<and> occurs_at str (take n (buf_read h b)) i)) \<and>
     (hd str \<notin> set (tl str) \<longrightarrow>
        (\<forall>j. (r = -1 \<or> int j < r) \<longrightarrow> \<not> occurs_at str (take n (buf_read h b)) j))"
  by (rule Buffer_findString_ok[OF assms]) (auto simp: search_result_def)

theorem findString_correct_witness:
  "\<exists>r. Buffer_findString ''cx'' 4 demo_buf demo_heap = Inr r \<and>
     (r = -1 \<or> (\<exists>i. r = int i \<and> occurs_at ''cx'' ''abcx'' i)) \<and>
     (\<forall>j. (r = -1 \<or> int j < r) \<longrightarrow> \<not> occurs_at ''cx'' ''abcx'' j)"
  using findString_correct[OF demo_ok, of 4 "''cx''"] by (simp add: demo_read demo_ra npos_def)

text \<open>
  Without that restriction \<open>find\<close> of a string can miss an occurrence: with \<open>aa\<close> and \<open>ab\<close>
  in two segments it does not find \<open>aab\<close>, although the readable bytes are \<open>aaab\<close>.
\<close>

definition split_heap :: heap where
  "split_heap = \<lparr>hp_mem = (\<lambda>_. [])(0 := ''aa'', 1 := ''ab''), hp_next = 2, hp_junk = \<lambda>_ _. CHR ''?''\<rparr>"

definition split_buf :: buffer where
  "split_buf = \<lparr>m_front = [\<lparr>m_writeIndex = 2, m_data = \<lparr>m_array = 0, m_start = 0, m_length = 2\<rparr>\<rparr>,
                       \<lparr>m_writeIndex = 2, m_data = \<lparr>m_array = 1, m_start = 0, m_length = 2\<rparr>\<rparr>],
     m_back = [], m_readAvailable = 4, m_writeAvailable = 0\<rparr>"

lemma findString_misses_overlap:
  "buf_ok split_heap split_buf \<and> occurs_at ''aab'' (buf_read split_heap split_buf) 1 \<and>
   Buffer_findString ''aab'' 4 split_buf split_heap = Inr (-1)"
proof -
  have "buf_ok split_heap split_buf" by (auto simp: demo_defs split_heap_def split_buf_def)
  moreover have "buf_read split_heap split_buf = ''aaab''"
    by (simp add: split_heap_def split_buf_def buf_read_def seg_read_def mem_read_def)
  moreover have "Buffer_findString ''aab'' 4 split_buf split_heap = Inr (-1)"
    by (simp add: Buffer_findString_def split_heap_def split_buf_def npos_def seg_read_def mem_read_def
        findString_scan.simps segment_defs)
  ultimately show ?thesis by (simp add: occurs_at_def)
qed

text \<open>
  Comparison does not depend on how the bytes are spread over segments: \<open>opCmp\<close> of two
  buffers is decided by the first byte at which they differ, and by the difference of their
  lengths if one is a prefix of the other; \<open>==\<close> holds exactly for equal bytes, and \<open>==\<close> with a
  string as well.
\<close>

lemma comparison_is_bytewise:
  assumes "buf_ok h b" and "buf_ok h c"
  shows "Buffer_opCmp b c h = Inr (let r = memcmp (buf_read h b) (buf_read h c) in
           if r \<noteq> 0 then r else to_int32 (int (length (buf_read h b)) - int (length (buf_read h c)))) \<and>
     Buffer_eq b c h = Inr (buf_read h b = buf_read h c) \<and>
     (Buffer_eqString str b h \<longleftrightarrow> buf_read h b = str)"
  using Buffer_opCmp_ok[OF assms] Buffer_eq_ok[OF assms] Buffer_eqString_ok[OF assms(1)] by simp

lemma comparison_is_bytewise_example:
  "Buffer_opCmp demo_buf Buffer_empty demo_heap = Inr 4 \<and>
   Buffer_eq demo_buf Buffer_empty demo_heap = Inr False \<and> Buffer_eqString ''abcx'' demo_buf demo_heap"
  using comparison_is_bytewise[OF demo_ok Buffer_empty_ok(1), of "''abcx''"]
  by (simp add: demo_read to_int32_def)

text \<open>
  In a debug build the self-check can fail without misuse. After \<open>reserve(4)\<close>,
  \<open>copyIn("abc")\<close>, \<open>copyIn\<close> of another buffer and \<open>truncate(3)\<close>, the segment with \<open>abc\<close>
  and the rest of its array adjoin, and the next \<open>copyIn\<close> of bytes ends in a failed
  assertion of \<open>Buffer::invariant()\<close>; a build without the self-check appends the bytes.
\<close>

definition other_buf :: buffer where
  "other_buf = \<lparr>m_front = [\<lparr>m_writeIndex = 1, m_data = \<lparr>m_array = 0, m_start = 0, m_length = 1\<rparr>\<rparr>],
     m_back = [], m_readAvailable = 1, m_writeAvailable = 0\<rparr>"

definition adjoining_run :: "bool \<Rightarrow> (buffer \<times> heap) result" where
  "adjoining_run dbg =
     andThen (Buffer_reserve dbg 4 Buffer_empty demo_heap) (\<lambda>(b1, h1).
     andThen (Buffer_copyInData dbg ''abc'' b1 h1) (\<lambda>(b2, h2).
     andThen (Buffer_copyIn dbg other_buf 1 0 b2) (\<lambda>b3.
     andThen (Buffer_truncate dbg 3 b3) (\<lambda>b4.
       Buffer_copyInData dbg ''x'' b4 h2))))"

lemmas adjoining_eval = adjoining_run_def Buffer_reserve_def Segment_new_def SegmentData_new_def new_array_def
  Buffer_addSegment_def Buffer_empty_def self_check_def Buffer_invariant_def segment_defs
  Buffer_copyInData_def copyInData_loop.simps memcpy_def Segment_produce_def demo_heap_def other_buf_def
  Buffer_copyIn_def Buffer_splitMixed_def Segment_consume_def SegmentData_slice_def npos_def adjoins_def
  copyIn_loop.simps Buffer_truncate_def Segment_truncate_def Let_def

lemma self_check_can_fail:
  "adjoining_run True = Inl Assertion \<and>
   (case adjoining_run False of Inl _ \<Rightarrow> False | Inr (b, h) \<Rightarrow> buf_read h b = ''abcx'')"
  by (simp add: adjoining_eval buf_read_def seg_read_def mem_read_def)

end
