(* ===== verification/Strings.thy ===== *)
theory Strings
  imports Prelude "HOL-Library.Word"
begin

text \<open>
  The string utilities of string.cpp: base64 and hexadecimal coding, replacing and splitting,
  UTF-8 encoding of code points and surrogate pairs, the conversion of durations, and the
  case-insensitive order. The parts that need iconv, CoreFoundation or Windows, and the
  digests that are compiled out, are not modelled.
\<close>

unbundle bit_operations_syntax

section \<open>Base64\<close>

text \<open>
  \<open>packed\<close> holds at most 24 bits of an \<open>int\<close>, so it is kept as a natural number with the
  shifts and masks of the source.
\<close>

definition base64_value :: "byte \<Rightarrow> nat option" where
  "base64_value c =
     (let n = of_char c :: nat
      in if n \<ge> 65 \<and> n \<le> 90 then Some (n - 65)
         else if n \<ge> 97 \<and> n \<le> 122 then Some (n - 97 + 26)
         else if n \<ge> 48 \<and> n \<le> 57 then Some (n - 48 + 52)
         else if c = CHR ''+'' then Some 62
         else if c = CHR ''/'' then Some 63
         else None)"

text \<open>
  The inner loop reads up to four characters: \<open>i\<close>, \<open>padding\<close>, \<open>packed\<close> and what is left of
  the input, or \<open>None\<close> where the function returns the empty string.
\<close>

fun decode_quad :: "nat \<Rightarrow> nat \<Rightarrow> nat \<Rightarrow> byte list \<Rightarrow> (nat \<times> nat \<times> nat \<times> byte list) option" where
  "decode_quad i padding packed [] = Some (i, padding, packed, [])"
| "decode_quad i padding packed (c # cs) =
     (if i < 4 then
        (if c = CHR ''='' then decode_quad (Suc i) (Suc padding) (push_bit 6 packed) cs
         else if padding > 0 then None
         else case base64_value c of
                None \<Rightarrow> None
              | Some val \<Rightarrow> decode_quad (Suc i) padding (push_bit 6 packed OR val) cs)
      else Some (i, padding, packed, c # cs))"

lemma decode_quad_length:
  "decode_quad i padding packed cs = Some (i', padding', packed', rest) \<Longrightarrow>
   i' + length rest = i + length cs \<and> i \<le> i'"
  by (induction i padding packed cs rule: decode_quad.induct) (auto split: if_splits option.splits)

text \<open>
  \<open>*writeBuf++ = c\<close> into a string resized to \<open>cap\<close> characters; \<open>out\<close> is what has been written.
\<close>

definition put_char :: "nat \<Rightarrow> byte list \<Rightarrow> byte \<Rightarrow> (byte list) result" where
  "put_char cap out c = (if length out < cap then Inr (out @ [c]) else Inl UB)"

function base64decode_loop :: "nat \<Rightarrow> byte list \<Rightarrow> byte list \<Rightarrow> (byte list) result" where
  "base64decode_loop cap out src =
     (if src = [] then Inr out
      else case decode_quad 0 0 0 src of
        None \<Rightarrow> Inr []
      | Some (i, padding, packed, rest) \<Rightarrow>
          if i \<noteq> 4 then Inr []
          else if padding > 0 \<and> rest \<noteq> [] then Inr []
          else if padding > 2 then Inr []
          else case put_char cap out (char_of (drop_bit 16 packed AND 255)) of
            Inl e \<Rightarrow> Inl e
          | Inr out1 \<Rightarrow>
             (case (if padding \<noteq> 2 then put_char cap out1 (char_of (drop_bit 8 packed AND 255)) else Inr out1) of
                Inl e \<Rightarrow> Inl e
              | Inr out2 \<Rightarrow>
                 (case (if padding = 0 then put_char cap out2 (char_of (packed AND 255)) else Inr out2) of
                    Inl e \<Rightarrow> Inl e
                  | Inr out3 \<Rightarrow> base64decode_loop cap out3 rest)))"
  by pat_completeness auto
termination
  by (relation "measure (\<lambda>(cap, out, src). length src)") (auto dest!: decode_quad_length)

declare base64decode_loop.simps [simp del]

definition base64decode :: "byte list \<Rightarrow> (byte list) result" where
  "base64decode src = base64decode_loop (length src * 3 div 4) [] src"

definition base64_alphabet :: "byte list" where
  "base64_alphabet = ''ABCDEFGHIJKLMNOPQRSTUVWXYZabcdefghijklmnopqrstuvwxyz0123456789+/''"

text \<open>The two \<open>for\<close> loops that pack up to three bytes and shift in zeros for the missing ones.\<close>

fun pack_bytes :: "nat \<Rightarrow> nat \<Rightarrow> byte list \<Rightarrow> nat \<times> nat \<times> byte list" where
  "pack_bytes i packed [] = (i, packed, [])"
| "pack_bytes i packed (b # bs) =
     (if i < 3 then pack_bytes (Suc i) (push_bit 8 packed OR of_char b) bs else (i, packed, b # bs))"

lemma pack_bytes_length:
  "pack_bytes i packed bs = (i', packed', rest) \<Longrightarrow> i' + length rest = i + length bs \<and> i \<le> i'"
  by (induction i packed bs rule: pack_bytes.induct) (auto split: if_splits)

lemma pack_bytes_progress:
  "bs \<noteq> [] \<Longrightarrow> pack_bytes 0 0 bs = (i, packed, rest) \<Longrightarrow> length rest < length bs"
  by (cases bs) (auto dest!: pack_bytes_length)

function base64encode :: "byte list \<Rightarrow> byte list" where
  "base64encode data =
     (if data = [] then []
      else case pack_bytes 0 0 data of (i, packed0, rest) \<Rightarrow>
        let padding = (if i = 2 then 1 else if i = 1 then 2 else 0);
            packed = ((push_bit 8) ^^ (3 - i)) packed0
        in [base64_alphabet ! drop_bit 18 packed] @
           [base64_alphabet ! (drop_bit 12 packed AND 63)] @
           (if padding \<noteq> 2 then [base64_alphabet ! (drop_bit 6 packed AND 63)] else []) @
           (if padding = 0 then [base64_alphabet ! (packed AND 63)] else []) @
           replicate padding (CHR ''='') @
           base64encode rest)"
  by pat_completeness auto
termination
  by (relation "measure length") (auto dest!: pack_bytes_progress[OF _ sym])

declare base64encode.simps [simp del]

section \<open>Hexadecimal\<close>

definition hex_digit :: "nat \<Rightarrow> byte" where
  "hex_digit c = (if c > 9 then char_of (c + 97 - 10) else char_of (c + 48))"

fun hexstringFromData :: "byte list \<Rightarrow> byte list" where
  "hexstringFromData [] = []"
| "hexstringFromData (b # bs) =
     hex_digit (drop_bit 4 (of_char b) AND 15) # hex_digit (of_char b AND 15) # hexstringFromData bs"

text \<open>The \<open>switch\<close> over a hexadecimal digit.\<close>

definition hex_value :: "byte \<Rightarrow> nat option" where
  "hex_value c =
     (if c \<in> set ''abcdef'' then Some (of_char c - 97 + 10)
      else if c \<in> set ''ABCDEF'' then Some (of_char c - 65 + 10)
      else if c \<in> set ''0123456789'' then Some (of_char c - 48)
      else None)"

fun dataFromHex_loop :: "byte list \<Rightarrow> (byte list) result" where
  "dataFromHex_loop [] = Inr []"
| "dataFromHex_loop [c] = Inl UB"
| "dataFromHex_loop (c # d # rest) =
     (case hex_value c of
        None \<Rightarrow> Inl InvalidArgument
      | Some hi \<Rightarrow>
         (case hex_value d of
            None \<Rightarrow> Inl InvalidArgument
          | Some lo \<Rightarrow> andThen (dataFromHex_loop rest) (\<lambda>bs. Inr (char_of (push_bit 4 hi OR lo) # bs))))"

definition dataFromHexstring :: "byte list \<Rightarrow> (byte list) result" where
  "dataFromHexstring s =
     (if length s mod 2 \<noteq> 0 then Inl InvalidArgument
      else if length s = 0 then Inr []
      else dataFromHex_loop s)"

section \<open>Replacing and splitting\<close>

text \<open>\<open>std::string::find\<close> of a character or of a string, from a position on.\<close>

fun find_from :: "(byte list \<Rightarrow> bool) \<Rightarrow> byte list \<Rightarrow> nat option" where
  "find_from P [] = (if P [] then Some 0 else None)"
| "find_from P (c # cs) = (if P (c # cs) then Some 0 else map_option Suc (find_from P cs))"

definition starts_with_any :: "byte list \<Rightarrow> byte list \<Rightarrow> bool" where
  "starts_with_any delims s \<longleftrightarrow> s \<noteq> [] \<and> hd s \<in> set delims"

definition string_find_char :: "byte \<Rightarrow> nat \<Rightarrow> byte list \<Rightarrow> nat option" where
  "string_find_char c pos s =
     (if pos > length s then None
      else map_option (\<lambda>i. pos + i) (find_from (starts_with_any [c]) (drop pos s)))"

definition string_find :: "byte list \<Rightarrow> nat \<Rightarrow> byte list \<Rightarrow> nat option" where
  "string_find f pos s =
     (if pos > length s then None
      else map_option (\<lambda>i. pos + i) (find_from (\<lambda>t. take (length f) t = f) (drop pos s)))"

lemma find_from_bound: "find_from P s = Some i \<Longrightarrow> i \<le> length s"
  by (induction s arbitrary: i) (auto split: if_splits)

lemma find_from_any_bound:
  "find_from (starts_with_any ds) s = Some i \<Longrightarrow> i < length s"
  by (induction s arbitrary: i) (auto simp: starts_with_any_def split: if_splits)

lemma string_find_char_bound: "string_find_char c pos s = Some i \<Longrightarrow> pos \<le> i \<and> i < length s"
  by (auto simp: string_find_char_def split: if_splits dest!: find_from_any_bound)

function replace_char_loop :: "byte \<Rightarrow> byte \<Rightarrow> byte list \<Rightarrow> nat option \<Rightarrow> byte list" where
  "replace_char_loop fnd replaceWith str index =
     (case index of
        None \<Rightarrow> str
      | Some i \<Rightarrow>
          if i < length str
          then let str' = str[i := replaceWith]
               in replace_char_loop fnd replaceWith str' (string_find_char fnd (i + 1) str')
          else str)"
  by pat_completeness auto
termination
  by (relation "measure (\<lambda>(f, r, s, i). case i of None \<Rightarrow> 0 | Some i \<Rightarrow> Suc (length s) - i)")
    (auto split: option.splits dest!: string_find_char_bound)

declare replace_char_loop.simps [simp del]

definition replace_char :: "byte list \<Rightarrow> byte \<Rightarrow> byte \<Rightarrow> byte list" where
  "replace_char str fnd replaceWith = replace_char_loop fnd replaceWith str (string_find_char fnd 0 str)"

text \<open>
  The loop that replaces a string. It need not end, so not returning is \<open>None\<close>. The
  replacement of a character by a string is the same loop with a pattern of one character.
\<close>

definition splice_at :: "byte list \<Rightarrow> nat \<Rightarrow> nat \<Rightarrow> byte list \<Rightarrow> byte list" where
  "splice_at str index n replaceWith = take index str @ replaceWith @ drop (index + n) str"

partial_function (option) replace_loop :: "byte list \<Rightarrow> byte list \<Rightarrow> byte list \<Rightarrow> nat option \<Rightarrow> (byte list) option" where
  "replace_loop fnd replaceWith str index =
     (if index = None then Some str
      else replace_loop fnd replaceWith (splice_at str (the index) (length fnd) replaceWith)
             (string_find fnd (the index + length replaceWith)
               (splice_at str (the index) (length fnd) replaceWith)))"

definition replace_string :: "byte list \<Rightarrow> byte list \<Rightarrow> byte list \<Rightarrow> (byte list) option" where
  "replace_string str fnd replaceWith = replace_loop fnd replaceWith str (string_find fnd 0 str)"

definition replace_char_string :: "byte list \<Rightarrow> byte \<Rightarrow> byte list \<Rightarrow> (byte list) option" where
  "replace_char_string str fnd replaceWith = replace_loop [fnd] replaceWith str (string_find [fnd] 0 str)"

text \<open>
  \<open>split\<close> at any of the delimiters; \<open>rest\<close> is the string from \<open>last\<close> on, \<open>mx\<close>, the \<open>max\<close> of the source, counts down
  to the last piece. The version for one character is the one with a set of one.
\<close>

function split_loop :: "byte list \<Rightarrow> nat \<Rightarrow> byte list \<Rightarrow> byte list list" where
  "split_loop delims mx rest =
     (case find_from (starts_with_any delims) rest of
        None \<Rightarrow> [rest]
      | Some pos \<Rightarrow>
          take pos rest #
            (if mx - 1 = 1 then [drop (pos + 1) rest]
             else split_loop delims (mx - 1) (drop (pos + 1) rest)))"
  by pat_completeness auto
termination
  by (relation "measure (\<lambda>(d, m, s). length s)") (auto dest!: find_from_any_bound)

declare split_loop.simps [simp del]

definition split_any :: "byte list \<Rightarrow> byte list \<Rightarrow> nat \<Rightarrow> (byte list list) result" where
  "split_any str delims mx =
     ensure (mx > 1) (if str = [] then Inr [] else Inr (split_loop delims mx str))"

definition split_char :: "byte list \<Rightarrow> byte \<Rightarrow> nat \<Rightarrow> (byte list list) result" where
  "split_char str delim mx =
     ensure (mx > 1) (if str = [] then Inr [] else Inr (split_loop [delim] mx str))"

section \<open>Durations\<close>

text \<open>
  A C string ends at its first zero character, where \<open>strnicmp\<close> stops too; \<open>tolower\<close> is that
  of the C locale.
\<close>

definition c_str :: "byte list \<Rightarrow> byte list" where
  "c_str s = takeWhile (\<lambda>c. c \<noteq> CHR 0x00) s"

definition tolower :: "byte \<Rightarrow> byte" where
  "tolower c = (let n = of_char c :: nat in if n \<ge> 65 \<and> n \<le> 90 then char_of (n + 32) else c)"

definition endsWith :: "byte list \<Rightarrow> byte list \<Rightarrow> bool" where
  "endsWith s suffix \<longleftrightarrow>
     length s \<ge> length suffix \<and>
     map tolower (c_str (drop (length s - length suffix) s)) = map tolower (c_str suffix)"

definition suffixes :: "(byte list \<times> nat) list" where
  "suffixes =
     [(''microseconds'', 1), (''us'', 1), (''milliseconds'', 1000), (''ms'', 1000),
      (''seconds'', 1000000), (''minutes'', 60 * 1000000), (''m'', 60 * 1000000),
      (''hours'', 60 * 60 * 1000000), (''h'', 60 * 60 * 1000000),
      (''days'', 24 * 60 * 60 * 1000000), (''d'', 24 * 60 * 60 * 1000000), (''s'', 1000000)]"

fun strip_leading :: "byte list \<Rightarrow> byte list" where
  "strip_leading (c # d # cs) = (if c = CHR '' '' then strip_leading (d # cs) else c # d # cs)"
| "strip_leading s = s"

definition strip_trailing :: "byte list \<Rightarrow> byte list" where
  "strip_trailing s = rev (strip_leading (rev s))"

fun match_suffix :: "(byte list \<times> nat) list \<Rightarrow> byte list \<Rightarrow> nat \<times> byte list" where
  "match_suffix [] copy = (1, copy)"
| "match_suffix ((suffix, multiplier) # rest) copy =
     (if endsWith copy suffix then (multiplier, take (length copy - length suffix) copy)
      else match_suffix rest copy)"

text \<open>
  \<open>boost::lexical_cast\<close> is a parameter: \<open>cast_u64\<close> is the cast to \<open>unsigned long long\<close>, and
  \<open>scale_double m s\<close> is \<open>(unsigned long long)(m * lexical_cast<double>(s))\<close>. The product of
  the integer branch wraps at 64 bits.
\<close>

definition stringToMicroseconds ::
    "(byte list \<Rightarrow> nat result) \<Rightarrow> (nat \<Rightarrow> byte list \<Rightarrow> nat result) \<Rightarrow> byte list \<Rightarrow> nat result" where
  "stringToMicroseconds cast_u64 scale_double s =
     (let copy1 = strip_trailing (strip_leading s);
          (multiplier, copy2) = match_suffix suffixes copy1;
          copy3 = strip_trailing copy2
      in if CHR ''.'' \<in> set copy3 then scale_double multiplier copy3
         else andThen (cast_u64 copy3) (\<lambda>v. Inr (multiplier * v mod size_mod)))"

section \<open>UTF-8 and surrogates\<close>

definition byte_of_word :: "32 word \<Rightarrow> byte" where
  "byte_of_word w = char_of (unat w)"

definition toUtf8 :: "32 word \<Rightarrow> (byte list) result" where
  "toUtf8 character =
     ensure (character \<le> 0x10ffff)
       (if character \<le> 0x7f then Inr [byte_of_word character]
        else if character \<le> 0x7ff then
          Inr [byte_of_word (0xc0 OR (drop_bit 6 character AND 0x1f)),
               byte_of_word (0x80 OR (character AND 0x3f))]
        else if character \<le> 0xffff then
          Inr [byte_of_word (0xe0 OR (drop_bit 12 character AND 0xf)),
               byte_of_word (0x80 OR (drop_bit 6 character AND 0x3f)),
               byte_of_word (0x80 OR (character AND 0x3f))]
        else
          Inr [byte_of_word (0xf0 OR (drop_bit 18 character AND 0x7)),
               byte_of_word (0x80 OR (drop_bit 12 character AND 0x3f)),
               byte_of_word (0x80 OR (drop_bit 6 character AND 0x3f)),
               byte_of_word (0x80 OR (character AND 0x3f))])"

definition isHighSurrogate :: "16 word \<Rightarrow> bool" where
  "isHighSurrogate character \<longleftrightarrow> character \<ge> 0xd800 \<and> character \<le> 0xdbff"

definition isLowSurrogate :: "16 word \<Rightarrow> bool" where
  "isLowSurrogate character \<longleftrightarrow> character \<ge> 0xdc00 \<and> character \<le> 0xdfff"

definition toUtf32 :: "16 word \<Rightarrow> 16 word \<Rightarrow> (32 word) result" where
  "toUtf32 highSurrogate lowSurrogate =
     ensure (isHighSurrogate highSurrogate)
       (ensure (isLowSurrogate lowSurrogate)
         (Inr ((push_bit 10 (ucast highSurrogate - 0xd800) OR (ucast lowSurrogate - 0xdc00)) + 0x10000)))"

definition toUtf8_char16 :: "16 word \<Rightarrow> (byte list) result" where
  "toUtf8_char16 character = toUtf8 (ucast character)"

definition toUtf8_pair :: "16 word \<Rightarrow> 16 word \<Rightarrow> (byte list) result" where
  "toUtf8_pair highSurrogate lowSurrogate = andThen (toUtf32 highSurrogate lowSurrogate) toUtf8"

section \<open>The case-insensitive order\<close>

text \<open>\<open>stricmp\<close> of two C strings.\<close>

fun stricmp_loop :: "byte list \<Rightarrow> byte list \<Rightarrow> int" where
  "stricmp_loop [] [] = 0"
| "stricmp_loop [] (d # ds) = -1"
| "stricmp_loop (c # cs) [] = 1"
| "stricmp_loop (c # cs) (d # ds) =
     (if tolower c = tolower d then stricmp_loop cs ds
      else if (of_char (tolower c) :: nat) < of_char (tolower d) then -1 else 1)"

definition caseinsensitiveless :: "byte list \<Rightarrow> byte list \<Rightarrow> bool" where
  "caseinsensitiveless lhs rhs \<longleftrightarrow> stricmp_loop (c_str lhs) (c_str rhs) < 0"

end
