(* ===== verification/Strings_Coding.thy ===== *)
theory Strings_Coding
  imports Strings
begin

text \<open>
  Base64 and hexadecimal coding: what is encoded decodes to the same bytes, the decoders write
  only into the memory they have allocated, and malformed input is refused.
\<close>

unbundle bit_operations_syntax

section \<open>Shifts and masks as arithmetic\<close>

lemma or_shifted:
  fixes p v :: nat
  assumes "v < 2 ^ k"
  shows "push_bit k p OR v = p * 2 ^ k + v"
proof -
  have "take_bit k v = v" using assms by (rule take_bit_nat_eq_self)
  then have "\<not> bit (push_bit k p) n \<or> \<not> bit v n" for n
    by (metis bit_push_bit_iff bit_take_bit_iff linorder_not_less)
  then show ?thesis
    by (simp add: disjunctive_add[symmetric] push_bit_eq_mult)
qed

lemma and_mask_nat:
  fixes x :: nat
  shows "x AND 63 = x mod 64" "x AND 255 = x mod 256" "x AND 15 = x mod 16"
  using take_bit_eq_mask[of 6 x] take_bit_eq_mask[of 8 x] take_bit_eq_mask[of 4 x]
  by (simp_all add: take_bit_eq_mod mask_eq_exp_minus_1)

lemmas shift_nat = push_bit_eq_mult drop_bit_eq_div and_mask_nat

lemma char_of_of_char_mod: "char_of ((of_char c + 256 * k) mod 256 :: nat) = c"
  by simp

section \<open>Base64\<close>

lemma char_eq_code: "c = d \<longleftrightarrow> (of_char c :: nat) = of_char d"
  by simp

lemma base64_alphabet_codes:
  "map of_char base64_alphabet = [65..<91] @ [97..<123] @ [48..<58] @ [43, 47::nat]"
  by (simp add: base64_alphabet_def upt_rec_numeral)

lemma base64_alphabet_code:
  assumes "v < 64"
  shows "of_char (base64_alphabet ! v) =
    (if v < 26 then v + 65 else if v < 52 then v + 71 else if v < 62 then v - 4 else if v = 62 then 43 else 47 :: nat)"
proof -
  have "length base64_alphabet = 64" by (simp add: base64_alphabet_def)
  then have oc: "of_char (base64_alphabet ! v) = ([65..<91] @ [97..<123] @ [48..<58] @ [43, 47::nat]) ! v"
    using assms unfolding base64_alphabet_codes[symmetric] by simp
  consider "v < 26" | "26 \<le> v" "v < 52" | "52 \<le> v" "v < 62" | "v = 62" | "v = 63"
    using assms by linarith
  then show ?thesis
  proof cases
    case 3
    then have "\<not> v - 26 < 26" "v - 52 < 10" by linarith+
    then show ?thesis using 3 by (simp add: oc nth_append del: upt_rec_numeral)
  next
    case 4
    then show ?thesis by (simp add: base64_alphabet_def)
  next
    case 5
    then show ?thesis by (simp add: base64_alphabet_def)
  qed (simp_all add: oc nth_append del: upt_rec_numeral)
qed

lemma base64_alphabet_ok:
  assumes "v < 64"
  shows "base64_value (base64_alphabet ! v) = Some v" and "base64_alphabet ! v \<noteq> CHR ''=''"
proof -
  note v = base64_alphabet_code[OF assms]
  show "base64_value (base64_alphabet ! v) = Some v"
    unfolding base64_value_def Let_def char_eq_code[of _ "CHR ''+''"] char_eq_code[of _ "CHR ''/''"] v
    using assms by auto
  show "base64_alphabet ! v \<noteq> CHR ''=''" using assms unfolding char_eq_code[of _ "CHR ''=''"] v by auto
qed

lemma decode_quad_alpha:
  "v < 64 \<Longrightarrow> i < 4 \<Longrightarrow> decode_quad i 0 p (base64_alphabet ! v # cs) = decode_quad (Suc i) 0 (p * 64 + v) cs"
  using base64_alphabet_ok[of v] or_shifted[of v 6 p] by simp

lemma decode_quad_pad:
  "i < 4 \<Longrightarrow> decode_quad i k p (CHR ''='' # cs) = decode_quad (Suc i) (Suc k) (p * 64) cs"
  by (simp add: push_bit_eq_mult)

lemma decode_quad_stop: "decode_quad (Suc (Suc (Suc (Suc 0)))) k p cs = Some (4, k, p, cs)"
  by (cases cs) auto

text \<open>The 24 bits of a group are recovered from its four characters.\<close>

lemma sextets_nat:
  fixes p :: nat
  shows "((p div 262144 * 64 + p div 4096 mod 64) * 64 + p div 64 mod 64) * 64 + p mod 64 = p"
proof -
  have a: "p div 262144 * 64 + p div 4096 mod 64 = p div 4096"
    using div_mult_mod_eq[of "p div 4096" 64] by (simp add: div_mult2_eq[symmetric])
  have b: "p div 4096 * 64 + p div 64 mod 64 = p div 64"
    using div_mult_mod_eq[of "p div 64" 64] by (simp add: div_mult2_eq[symmetric])
  show ?thesis unfolding a b by simp
qed

lemma octets_nat:
  fixes a b c :: nat
  assumes "a < 256" and "b < 256" and "c < 256"
  shows "((a * 256 + b) * 256 + c) div 65536 mod 256 = a" "((a * 256 + b) * 256 + c) div 256 mod 256 = b"
    "((a * 256 + b) * 256 + c) mod 256 = c" "((a * 256 + b) * 256 + c) div 262144 < 64"
    "(a * 256 + b) * 256 + c < 16777216"
proof -
  have d: "((a * 256 + b) * 256 + c) div 256 = a * 256 + b" using assms by simp
  show "((a * 256 + b) * 256 + c) div 256 mod 256 = b" unfolding d using assms by simp
  have "((a * 256 + b) * 256 + c) div 65536 = ((a * 256 + b) * 256 + c) div 256 div 256"
    by (simp add: div_mult2_eq[symmetric])
  then show "((a * 256 + b) * 256 + c) div 65536 mod 256 = a" unfolding d using assms by simp
  show "((a * 256 + b) * 256 + c) mod 256 = c"
    using assms(3) by (simp only: mod_mult_self3 mod_less)
  show "(a * 256 + b) * 256 + c < 16777216" using assms by simp
  show "((a * 256 + b) * 256 + c) div 262144 < 64" using assms by (simp add: div_less_iff_less_mult)
qed

lemma pack_bytes_stop: "pack_bytes 3 p bs = (3, p, bs)"
  by (cases bs) auto

lemma pack_byte: "i < 3 \<Longrightarrow> pack_bytes i p (b # bs) = pack_bytes (Suc i) (p * 256 + of_char b) bs"
  using or_shifted[of "of_char b" 8 p] nat_of_char_less_256[of b] by simp

definition encode_group :: "nat \<Rightarrow> nat \<Rightarrow> byte list" where
  "encode_group padding p =
     [base64_alphabet ! (p div 262144), base64_alphabet ! (p div 4096 mod 64)] @
     (if padding \<noteq> 2 then [base64_alphabet ! (p div 64 mod 64)] else []) @
     (if padding = 0 then [base64_alphabet ! (p mod 64)] else []) @ replicate padding (CHR ''='')"

lemma pack_bytes_groups:
  "pack_bytes 0 0 (a # b # c # rest) = (3, (of_char a * 256 + of_char b) * 256 + of_char c, rest)"
  "pack_bytes 0 0 [a, b] = (2, of_char a * 256 + of_char b, [])"
  "pack_bytes 0 0 [a] = (1, of_char a, [])"
  using pack_bytes_stop by (simp_all del: pack_bytes.simps(2) add: pack_byte numeral_3_eq_3)

lemma push_bit_funpow: "((push_bit 8) ^^ k) p = p * (256 :: nat) ^ k"
  by (induction k) (simp_all add: push_bit_eq_mult)

lemma base64encode_unfold:
  assumes "data \<noteq> []" and "pack_bytes 0 0 data = (i, p, rest)"
  shows "base64encode data =
    encode_group (if i = 2 then 1 else if i = 1 then 2 else 0) (p * 256 ^ (3 - i)) @ base64encode rest"
  using assms
  by (subst base64encode.simps) (simp add: encode_group_def shift_nat push_bit_funpow Let_def)

lemma base64encode_Nil: "base64encode [] = []"
  by (simp add: base64encode.simps)

lemma base64encode_group3:
  "base64encode (a # b # c # rest) =
     encode_group 0 ((of_char a * 256 + of_char b) * 256 + of_char c) @ base64encode rest"
  using base64encode_unfold[OF _ pack_bytes_groups(1)] by simp

lemma base64encode_group2:
  "base64encode [a, b] = encode_group 1 ((of_char a * 256 + of_char b) * 256)"
  using base64encode_unfold[OF _ pack_bytes_groups(2)] by (simp add: base64encode_Nil)

lemma base64encode_group1:
  "base64encode [a] = encode_group 2 (of_char a * 256 * 256)"
  using base64encode_unfold[OF _ pack_bytes_groups(3), of a]
  by (simp add: base64encode_Nil mult.commute)

lemmas base64encode_cases = base64encode_Nil base64encode_group1 base64encode_group2 base64encode_group3

lemma length_encode_group: "padding \<le> 2 \<Longrightarrow> length (encode_group padding p) = 4"
  by (auto simp: encode_group_def)

text \<open>Decoding a group gives back its bits.\<close>

lemma decode_encode_group:
  assumes "p < 16777216" and "padding \<le> 2"
    and "padding \<ge> 1 \<longrightarrow> p mod 64 = 0" and "padding = 2 \<longrightarrow> p div 64 mod 64 = 0"
  shows "decode_quad 0 0 0 (encode_group padding p @ rest) = Some (4, padding, p, rest)"
proof -
  have l: "p div 262144 < 64" using assms(1) by (simp add: div_less_iff_less_mult)
  have x2: "p div 4096 mod 64 < 64" "p div 64 mod 64 < 64" "p mod 64 < 64" by simp_all
  note step = decode_quad_alpha[OF l] decode_quad_alpha[OF x2(1)] decode_quad_alpha[OF x2(2)]
    decode_quad_alpha[OF x2(3)] decode_quad_pad
  consider "padding = 0" | "padding = 1" | "padding = 2" using assms(2) by linarith
  then show ?thesis
    using sextets_nat[of p] assms(3,4)
    by cases (simp_all del: decode_quad.simps add: encode_group_def step decode_quad_stop numeral_2_eq_2)
qed

lemma put_char_ok: "length out < cap \<Longrightarrow> put_char cap out c = Inr (out @ [c])"
  by (simp add: put_char_def)

text \<open>One round of the decoder on an encoded group.\<close>

lemma base64decode_group:
  assumes "p < 16777216" and "padding \<le> 2"
    and "padding \<ge> 1 \<longrightarrow> p mod 64 = 0 \<and> rest = []" and "padding = 2 \<longrightarrow> p div 64 mod 64 = 0"
    and "length out + (3 - padding) \<le> cap"
  shows "base64decode_loop cap out (encode_group padding p @ rest) =
    base64decode_loop cap (out @ take (3 - padding)
      [char_of (p div 65536 mod 256), char_of (p div 256 mod 256), char_of (p mod 256)]) rest"
proof -
  have ne: "encode_group padding p @ rest \<noteq> []" by (simp add: encode_group_def)
  have d: "decode_quad 0 0 0 (encode_group padding p @ rest) = Some (4, padding, p, rest)"
    using assms(3,4) by (intro decode_encode_group[OF assms(1,2)]) auto
  consider "padding = 0" | "padding = 1" | "padding = 2" using assms(2) by linarith
  then show ?thesis
    using assms(3,5) ne d
    unfolding base64decode_loop.simps[of cap out "encode_group padding p @ rest"]
    by cases (auto simp: put_char_ok shift_nat)
qed

lemma base64decode_encode_loop:
  "length out + length xs \<le> cap \<Longrightarrow> base64decode_loop cap out (base64encode xs) = Inr (out @ xs)"
proof (induction "length xs" arbitrary: xs out rule: less_induct)
  case less
  have b: "(of_char c :: nat) < 256" for c by (rule nat_of_char_less_256)
  consider "xs = []" | a where "xs = [a]" | a b where "xs = [a, b]" | a b c rest where "xs = a # b # c # rest"
    by (cases xs; cases "tl xs"; cases "tl (tl xs)") auto
  then show ?case
  proof cases
    case 1
    then show ?thesis by (simp add: base64encode_Nil base64decode_loop.simps)
  next
    case (2 a)
    let ?p = "of_char a * 256 * 256 :: nat"
    have p: "?p < 16777216" "?p mod 64 = 0" "?p div 64 mod 64 = 0" "?p div 65536 mod 256 = of_char a"
      using b[of a] by auto
    show ?thesis
      using base64decode_group[OF p(1), of 2 "[]" out cap] p(2-4) less.prems 2
      by (simp add: base64encode_group1 base64decode_loop.simps)
  next
    case (3 a c)
    let ?p = "(of_char a * 256 + of_char c) * 256 + 0 :: nat"
    note o = octets_nat[OF b b, of 0 a c]
    have p: "?p < 16777216" "?p mod 64 = 0" using o(5) by simp_all
    show ?thesis
      using base64decode_group[OF p(1), of 1 "[]" out cap] p(2) o less.prems 3
      by (simp add: base64encode_group2 base64decode_loop.simps)
  next
    case (4 a c d rest)
    let ?p = "(of_char a * 256 + of_char c) * 256 + of_char d :: nat"
    note o = octets_nat[OF b b b, of a c d]
    note p = o(5)
    have "base64decode_loop cap (out @ [a, c, d]) (base64encode rest) = Inr ((out @ [a, c, d]) @ rest)"
      using less.hyps[of rest "out @ [a, c, d]"] less.prems 4 by simp
    then show ?thesis
      using base64decode_group[OF p, of 0 "base64encode rest" out cap, unfolded o(1-3)] less.prems 4
      by (simp add: base64encode_group3)
  qed
qed

lemma length_base64encode: "length (base64encode xs) = 4 * ((length xs + 2) div 3)"
proof (induction "length xs" arbitrary: xs rule: less_induct)
  case less
  consider "xs = []" | a where "xs = [a]" | a b where "xs = [a, b]" | a b c rest where "xs = a # b # c # rest"
    by (cases xs; cases "tl xs"; cases "tl (tl xs)") auto
  then show ?case
  proof cases
    case (4 a b c rest)
    have "(length rest + 5) div 3 = Suc ((length rest + 2) div 3)"
      using div_add_self2[of "3 :: nat" "length rest + 2"] by simp
    then show ?thesis
      using less[of rest] 4 by (simp add: base64encode_group3 length_encode_group add.commute)
  qed (auto simp: base64encode_cases length_encode_group)
qed

text \<open>The decoder never writes past the string it resized.\<close>

lemma base64decode_loop_safe:
  "length out + 3 * (length src div 4) \<le> cap \<Longrightarrow> \<exists>r. base64decode_loop cap out src = Inr r"
proof (induction "length src" arbitrary: out src rule: less_induct)
  case less
  show ?case
  proof (cases "src = []")
    case True
    then show ?thesis by (simp add: base64decode_loop.simps)
  next
    case ne: False
    show ?thesis
    proof (cases "decode_quad 0 0 0 src")
      case None
      then show ?thesis using ne by (simp add: base64decode_loop.simps[of cap out src])
    next
      case (Some q)
      obtain i k p rest where q: "q = (i, k, p, rest)" by (cases q)
      have len: "i + length rest = length src" using decode_quad_length[of 0 0 0 src] Some q by auto
      show ?thesis
      proof (cases "i \<noteq> 4 \<or> k > 0 \<and> rest \<noteq> [] \<or> k > 2")
        case True
        then show ?thesis using ne Some q by (auto simp: base64decode_loop.simps[of cap out src])
      next
        case False
        then have "length src div 4 = Suc (length rest div 4)" by (simp add: len[symmetric])
        then have "length out + 3 \<le> cap" "length out + 3 + 3 * (length rest div 4) \<le> cap" "length rest < length src"
          using less.prems len False by auto
        then show ?thesis
          using less.hyps[of rest] ne Some q False
          by (auto simp: base64decode_loop.simps[of cap out src] put_char_def)
      qed
    qed
  qed
qed

section \<open>Hexadecimal\<close>

lemma hex_value_code:
  "hex_value c =
     (let n = of_char c :: nat
      in if 97 \<le> n \<and> n \<le> 102 then Some (n - 87) else if 65 \<le> n \<and> n \<le> 70 then Some (n - 55)
         else if 48 \<le> n \<and> n \<le> 57 then Some (n - 48) else None)"
proof -
  have "c \<in> set ''abcdef'' \<longleftrightarrow> 97 \<le> (of_char c :: nat) \<and> (of_char c :: nat) \<le> 102"
    by (simp add: char_eq_code[of c]) presburger
  moreover have "c \<in> set ''ABCDEF'' \<longleftrightarrow> 65 \<le> (of_char c :: nat) \<and> (of_char c :: nat) \<le> 70"
    by (simp add: char_eq_code[of c]) presburger
  moreover have "c \<in> set ''0123456789'' \<longleftrightarrow> 48 \<le> (of_char c :: nat) \<and> (of_char c :: nat) \<le> 57"
    by (simp add: char_eq_code[of c]) presburger
  ultimately show ?thesis unfolding hex_value_def Let_def by auto
qed

lemma hex_digit_code: "v < 16 \<Longrightarrow> of_char (hex_digit v) = (if v > 9 then v + 87 else v + 48 :: nat)"
  by (auto simp: hex_digit_def)

lemma hex_digit_value: "v < 16 \<Longrightarrow> hex_value (hex_digit v) = Some v"
  by (auto simp: hex_value_code hex_digit_code Let_def)

lemma hex_value_bound: "hex_value c = Some v \<Longrightarrow> v < 16"
  by (auto simp: hex_value_code Let_def split: if_splits)

lemma hex_value_digit: "hex_value c = Some v \<Longrightarrow> hex_digit v = tolower c"
  unfolding char_eq_code[of "hex_digit v"]
  by (frule hex_value_bound) (auto simp: hex_value_code Let_def hex_digit_code tolower_def split: if_splits)

lemma nibbles: "push_bit 4 (of_char b div 16 mod 16) OR (of_char b mod 16) = (of_char b :: nat)"
proof -
  have "(of_char b :: nat) div 16 < 16" using nat_of_char_less_256[of b] by (simp add: div_less_iff_less_mult)
  then show ?thesis by (subst or_shifted) simp_all
qed

lemma dataFromHex_encode: "dataFromHex_loop (hexstringFromData xs) = Inr xs"
  by (induction xs) (simp_all add: hex_digit_value drop_bit_eq_div and_mask_nat nibbles)

lemma length_hexstring: "length (hexstringFromData xs) = 2 * length xs"
  by (induction xs) simp_all

lemma byte_of_nibbles:
  assumes "hi < 16" and "lo < 16"
  shows "hexstringFromData (char_of (push_bit 4 hi OR lo) # bs) = hex_digit hi # hex_digit lo # hexstringFromData bs"
proof -
  have v: "push_bit 4 hi OR lo = hi * 16 + lo" using assms by (subst or_shifted) simp_all
  have "hi * 16 + lo < 256" using assms by simp
  then show ?thesis using assms unfolding v by (simp add: drop_bit_eq_div and_mask_nat)
qed

text \<open>
  The decoder fails exactly on a character that is no digit; what it accepts encodes back to the
  same digits in lower case.
\<close>

lemma dataFromHex_decode:
  "even (length s) \<Longrightarrow>
   (if \<forall>c\<in>set s. hex_value c \<noteq> None
    then \<exists>bs. dataFromHex_loop s = Inr bs \<and> hexstringFromData bs = map tolower s
    else dataFromHex_loop s = Inl InvalidArgument)"
proof (induction s rule: dataFromHex_loop.induct)
  case (3 c d rest)
  show ?case
  proof (cases "hex_value c = None \<or> hex_value d = None")
    case True
    then show ?thesis by (auto split: option.splits)
  next
    case False
    then obtain hi lo where v: "hex_value c = Some hi" "hex_value d = Some lo" by auto
    have IH: "if \<forall>c\<in>set rest. hex_value c \<noteq> None
      then \<exists>bs. dataFromHex_loop rest = Inr bs \<and> hexstringFromData bs = map tolower rest
      else dataFromHex_loop rest = Inl InvalidArgument"
      using 3 v by simp
    note b = hex_value_bound[OF v(1)] hex_value_bound[OF v(2)]
    show ?thesis
      using IH v byte_of_nibbles[OF b] hex_value_digit[OF v(1)] hex_value_digit[OF v(2)]
      by (auto simp del: hexstringFromData.simps split: if_splits)
  qed
qed simp_all

end
