(* ===== verification/Strings_Text.thy ===== *)
theory Strings_Text
  imports Strings_Coding
begin

text \<open>
  Replacing, splitting, UTF-8 and the case-insensitive order: each operation against a
  definition that does not look at indices.
\<close>

unbundle bit_operations_syntax

section \<open>Searching\<close>

lemma find_from_any_None:
  "find_from (starts_with_any ds) s = None \<longleftrightarrow> (\<forall>c\<in>set s. c \<notin> set ds)"
  by (induction s) (auto simp: starts_with_any_def)

lemma find_from_any_Some:
  "find_from (starts_with_any ds) s = Some i \<Longrightarrow>
   i < length s \<and> s ! i \<in> set ds \<and> (\<forall>c\<in>set (take i s). c \<notin> set ds)"
  by (induction s arbitrary: i) (auto simp: starts_with_any_def split: if_splits)

section \<open>replace\<close>

lemma replace_char_loop_ok:
  "pos \<le> length s \<Longrightarrow> replace_char_loop f r s (string_find_char f pos s) =
     take pos s @ map (\<lambda>c. if c = f then r else c) (drop pos s)"
proof (induction "length s - pos" arbitrary: s pos rule: less_induct)
  case less
  let ?g = "\<lambda>c. if c = f then r else c"
  have id: "map ?g xs = xs" if "\<forall>c\<in>set xs. c \<notin> set [f]" for xs
    using that by (intro map_idI) auto
  show ?case
  proof (cases "find_from (starts_with_any [f]) (drop pos s)")
    case None
    then have "map ?g (drop pos s) = drop pos s" using find_from_any_None id by blast
    then show ?thesis
      using None less.prems by (simp add: string_find_char_def replace_char_loop.simps)
  next
    case (Some j)
    note j = find_from_any_Some[OF Some]
    let ?s = "s[pos + j := r]"
    have i: "pos + j < length s" "s ! (pos + j) = f" using j less.prems by auto
    have "replace_char_loop f r s (string_find_char f pos s) =
        replace_char_loop f r ?s (string_find_char f (pos + j + 1) ?s)"
      using Some less.prems i(1)
      by (subst replace_char_loop.simps) (simp add: string_find_char_def[of f pos] Let_def)
    also have "\<dots> = take (pos + j + 1) ?s @ map ?g (drop (pos + j + 1) ?s)"
      using i(1) by (intro less.hyps) auto
    also have "\<dots> = take (pos + j) s @ r # map ?g (drop (pos + j + 1) s)"
      using i(1) by (simp add: take_Suc_conv_app_nth)
    also have "\<dots> = take pos s @ take j (drop pos s) @ r # map ?g (drop (pos + j + 1) s)"
      by (simp add: take_add)
    also have "take j (drop pos s) = map ?g (take j (drop pos s))" using j id by metis
    also have "take pos s @ map ?g (take j (drop pos s)) @ r # map ?g (drop (pos + j + 1) s)
        = take pos s @ map ?g (take j (drop pos s) @ f # drop (pos + j + 1) s)"
      by simp
    also have "take j (drop pos s) @ f # drop (pos + j + 1) s = drop pos s"
      using id_take_nth_drop[of j "drop pos s"] j i by (simp add: add.commute)
    finally show ?thesis .
  qed
qed

text \<open>Replacement of a string by scanning from the left, without overlaps.\<close>

function replace_all :: "byte list \<Rightarrow> byte list \<Rightarrow> byte list \<Rightarrow> byte list" where
  "replace_all f r s =
     (if f = [] then s
      else case s of
        [] \<Rightarrow> []
      | c # cs \<Rightarrow> if take (length f) s = f then r @ replace_all f r (drop (length f) s)
                  else c # replace_all f r cs)"
  by pat_completeness auto
termination
  by (relation "measure (\<lambda>(f, r, s). length s)") (auto)

declare replace_all.simps [simp del]

lemma replace_all_find_None:
  "f \<noteq> [] \<Longrightarrow> find_from (\<lambda>t. take (length f) t = f) s = None \<Longrightarrow> replace_all f r s = s"
  by (induction s) (auto simp: replace_all.simps split: if_splits)

lemma replace_all_find_Some:
  "f \<noteq> [] \<Longrightarrow> find_from (\<lambda>t. take (length f) t = f) s = Some j \<Longrightarrow>
   replace_all f r s = take j s @ r @ replace_all f r (drop (j + length f) s) \<and> j + length f \<le> length s"
proof (induction s arbitrary: j)
  case Nil
  then show ?case by (auto split: if_splits)
next
  case (Cons c cs)
  show ?case
  proof (cases "take (length f) (c # cs) = f")
    case True
    have "length f \<le> length (c # cs)" using arg_cong[OF True, of length] by simp
    then show ?thesis
      using Cons.prems True by (subst replace_all.simps) auto
  next
    case False
    then obtain k where "find_from (\<lambda>t. take (length f) t = f) cs = Some k" "j = Suc k"
      using Cons.prems(2) by auto
    then show ?thesis
      using Cons.IH[OF Cons.prems(1)] False Cons.prems(1) by (subst replace_all.simps) auto
  qed
qed

lemma replace_loop_ok:
  assumes "f \<noteq> []"
  shows "pos \<le> length s \<Longrightarrow>
    replace_loop f r s (string_find f pos s) = Some (take pos s @ replace_all f r (drop pos s))"
proof (induction "length s - pos" arbitrary: s pos rule: less_induct)
  case less
  show ?case
  proof (cases "find_from (\<lambda>t. take (length f) t = f) (drop pos s)")
    case None
    then show ?thesis
      using less.prems replace_all_find_None[OF assms None]
      by (subst replace_loop.simps) (simp add: string_find_def)
  next
    case (Some j)
    let ?i = "pos + j"
    let ?s = "splice_at s ?i (length f) r"
    note j = replace_all_find_Some[OF assms Some, of r]
    have le: "?i + length f \<le> length s" using j less.prems by auto
    have len: "length ?s = length s - length f + length r" using le by (simp add: splice_at_def)
    have "0 < length f" using assms by simp
    then have dec: "length ?s - (?i + length r) < length s - pos" and le2: "?i + length r \<le> length ?s"
      using le len by linarith+
    have "replace_loop f r s (string_find f pos s) = replace_loop f r ?s (string_find f (?i + length r) ?s)"
      using Some less.prems by (subst replace_loop.simps) (simp add: string_find_def[of f pos])
    also have "\<dots> = Some (take (?i + length r) ?s @ replace_all f r (drop (?i + length r) ?s))"
      by (intro less.hyps dec le2)
    also have "take (?i + length r) ?s @ replace_all f r (drop (?i + length r) ?s) =
        take ?i s @ r @ replace_all f r (drop (?i + length f) s)"
      using le by (simp add: splice_at_def)
    also have "\<dots> = take pos s @ replace_all f r (drop pos s)"
      using j unfolding take_add by (simp add: ac_simps)
    finally show ?thesis .
  qed
qed

text \<open>With an empty pattern the loop never ends.\<close>

lemma string_find_empty: "k \<le> length t \<Longrightarrow> string_find [] k t = Some k"
  by (cases "drop k t") (auto simp: string_find_def)

lemma replace_loop_empty:
  assumes "replace_loop f r s i = Some y"
  shows "f = [] \<longrightarrow> i \<noteq> None \<longrightarrow> the i \<le> length s \<longrightarrow> False"
proof (rule replace_loop.raw_induct[OF _ assms])
  fix loop f r s i y
  assume IH: "\<And>f r s i y. loop f r s i = Some y \<Longrightarrow> f = [] \<longrightarrow> i \<noteq> None \<longrightarrow> the i \<le> length s \<longrightarrow> False"
    and b: "(if i = None then Some s
       else loop f r (splice_at s (the i) (length f) r)
              (string_find f (the i + length r) (splice_at s (the i) (length f) r))) = Some y"
  show "f = [] \<longrightarrow> i \<noteq> None \<longrightarrow> the i \<le> length s \<longrightarrow> False"
  proof (intro impI)
    assume f: "f = []" and i: "i \<noteq> None" and le: "the i \<le> length s"
    have le': "the i + length r \<le> length (splice_at s (the i) 0 r)" using le by (simp add: splice_at_def)
    then have "loop [] r (splice_at s (the i) 0 r) (Some (the i + length r)) = Some y"
      using b f i string_find_empty[OF le'] by simp
    then show False using IH le' by fastforce
  qed
qed

section \<open>split\<close>

fun join_with :: "byte \<Rightarrow> byte list list \<Rightarrow> byte list" where
  "join_with d [] = []"
| "join_with d [p] = p"
| "join_with d (p # q # ps) = p @ d # join_with d (q # ps)"

lemma split_loop_ne: "split_loop ds mx s \<noteq> []"
  by (subst split_loop.simps) (auto split: option.splits)

lemma split_loop_ok:
  "1 < mx \<Longrightarrow> join_with d (split_loop [d] mx s) = s \<and> length (split_loop [d] mx s) \<le> mx \<and>
   (\<forall>p\<in>set (butlast (split_loop [d] mx s)). d \<notin> set p) \<and>
   (length (split_loop [d] mx s) < mx \<longrightarrow> d \<notin> set (last (split_loop [d] mx s)))"
proof (induction "length s" arbitrary: s mx rule: less_induct)
  case less
  show ?case
  proof (cases "find_from (starts_with_any [d]) s")
    case None
    then have "split_loop [d] mx s = [s]" by (simp add: split_loop.simps)
    then show ?thesis using None less.prems by (auto simp: find_from_any_None)
  next
    case (Some i)
    note i = find_from_any_Some[OF Some]
    let ?t = "drop (i + 1) s"
    have s: "take i s @ d # ?t = s" using i id_take_nth_drop[of i s] by auto
    show ?thesis
    proof (cases "mx - 1 = 1")
      case True
      then have "split_loop [d] mx s = [take i s, ?t]" using Some by (simp add: split_loop.simps[of "[d]" mx s])
      then show ?thesis using s i True less.prems by auto
    next
      case False
      then have sp: "split_loop [d] mx s = take i s # split_loop [d] (mx - 1) ?t"
        using Some by (simp add: split_loop.simps[of "[d]" mx s])
      have lt: "length ?t < length s" and gt: "1 < mx - 1" using i less.prems False by auto
      have IH: "join_with d (split_loop [d] (mx - 1) ?t) = ?t" "length (split_loop [d] (mx - 1) ?t) \<le> mx - 1"
        "\<forall>p\<in>set (butlast (split_loop [d] (mx - 1) ?t)). d \<notin> set p"
        "length (split_loop [d] (mx - 1) ?t) < mx - 1 \<longrightarrow> d \<notin> set (last (split_loop [d] (mx - 1) ?t))"
        using less.hyps[OF lt gt] by auto
      obtain q qs where q: "split_loop [d] (mx - 1) ?t = q # qs"
        using split_loop_ne by (cases "split_loop [d] (mx - 1) ?t") auto
      show ?thesis using s i IH less.prems unfolding sp q by auto
    qed
  qed
qed

section \<open>UTF-8\<close>

lemma unat_drop_bit: "unat (drop_bit n c :: 32 word) = unat c div 2 ^ n"
  unfolding unsigned_drop_bit_eq using unsigned_less[of c, where 'a = nat]
  by (simp add: drop_bit_eq_div take_bit_nat_eq_self)

lemma unat_masks:
  fixes x :: "32 word"
  shows "unat (x AND 0x3f) = unat x mod 64" "unat (x AND 0x1f) = unat x mod 32"
    "unat (x AND 0xf) = unat x mod 16" "unat (x AND 0x7) = unat x mod 8"
  using take_bit_eq_mask[of 6 "unat x"] take_bit_eq_mask[of 5 "unat x"]
    take_bit_eq_mask[of 4 "unat x"] take_bit_eq_mask[of 3 "unat x"]
  by (simp_all add: unsigned_and_eq take_bit_eq_mod mask_eq_exp_minus_1)

lemma unat_prefixes:
  fixes y :: "32 word"
  shows "unat y < 64 \<Longrightarrow> unat (0x80 OR y) = 128 + unat y"
    "unat y < 32 \<Longrightarrow> unat (0xc0 OR y) = 192 + unat y"
    "unat y < 16 \<Longrightarrow> unat (0xe0 OR y) = 224 + unat y"
    "unat y < 8 \<Longrightarrow> unat (0xf0 OR y) = 240 + unat y"
  using or_shifted[of "unat y" 6 2] or_shifted[of "unat y" 5 6] or_shifted[of "unat y" 4 14] or_shifted[of "unat y" 3 30]
  by (simp_all add: unsigned_or_eq push_bit_eq_mult)

lemma of_char_byte_of_word: "of_char (byte_of_word w) = unat w mod 256"
  by (simp add: byte_of_word_def)

text \<open>The code point of one UTF-8 sequence, after RFC 3629.\<close>

definition continuation :: "nat \<Rightarrow> bool" where
  "continuation b \<longleftrightarrow> 128 \<le> b \<and> b < 192"

fun utf8_value :: "nat list \<Rightarrow> nat option" where
  "utf8_value [a] = (if a < 128 then Some a else None)"
| "utf8_value [a, b] =
     (if 192 \<le> a \<and> a < 224 \<and> continuation b then Some ((a - 192) * 64 + (b - 128)) else None)"
| "utf8_value [a, b, c] =
     (if 224 \<le> a \<and> a < 240 \<and> continuation b \<and> continuation c
      then Some (((a - 224) * 64 + (b - 128)) * 64 + (c - 128)) else None)"
| "utf8_value [a, b, c, d] =
     (if 240 \<le> a \<and> a < 248 \<and> continuation b \<and> continuation c \<and> continuation d
      then Some ((((a - 240) * 64 + (b - 128)) * 64 + (c - 128)) * 64 + (d - 128)) else None)"
| "utf8_value _ = None"

lemma utf8_value_seq:
  "a < 32 \<Longrightarrow> b < 64 \<Longrightarrow> utf8_value [192 + a, 128 + b] = Some (a * 64 + b)"
  "a < 16 \<Longrightarrow> b < 64 \<Longrightarrow> c < 64 \<Longrightarrow> utf8_value [224 + a, 128 + b, 128 + c] = Some ((a * 64 + b) * 64 + c)"
  "a < 8 \<Longrightarrow> b < 64 \<Longrightarrow> c < 64 \<Longrightarrow> d < 64 \<Longrightarrow>
     utf8_value [240 + a, 128 + b, 128 + c, 128 + d] = Some (((a * 64 + b) * 64 + c) * 64 + d)"
  by (auto simp: continuation_def)

declare utf8_value.simps [simp del]

lemma of_char_prefixed:
  fixes y :: "32 word"
  shows "of_char (byte_of_word (0x80 OR (y AND 0x3f))) = 128 + unat y mod 64"
    "of_char (byte_of_word (0xc0 OR (y AND 0x1f))) = 192 + unat y mod 32"
    "of_char (byte_of_word (0xe0 OR (y AND 0xf))) = 224 + unat y mod 16"
    "of_char (byte_of_word (0xf0 OR (y AND 0x7))) = 240 + unat y mod 8"
proof -
  have m: "unat y mod 64 < 64" "unat y mod 32 < 32" "unat y mod 16 < 16" "unat y mod 8 < 8" by simp_all
  show "of_char (byte_of_word (0x80 OR (y AND 0x3f))) = 128 + unat y mod 64"
    "of_char (byte_of_word (0xc0 OR (y AND 0x1f))) = 192 + unat y mod 32"
    "of_char (byte_of_word (0xe0 OR (y AND 0xf))) = 224 + unat y mod 16"
    "of_char (byte_of_word (0xf0 OR (y AND 0x7))) = 240 + unat y mod 8"
    unfolding of_char_byte_of_word using m by (simp_all add: unat_prefixes unat_masks)
qed

lemma toUtf8_ok:
  assumes "c \<le> 0x10ffff"
  shows "\<exists>bs. toUtf8 c = Inr bs \<and> utf8_value (map of_char bs) = Some (unat c) \<and>
     length bs = (if unat c < 128 then 1 else if unat c < 2048 then 2 else if unat c < 65536 then 3 else 4)"
proof -
  define n where "n = unat c"
  have n: "n \<le> 1114111" using assms by (simp add: n_def word_le_nat_alt)
  have le: "c \<le> 0x7f \<longleftrightarrow> n < 128" "c \<le> 0x7ff \<longleftrightarrow> n < 2048" "c \<le> 0xffff \<longleftrightarrow> n < 65536"
    by (auto simp: n_def word_le_nat_alt)
  note bytes = of_char_prefixed unat_drop_bit n_def[symmetric]
  consider "n < 128" | "\<not> n < 128" "n < 2048" | "\<not> n < 2048" "n < 65536" | "\<not> n < 65536" by linarith
  then show ?thesis
  proof cases
    case 1
    then show ?thesis using assms by (simp add: toUtf8_def le of_char_byte_of_word n_def[symmetric] utf8_value.simps)
  next
    case 2
    then have d: "n div 64 < 32" by (simp add: div_less_iff_less_mult)
    then have "utf8_value [192 + n div 64, 128 + n mod 64] = Some n"
      by (simp only: utf8_value_seq mod_less_divisor zero_less_numeral div_mult_mod_eq)
    then show ?thesis using 2 assms d by (simp add: toUtf8_def le bytes)
  next
    case 3
    then have d: "n div 4096 < 16" by (simp add: div_less_iff_less_mult)
    have "(n div 4096 * 64 + n div 64 mod 64) * 64 + n mod 64 = n"
      using div_mult_mod_eq[of "n div 64" 64] by (simp add: div_mult2_eq[symmetric])
    then have "utf8_value [224 + n div 4096, 128 + n div 64 mod 64, 128 + n mod 64] = Some n"
      using d by (simp only: utf8_value_seq mod_less_divisor zero_less_numeral)
    then show ?thesis using 3 assms d by (simp add: toUtf8_def le bytes)
  next
    case 4
    then have d: "n div 262144 < 8" using n by (simp add: div_less_iff_less_mult)
    then have "utf8_value [240 + n div 262144, 128 + n div 4096 mod 64, 128 + n div 64 mod 64, 128 + n mod 64] = Some n"
      by (simp only: utf8_value_seq mod_less_divisor zero_less_numeral sextets_nat)
    then show ?thesis using 4 assms d by (simp add: toUtf8_def le bytes)
  qed
qed

text \<open>A surrogate pair stands for a code point above the basic plane.\<close>

lemma toUtf32_ok:
  assumes "isHighSurrogate hi" and "isLowSurrogate lo"
  shows "\<exists>c. toUtf32 hi lo = Inr c \<and> unat c = 65536 + (unat hi - 55296) * 1024 + (unat lo - 56320) \<and>
     65536 \<le> unat c \<and> c \<le> 0x10ffff"
proof -
  have h: "55296 \<le> unat hi" "unat hi \<le> 56319" and l: "56320 \<le> unat lo" "unat lo \<le> 57343"
    using assms by (auto simp: isHighSurrogate_def isLowSurrogate_def word_le_nat_alt)
  have tb: "take_bit 32 (unat hi) = unat hi" "take_bit 32 (unat lo) = unat lo"
    using h(2) l(2) by (simp_all add: take_bit_nat_eq_self)
  have uh: "unat (ucast hi - 0xd800 :: 32 word) = unat hi - 55296"
    using h(1) by (subst unat_sub) (auto simp: word_le_nat_alt unsigned_ucast_eq tb)
  have ul: "unat (ucast lo - 0xdc00 :: 32 word) = unat lo - 56320"
    using l(1) by (subst unat_sub) (auto simp: word_le_nat_alt unsigned_ucast_eq tb)
  define c where "c = (push_bit 10 (ucast hi - 0xd800 :: 32 word) OR (ucast lo - 0xdc00)) + 0x10000"
  have sm: "unat lo - 56320 < 2 ^ 10" using l by simp
  have "unat (push_bit 10 (ucast hi - 0xd800 :: 32 word)) = push_bit 10 (unat hi - 55296)"
    unfolding unsigned_push_bit_eq uh using h by (intro take_bit_nat_eq_self) (simp add: push_bit_eq_mult)
  then have or: "unat (push_bit 10 (ucast hi - 0xd800 :: 32 word) OR (ucast lo - 0xdc00)) =
      (unat hi - 55296) * 1024 + (unat lo - 56320)"
    using or_shifted[OF sm] by (simp add: unsigned_or_eq ul)
  have "unat c = 65536 + (unat hi - 55296) * 1024 + (unat lo - 56320)"
    unfolding c_def using h l by (subst unat_add_lem[THEN iffD1]) (simp_all add: or)
  moreover have "toUtf32 hi lo = Inr c" using assms by (simp add: toUtf32_def c_def)
  ultimately show ?thesis using h l by (auto simp: word_le_nat_alt)
qed

section \<open>The case-insensitive order\<close>

definition lower_codes :: "byte list \<Rightarrow> nat list" where
  "lower_codes s = map (of_char \<circ> tolower) (c_str s)"

lemma stricmp_loop_lt: "stricmp_loop xs ys < 0 \<longleftrightarrow>
    (map (of_char \<circ> tolower) xs, map (of_char \<circ> tolower) ys) \<in> lexord {(a, b :: nat). a < b}"
  by (induction xs ys rule: stricmp_loop.induct) auto

lemma caseinsensitiveless_lex:
  "caseinsensitiveless x y \<longleftrightarrow> (lower_codes x, lower_codes y) \<in> lexord {(a, b). a < b}"
  by (simp add: caseinsensitiveless_def stricmp_loop_lt lower_codes_def)

end
