(* ===== verification/Strings_Props.thy ===== *)
theory Strings_Props
  imports Strings_Text
begin

text \<open>
  The properties of the string utilities, with the parsing of durations.
\<close>

section \<open>Durations\<close>

lemma tolower_zero: "tolower c = CHR 0x00 \<longleftrightarrow> c = CHR 0x00"
  by (auto simp: tolower_def Let_def char_eq_code)

lemma c_str_tolower_eq:
  assumes "length x = length y" and "CHR 0x00 \<notin> set y"
  shows "map tolower (c_str x) = map tolower (c_str y) \<longleftrightarrow> map tolower x = map tolower y"
proof -
  have y: "c_str y = y" using assms(2) by (auto simp: c_str_def takeWhile_eq_all_conv)
  have full: "c_str x = x" if "length (c_str x) = length x"
    using that by (metis c_str_def append_eq_conv_conj takeWhile_dropWhile_id append_Nil2 take_all_iff le_refl)
  show ?thesis
  proof
    assume "map tolower (c_str x) = map tolower (c_str y)"
    then show "map tolower x = map tolower y"
      using full y assms(1) by (metis length_map)
  next
    assume eq: "map tolower x = map tolower y"
    have "CHR 0x00 \<notin> tolower ` set y" using assms(2) tolower_zero by (metis imageE)
    then have "CHR 0x00 \<notin> tolower ` set x" using arg_cong[OF eq, of set] by simp
    then have "CHR 0x00 \<notin> set x" using tolower_zero by (metis imageI)
    then have "c_str x = x" by (auto simp: c_str_def takeWhile_eq_all_conv)
    then show "map tolower (c_str x) = map tolower (c_str y)" using y eq by simp
  qed
qed

lemma endsWith_rev:
  assumes "CHR 0x00 \<notin> set suf"
  shows "endsWith s suf \<longleftrightarrow> take (length suf) (map tolower (rev s)) = map tolower (rev suf)"
proof -
  have "endsWith s suf \<longleftrightarrow> length suf \<le> length s \<and> drop (length s - length suf) (map tolower s) = map tolower suf"
    using c_str_tolower_eq[of "drop (length s - length suf) s", OF _ assms] by (auto simp: endsWith_def drop_map)
  moreover have "length suf \<le> length s" if "drop (length s - length suf) (map tolower s) = map tolower suf"
    using arg_cong[OF that, of length] by simp
  ultimately show ?thesis
    by (auto simp: rev_map[symmetric] take_rev drop_map)
qed

definition no_letter :: "byte \<Rightarrow> bool" where
  "no_letter c \<longleftrightarrow> (of_char c :: nat) < 65"

lemma tolower_no_letter: "no_letter c \<Longrightarrow> 65 \<le> (of_char d :: nat) \<Longrightarrow> tolower c \<noteq> d"
  by (auto simp: tolower_def no_letter_def)

definition unit_word :: "byte list \<Rightarrow> bool" where
  "unit_word u \<longleftrightarrow> (\<forall>d\<in>set u. 97 \<le> (of_char d :: nat))"

lemma unit_word_tolower: "unit_word u \<Longrightarrow> map tolower u = u"
  by (auto simp: unit_word_def tolower_def Let_def intro!: map_idI)

lemma endsWith_unit:
  assumes "unit_word u" and "unit_word suf" and "no_letter c"
  shows "endsWith (rev (c # t) @ u) suf \<longleftrightarrow> take (length suf) (rev u) = rev suf"
proof -
  have tl: "map tolower (rev u) = rev u" "map tolower (rev suf) = rev suf"
    using assms(1,2) by (simp_all add: unit_word_tolower rev_map[symmetric])
  have "endsWith (rev (c # t) @ u) suf \<longleftrightarrow>
      take (length suf) (rev u @ tolower c # map tolower t) = rev suf"
    using tl endsWith_rev[of suf] assms(2) by (force simp: unit_word_def simp del: rev.simps)
  also have "\<dots> \<longleftrightarrow> take (length suf) (rev u) = rev suf"
  proof (cases "length suf \<le> length u")
    case True
    then show ?thesis by simp
  next
    case False
    have "tolower c \<in> set (take (length suf) (rev u @ tolower c # map tolower t))"
      using False by (cases "length suf - length u") auto
    moreover have "tolower c \<notin> set suf"
    proof
      assume "tolower c \<in> set suf"
      then have "97 \<le> (of_char (tolower c) :: nat)" using assms(2) by (simp add: unit_word_def)
      then show False using tolower_no_letter[OF assms(3), of "tolower c"] by simp
    qed
    moreover have "take (length suf) (rev u) \<noteq> rev suf"
      using False arg_cong[of "take (length suf) (rev u)" "rev suf" length] by auto
    ultimately show ?thesis by (metis set_rev)
  qed
  finally show ?thesis .
qed

lemma suffixes_unit: "(u, m) \<in> set suffixes \<Longrightarrow> unit_word u"
  by (auto simp: suffixes_def unit_word_def)

lemma match_suffix_unit_list:
  assumes "\<forall>(suf, m)\<in>set ss. unit_word suf" and "unit_word u" and "no_letter c"
  shows "match_suffix ss (rev (c # t) @ u) =
    (case find (\<lambda>(suf, m). take (length suf) (rev u) = rev suf) ss of
       None \<Rightarrow> (1, rev (c # t) @ u)
     | Some (suf, m) \<Rightarrow> (m, take (length (rev (c # t) @ u) - length suf) (rev (c # t) @ u)))"
  using assms
proof (induction ss)
  case (Cons x ss)
  then show ?case
    by (cases x) (simp add: endsWith_unit del: rev.simps)
qed simp

lemma suffixes_distinguished:
  "list_all (\<lambda>(u, m). find (\<lambda>(suf, m). take (length suf) (rev u) = rev suf) suffixes = Some (u, m)) suffixes"
  by (simp add: suffixes_def)

lemma find_unit:
  "(u, m) \<in> set suffixes \<Longrightarrow> find (\<lambda>(suf, m). take (length suf) (rev u) = rev suf) suffixes = Some (u, m)"
  using suffixes_distinguished unfolding list_all_iff by blast

lemma match_suffix_unit:
  assumes "(u, m) \<in> set suffixes" and "no_letter c"
  shows "match_suffix suffixes (rev (c # t) @ u) = (m, rev (c # t))"
proof -
  have "\<forall>(suf, m)\<in>set suffixes. unit_word suf" using suffixes_unit by blast
  from match_suffix_unit_list[OF this suffixes_unit[OF assms(1)] assms(2), of t] show ?thesis
    by (simp add: find_unit[OF assms(1)] del: rev.simps)
qed

text \<open>Stripping spaces around a string that neither begins nor ends with one.\<close>

lemma strip_leading_spaces:
  "hd s \<noteq> CHR '' '' \<Longrightarrow> s \<noteq> [] \<Longrightarrow> strip_leading (replicate n (CHR '' '') @ s) = s"
proof (induction n)
  case 0
  then show ?case by (cases s rule: strip_leading.cases) auto
next
  case (Suc n)
  then obtain d ds where "replicate n (CHR '' '') @ s = d # ds"
    by (cases "replicate n (CHR '' '') @ s") auto
  then show ?case using Suc by simp
qed

lemma strip_trailing_spaces:
  "last s \<noteq> CHR '' '' \<Longrightarrow> s \<noteq> [] \<Longrightarrow> strip_trailing (s @ replicate n (CHR '' '')) = s"
  using strip_leading_spaces[of "rev s" n] by (simp add: strip_trailing_def hd_rev)

definition digits :: "byte list \<Rightarrow> bool" where
  "digits ds \<longleftrightarrow> ds \<noteq> [] \<and> (\<forall>d\<in>set ds. 48 \<le> (of_char d :: nat) \<and> (of_char d :: nat) \<le> 57)"

lemma digit_no_letter: "digits ds \<Longrightarrow> d \<in> set ds \<Longrightarrow> no_letter d \<and> d \<noteq> CHR '' '' \<and> d \<noteq> CHR ''.''"
  by (fastforce simp: digits_def no_letter_def)

lemma suffix_last: "(u, m) \<in> set suffixes \<Longrightarrow> u \<noteq> [] \<and> last u \<noteq> CHR '' ''"
  by (auto simp: suffixes_def)

lemma stringToMicroseconds_unit:
  assumes "digits ds" and "(u, m) \<in> set suffixes"
  shows "stringToMicroseconds cast dbl
      (replicate a (CHR '' '') @ ds @ replicate b (CHR '' '') @ u @ replicate c (CHR '' '')) =
    andThen (cast ds) (\<lambda>v. Inr (m * v mod size_mod))"
proof -
  have ds: "ds \<noteq> []" "hd ds \<noteq> CHR '' ''" "last ds \<noteq> CHR '' ''" "CHR ''.'' \<notin> set ds"
    using assms(1) digit_no_letter[OF assms(1)] by (auto simp: digits_def)
  note u = suffix_last[OF assms(2)]
  have "strip_leading (replicate a (CHR '' '') @ ds @ replicate b (CHR '' '') @ u @ replicate c (CHR '' ''))
      = ds @ replicate b (CHR '' '') @ u @ replicate c (CHR '' '')"
    using ds by (intro strip_leading_spaces) auto
  moreover have "strip_trailing (ds @ replicate b (CHR '' '') @ u @ replicate c (CHR '' ''))
      = ds @ replicate b (CHR '' '') @ u"
    using strip_trailing_spaces[of "ds @ replicate b (CHR '' '') @ u" c] u by simp
  moreover obtain x t where x: "rev (ds @ replicate b (CHR '' '')) = x # t" "no_letter x"
  proof (cases b)
    case 0
    then show thesis
      using that[of "last ds" "rev (butlast ds)"] digit_no_letter[OF assms(1)] ds(1)
      by (metis append_Nil2 append_butlast_last_id last_in_set replicate_0 rev.simps(2) rev_rev_ident rev_append rev_singleton_conv append_Cons append_Nil)
  next
    case (Suc n)
    then show thesis
      using that[of "CHR '' ''" "replicate n (CHR '' '') @ rev ds"] by (simp add: no_letter_def replicate_append_same)
  qed
  moreover have "match_suffix suffixes (ds @ replicate b (CHR '' '') @ u) = (m, ds @ replicate b (CHR '' ''))"
    using match_suffix_unit[OF assms(2) x(2), of t] unfolding x(1)[symmetric] by simp
  moreover have "strip_trailing (ds @ replicate b (CHR '' '')) = ds"
    using ds by (intro strip_trailing_spaces)
  ultimately show ?thesis using ds(4) by (simp add: stringToMicroseconds_def Let_def)
qed

section \<open>Properties\<close>

text \<open>
  C15. Base64 round trip: decoding what \<open>base64encode\<close> returns gives back the bytes, and the
  encoding has four characters for every three bytes begun.
\<close>

theorem base64_roundtrip:
  "base64decode (base64encode xs) = Inr xs \<and> length (base64encode xs) = 4 * ((length xs + 2) div 3)"
proof -
  have "length xs \<le> length (base64encode xs) * 3 div 4"
    by (simp add: length_base64encode mult.commute[of _ 3])
  then show ?thesis
    using base64decode_encode_loop[of "[]" xs] length_base64encode[of xs] by (simp add: base64decode_def)
qed

text \<open>
  \<open>base64decode\<close> is memory safe on every input, valid or not: none of its writes through
  \<open>writeBuf\<close> lies outside the string it has resized, and it always returns.
\<close>

lemma base64decode_memory_safe: "\<exists>r. base64decode src = Inr r"
proof -
  have "3 * (length src div 4) \<le> length src * 3 div 4" by linarith
  then show ?thesis
    using base64decode_loop_safe[of "[]" src] by (simp add: base64decode_def)
qed

text \<open>
  Hexadecimal round trips: \<open>dataFromHexstring\<close> inverts \<open>hexstringFromData\<close>, and what it
  accepts encodes back to the same digits in lower case. It throws \<open>std::invalid_argument\<close>
  exactly for an odd length or a character that is not a hexadecimal digit.
\<close>

lemma hex_roundtrip:
  "dataFromHexstring (hexstringFromData xs) = Inr xs \<and>
   (if odd (length s) \<or> (\<exists>c\<in>set s. hex_value c = None) then dataFromHexstring s = Inl InvalidArgument
    else \<exists>bs. dataFromHexstring s = Inr bs \<and> hexstringFromData bs = map tolower s)"
proof
  show "dataFromHexstring (hexstringFromData xs) = Inr xs"
    using length_hexstring[of xs] by (cases xs) (simp_all add: dataFromHexstring_def dataFromHex_encode del: hexstringFromData.simps(2))
  show "if odd (length s) \<or> (\<exists>c\<in>set s. hex_value c = None) then dataFromHexstring s = Inl InvalidArgument
    else \<exists>bs. dataFromHexstring s = Inr bs \<and> hexstringFromData bs = map tolower s"
    using dataFromHex_decode[of s]
    by (cases "even (length s)"; cases "s = []") (auto simp: dataFromHexstring_def even_iff_mod_2_eq_zero split: if_splits)
qed

lemma hex_roundtrip_example:
  "dataFromHexstring (hexstringFromData [CHR 0x0A, CHR 0xFF]) = Inr [CHR 0x0A, CHR 0xFF] \<and>
   (\<exists>bs. dataFromHexstring ''0aFf'' = Inr bs \<and> hexstringFromData bs = map tolower ''0aFf'')"
  using hex_roundtrip[of "[CHR 0x0A, CHR 0xFF]" "''0aFf''"] by (simp add: hex_value_def)

text \<open>
  C40. \<open>replace\<close> of a character changes exactly its occurrences. \<open>replace\<close> of a string
  returns and gives the left-to-right replacement without overlaps, even if the replacement
  contains the pattern; with an empty pattern it never returns.
\<close>

theorem replace_correct:
  "replace_char s c d = map (\<lambda>x. if x = c then d else x) s \<and>
   replace_char_string s c r = Some (concat (map (\<lambda>x. if x = c then r else [x]) s)) \<and>
   replace_string s f r = (if f = [] then None else Some (replace_all f r s))"
proof (intro conjI)
  show "replace_char s c d = map (\<lambda>x. if x = c then d else x) s"
    using replace_char_loop_ok[of 0 s c d] by (simp add: replace_char_def)
  have "replace_all [c] r s = concat (map (\<lambda>x. if x = c then r else [x]) s)"
    by (induction s) (auto simp: replace_all.simps)
  then show "replace_char_string s c r = Some (concat (map (\<lambda>x. if x = c then r else [x]) s))"
    using replace_loop_ok[of "[c]" 0 s r] by (simp add: replace_char_string_def)
  show "replace_string s f r = (if f = [] then None else Some (replace_all f r s))"
  proof (cases "f = []")
    case True
    have "string_find [] 0 s = Some 0" by (rule string_find_empty) simp
    then show ?thesis
      using True replace_loop_empty[of "[]" r s "Some 0"] by (cases "replace_string s [] r") (auto simp: replace_string_def)
  next
    case False
    then show ?thesis using replace_loop_ok[OF False, of 0 s r] by (simp add: replace_string_def)
  qed
qed

text \<open>
  \<open>split\<close> at a character loses nothing: joining the pieces with the delimiter gives the
  string back. There are at most \<open>max\<close> pieces, only the last can contain the delimiter, and
  it does only when the limit was reached.
\<close>

lemma split_joins:
  assumes "1 < mx"
  shows "\<exists>ps. split_char s d mx = Inr ps \<and> join_with d ps = s \<and> length ps \<le> mx \<and>
     (\<forall>p\<in>set (butlast ps). d \<notin> set p) \<and> (length ps < mx \<and> ps \<noteq> [] \<longrightarrow> d \<notin> set (last ps))"
  using split_loop_ok[OF assms, of d s] assms by (cases "s = []") (auto simp: split_char_def)

lemma split_joins_example:
  "\<exists>ps. split_char ''a,b,c'' (CHR '','') 2 = Inr ps \<and> join_with (CHR '','') ps = ''a,b,c'' \<and> length ps \<le> 2"
  using split_joins[of 2 "''a,b,c''" "CHR '',''"] by auto

text \<open>
  C39. \<open>toUtf8\<close> writes the shortest UTF-8 sequence of every code point up to \<open>U+10FFFF\<close>,
  from which the code point can be read back. A pair of surrogates gives a code point between
  \<open>U+10000\<close> and \<open>U+10FFFF\<close>, so its conversion passes the assertion of \<open>toUtf8\<close>.
\<close>

theorem utf8_correct:
  "(c \<le> 0x10ffff \<longrightarrow>
     (\<exists>bs. toUtf8 c = Inr bs \<and> utf8_value (map of_char bs) = Some (unat c) \<and>
       length bs = (if unat c < 128 then 1 else if unat c < 2048 then 2 else if unat c < 65536 then 3 else 4))) \<and>
   (isHighSurrogate hi \<and> isLowSurrogate lo \<longrightarrow>
     (\<exists>bs. toUtf8_pair hi lo = Inr bs \<and> length bs = 4 \<and>
       utf8_value (map of_char bs) = Some (65536 + (unat hi - 55296) * 1024 + (unat lo - 56320))))"
proof (intro conjI impI)
  assume "c \<le> 0x10ffff"
  then show "\<exists>bs. toUtf8 c = Inr bs \<and> utf8_value (map of_char bs) = Some (unat c) \<and>
       length bs = (if unat c < 128 then 1 else if unat c < 2048 then 2 else if unat c < 65536 then 3 else 4)"
    by (rule toUtf8_ok)
next
  assume "isHighSurrogate hi \<and> isLowSurrogate lo"
  then obtain d where d: "toUtf32 hi lo = Inr d" "unat d = 65536 + (unat hi - 55296) * 1024 + (unat lo - 56320)"
      "65536 \<le> unat d" "d \<le> 0x10ffff"
    using toUtf32_ok by blast
  from toUtf8_ok[OF d(4)] d(1-3) show "\<exists>bs. toUtf8_pair hi lo = Inr bs \<and> length bs = 4 \<and>
       utf8_value (map of_char bs) = Some (65536 + (unat hi - 55296) * 1024 + (unat lo - 56320))"
    by (auto simp: toUtf8_pair_def)
qed

theorem utf8_correct_witness:
  "(\<exists>bs. toUtf8 0x20ac = Inr bs \<and> utf8_value (map of_char bs) = Some 8364 \<and> length bs = 3) \<and>
   (\<exists>bs. toUtf8_pair 0xd83d 0xde00 = Inr bs \<and> length bs = 4 \<and> utf8_value (map of_char bs) = Some 128512)"
  using utf8_correct[of "0x20ac" "0xd83d" "0xde00"] by (simp add: isHighSurrogate_def isLowSurrogate_def)

text \<open>
  \<open>stringToMicroseconds\<close> reads a whole number with any of the documented units, with
  spaces before, between and after: the result is the number times the multiplier of that
  unit, modulo \<open>2 ^ 64\<close>. No unit is taken for another one although they are matched as
  suffixes.
\<close>

lemma stringToMicroseconds_units:
  assumes "digits ds" and "(u, m) \<in> set suffixes" and "cast ds = Inr v"
  shows "stringToMicroseconds cast dbl
      (replicate a (CHR '' '') @ ds @ replicate b (CHR '' '') @ u @ replicate c (CHR '' '')) =
    Inr (m * v mod size_mod)"
  using stringToMicroseconds_unit[OF assms(1,2)] assms(3) by simp

lemma stringToMicroseconds_units_example:
  "stringToMicroseconds (\<lambda>s. if s = ''15'' then Inr 15 else Inl InvalidArgument) (\<lambda>_ _. Inl InvalidArgument)
     ('' 15 minutes'') = Inr 900000000"
  using stringToMicroseconds_units[of "''15''" "''minutes''" "60 * 1000000"
      "\<lambda>s. if s = ''15'' then Inr 15 else Inl InvalidArgument" 15 "\<lambda>_ _. Inl InvalidArgument" 1 1 0]
  by (simp add: digits_def suffixes_def)

text \<open>
  \<open>caseinsensitiveless\<close> is a strict weak order, as the maps keyed by it need: irreflexive
  and transitive, and two strings are equivalent exactly if they agree up to letter case, as
  far as their first zero character.
\<close>

lemma caseinsensitiveless_order:
  "\<not> caseinsensitiveless x x \<and>
   (caseinsensitiveless x y \<and> caseinsensitiveless y z \<longrightarrow> caseinsensitiveless x z) \<and>
   (\<not> caseinsensitiveless x y \<and> \<not> caseinsensitiveless y x \<longleftrightarrow> lower_codes x = lower_codes y)"
proof -
  let ?R = "{(a, b :: nat). a < b}"
  have irr: "irrefl ?R" and tr: "trans ?R" and tot: "total ?R"
    by (auto simp: irrefl_def trans_def total_on_def)
  have "(lower_codes x, lower_codes x) \<notin> lexord ?R" using irr by (auto simp: lexord_irreflexive)
  moreover have "(lower_codes x, lower_codes y) \<in> lexord ?R \<Longrightarrow> (lower_codes y, lower_codes z) \<in> lexord ?R \<Longrightarrow>
      (lower_codes x, lower_codes z) \<in> lexord ?R"
    using lexord_transI[OF tr] unfolding trans_def by blast
  moreover have "(lower_codes x, lower_codes y) \<in> lexord ?R \<or> lower_codes x = lower_codes y \<or>
      (lower_codes y, lower_codes x) \<in> lexord ?R"
    by (rule lexord_linear) auto
  moreover have "lower_codes x = lower_codes y \<Longrightarrow> (lower_codes x, lower_codes y) \<notin> lexord ?R \<and>
      (lower_codes y, lower_codes x) \<notin> lexord ?R"
    by (auto simp: lexord_irreflexive)
  ultimately show ?thesis unfolding caseinsensitiveless_lex by blast
qed

lemma caseinsensitiveless_order_example:
  "caseinsensitiveless ''Accept'' ''content'' \<and> caseinsensitiveless ''content'' ''HOST'' \<and>
   caseinsensitiveless ''Accept'' ''HOST''"
proof -
  have "caseinsensitiveless ''Accept'' ''content''" "caseinsensitiveless ''content'' ''HOST''"
    by (simp_all add: caseinsensitiveless_def c_str_def tolower_def char_eq_code)
  then show ?thesis using caseinsensitiveless_order[of "''Accept''" "''content''" "''HOST''"] by simp
qed

end
