(* ===== verification/Ordered_Set.thy ===== *)
theory Ordered_Set
  imports Prelude
begin

text \<open>
  \<open>std::set\<close> with a comparator, as the list of its elements from \<open>begin()\<close> to \<open>end()\<close>. The
  operations look an element up with the comparator only, as the library does; an iterator is
  the suffix of the list it points to. The locale holds what a comparator has to satisfy and
  what the operations then promise.
\<close>

definition set_lower_bound :: "('a \<Rightarrow> 'a \<Rightarrow> bool) \<Rightarrow> 'a \<Rightarrow> 'a list \<Rightarrow> 'a list" where
  "set_lower_bound cmp x xs = dropWhile (\<lambda>y. cmp y x) xs"

definition set_has :: "('a \<Rightarrow> 'a \<Rightarrow> bool) \<Rightarrow> 'a \<Rightarrow> 'a list \<Rightarrow> bool" where
  "set_has cmp x xs = (case set_lower_bound cmp x xs of [] \<Rightarrow> False | y # ys \<Rightarrow> \<not> cmp x y)"

text \<open>Erasing the element an iterator points to, found by \<open>set_has\<close>.\<close>

definition set_erase :: "('a \<Rightarrow> 'a \<Rightarrow> bool) \<Rightarrow> 'a \<Rightarrow> 'a list \<Rightarrow> 'a list" where
  "set_erase cmp x xs = takeWhile (\<lambda>y. cmp y x) xs @ tl (set_lower_bound cmp x xs)"

text \<open>Insertion returns the new set and whether the iterator it returns is \<open>begin()\<close>.\<close>

definition set_insert :: "('a \<Rightarrow> 'a \<Rightarrow> bool) \<Rightarrow> 'a \<Rightarrow> 'a list \<Rightarrow> 'a list \<times> bool" where
  "set_insert cmp x xs =
     (if set_has cmp x xs then xs
      else takeWhile (\<lambda>y. cmp y x) xs @ x # set_lower_bound cmp x xs,
      takeWhile (\<lambda>y. cmp y x) xs = [])"

locale set_order =
  fixes cmp :: "'a \<Rightarrow> 'a \<Rightarrow> bool"
  assumes irrefl: "\<not> cmp x x"
    and trans: "cmp x y \<Longrightarrow> cmp y z \<Longrightarrow> cmp x z"
    and linear: "x = y \<or> cmp x y \<or> cmp y x"
begin

lemma sorted_not_mem: "sorted_wrt cmp (x # xs) \<Longrightarrow> x \<notin> set xs"
  using irrefl by auto

lemma sorted_distinct: "sorted_wrt cmp xs \<Longrightarrow> distinct xs"
  using irrefl by (induction xs) auto

lemma takeWhile_all: "x \<in> set (takeWhile (\<lambda>y. cmp y z) xs) \<Longrightarrow> cmp x z"
  by (auto dest: set_takeWhileD)

lemma lower_bound_ge:
  "sorted_wrt cmp xs \<Longrightarrow> y \<in> set (set_lower_bound cmp x xs) \<Longrightarrow> y = x \<or> cmp x y"
proof (induction xs)
  case (Cons a xs)
  show ?case
  proof (cases "cmp a x")
    case True
    then show ?thesis using Cons by (simp add: set_lower_bound_def)
  next
    case False
    then have "a = x \<or> cmp x a" using linear by blast
    then show ?thesis using Cons.prems False by (auto simp: set_lower_bound_def intro: trans)
  qed
qed (simp add: set_lower_bound_def)

lemma split_at: "xs = takeWhile (\<lambda>y. cmp y x) xs @ set_lower_bound cmp x xs"
  by (simp add: set_lower_bound_def)

lemma has_iff:
  assumes "sorted_wrt cmp xs"
  shows "set_has cmp x xs \<longleftrightarrow> x \<in> set xs"
proof
  assume "set_has cmp x xs"
  then obtain y ys where l: "set_lower_bound cmp x xs = y # ys" and n: "\<not> cmp x y"
    by (auto simp: set_has_def split: list.splits)
  have "y = x \<or> cmp x y" by (rule lower_bound_ge[OF assms]) (simp add: l)
  then have "x \<in> set (set_lower_bound cmp x xs)" using n l by simp
  then show "x \<in> set xs" by (metis UnI2 set_append split_at)
next
  assume x: "x \<in> set xs"
  have "x \<notin> set (takeWhile (\<lambda>y. cmp y x) xs)" using takeWhile_all irrefl by blast
  then have m: "x \<in> set (set_lower_bound cmp x xs)" using x split_at[of xs x] by (metis Un_iff set_append)
  then obtain y ys where l: "set_lower_bound cmp x xs = y # ys" by (cases "set_lower_bound cmp x xs") auto
  have "sorted_wrt cmp (y # ys)" using assms split_at[of xs x] l by (metis sorted_wrt_append)
  then have "\<not> cmp x y" using m l irrefl trans by (metis set_ConsD sorted_wrt.simps(2))
  then show "set_has cmp x xs" using l by (simp add: set_has_def)
qed

lemma erase_set:
  assumes "sorted_wrt cmp xs" and "x \<in> set xs"
  shows "sorted_wrt cmp (set_erase cmp x xs) \<and> set (set_erase cmp x xs) = set xs - {x}"
proof -
  obtain y ys where l: "set_lower_bound cmp x xs = y # ys" and n: "\<not> cmp x y"
    using has_iff[OF assms(1), of x] assms(2) by (auto simp: set_has_def split: list.splits)
  have "y = x \<or> cmp x y" by (rule lower_bound_ge[OF assms(1)]) (simp add: l)
  then have y: "y = x" using n by simp
  obtain t where t: "takeWhile (\<lambda>y. cmp y x) xs = t" by simp
  have xs: "xs = t @ x # ys" using split_at[of xs x] l y t by simp
  have s: "sorted_wrt cmp (t @ x # ys)" using assms(1) unfolding xs .
  then have "sorted_wrt cmp (t @ ys)" by (auto simp: sorted_wrt_append)
  moreover have "set (t @ ys) = set xs - {x}"
    using sorted_distinct[OF s] by (auto simp: xs)
  ultimately show ?thesis using l t by (simp add: set_erase_def)
qed

lemma insert_set:
  assumes "sorted_wrt cmp xs"
  shows "sorted_wrt cmp (fst (set_insert cmp x xs)) \<and> set (fst (set_insert cmp x xs)) = insert x (set xs)"
proof (cases "set_has cmp x xs")
  case True
  then show ?thesis using assms has_iff[OF assms, of x] by (auto simp: set_insert_def)
next
  case False
  obtain t d where t: "takeWhile (\<lambda>y. cmp y x) xs = t" and d: "set_lower_bound cmp x xs = d" by simp
  have xs: "xs = t @ d" using split_at[of xs x] unfolding t d .
  have x: "x \<notin> set xs" using False has_iff[OF assms, of x] by simp
  have "cmp x y" if "y \<in> set d" for y
    using lower_bound_ge[OF assms, of y x] x that d xs by auto
  moreover have "cmp y x" if "y \<in> set t" for y using takeWhile_all[of y x xs] t that by simp
  ultimately have "sorted_wrt cmp (t @ x # d)"
    using assms trans by (auto simp: sorted_wrt_append xs)
  moreover have "set (t @ x # d) = insert x (set xs)" by (auto simp: xs)
  ultimately show ?thesis using False t d by (simp add: set_insert_def)
qed

lemma insert_front:
  assumes "sorted_wrt cmp xs" and "x \<notin> set xs"
  shows "snd (set_insert cmp x xs) \<longleftrightarrow> (\<forall>y\<in>set xs. cmp x y)"
proof (cases xs)
  case (Cons y ys)
  have "snd (set_insert cmp x xs) \<longleftrightarrow> \<not> cmp y x" by (simp add: set_insert_def Cons)
  also have "\<dots> \<longleftrightarrow> cmp x y" using linear irrefl trans assms(2) Cons by (metis list.set_intros(1))
  also have "\<dots> \<longleftrightarrow> (\<forall>z\<in>set xs. cmp x z)"
    using assms(1) trans unfolding Cons by (metis list.set_intros(1) set_ConsD sorted_wrt.simps(2))
  finally show ?thesis .
qed (simp add: set_insert_def)

lemma prefix_below:
  assumes "sorted_wrt cmp xs"
  shows "set (takeWhile (\<lambda>y. cmp y x) xs) = {y \<in> set xs. cmp y x}"
proof (intro equalityI subsetI)
  fix y assume y: "y \<in> {y \<in> set xs. cmp y x}"
  then have "y \<notin> set (set_lower_bound cmp x xs)"
    using lower_bound_ge[OF assms, of y x] irrefl trans by blast
  then show "y \<in> set (takeWhile (\<lambda>y. cmp y x) xs)"
    using y split_at[of xs x] by (metis Un_iff mem_Collect_eq set_append)
qed (auto dest: set_takeWhileD)

end

end
