(* ===== verification/Timers.thy ===== *)
theory Timers
  imports Ordered_Set "HOL-Library.Word"
begin

text \<open>
  Timers and the timer manager of timer.cpp. Timer objects live in a heap by address, because
  the manager's \<open>std::set\<close> compares them by the deadline they currently hold and then by
  address. The clock is an argument: what \<open>TimerManager::now\<close> returns during the call.
\<close>

section \<open>State\<close>

type_synonym u64 = "64 word"

text \<open>
  A callback is a function of the caller, known by a number, or the bound \<open>stubOnTimer\<close> of a
  conditional timer with the object its \<open>weak_ptr\<close> watches. An empty \<open>std::function\<close> is
  \<open>None\<close>.
\<close>

datatype callback = Call nat | StubOnTimer nat callback

record timer =
  t_recurring :: bool
  t_next :: u64
  t_us :: u64
  t_dg :: "callback option"

text \<open>
  \<open>m_mutex\<close> says whether the mutex is locked. To unlock a \<open>std::mutex\<close> that is not locked is undefined; \<open>tm_lenient\<close>, which is not
  a member but a property of the platform, says that it does nothing there.
\<close>

record timer_manager =
  tm_heap :: "nat \<Rightarrow> timer option"
  tm_timers :: "nat list"
  tm_mutex :: bool
  tm_lenient :: bool
  tm_tickled :: bool
  tm_previousTime :: u64

definition TimerManager_new :: "bool \<Rightarrow> timer_manager" where
  "TimerManager_new lenient =
     \<lparr>tm_heap = Map.empty, tm_timers = [], tm_mutex = False, tm_lenient = lenient, tm_tickled = False, tm_previousTime = 0\<rparr>"

text \<open>The destructor asserts that no timer is left.\<close>

definition TimerManager_delete :: "timer_manager \<Rightarrow> unit result" where
  "TimerManager_delete s = ensure (tm_timers s = []) (Inr ())"

definition lock :: "timer_manager \<Rightarrow> timer_manager" where
  "lock s = s\<lparr>tm_mutex := True\<rparr>"

text \<open>\<open>m_mutex.unlock()\<close>, and what the destructor of a \<open>lock_guard\<close> does.\<close>

definition unlock :: "timer_manager \<Rightarrow> timer_manager result" where
  "unlock s = (if tm_mutex s then Inr (s\<lparr>tm_mutex := False\<rparr>) else if tm_lenient s then Inr s else Inl UB)"

text \<open>Leaving the scope of the \<open>lock_guard\<close> with a result.\<close>

definition unlocking :: "'a \<Rightarrow> timer_manager \<Rightarrow> ('a \<times> timer_manager) result" where
  "unlocking x s = andThen (unlock s) (\<lambda>s'. Inr (x, s'))"

text \<open>
  The clock: the replacement set by \<open>setClock\<close>, or the monotonic clock of the system, which
  gives seconds and nanoseconds.
\<close>

definition TimerManager_now :: "u64 option \<Rightarrow> u64 \<Rightarrow> u64 \<Rightarrow> u64" where
  "TimerManager_now ms_clockDg tv_sec tv_nsec =
     (case ms_clockDg of Some v \<Rightarrow> v | None \<Rightarrow> tv_sec * 1000000 + tv_nsec div 1000)"

definition Timer_new :: "u64 \<Rightarrow> u64 \<Rightarrow> callback option \<Rightarrow> bool \<Rightarrow> timer result" where
  "Timer_new now us dg recurring =
     ensure (dg \<noteq> None) (Inr \<lparr>t_recurring = recurring, t_next = now + us, t_us = us, t_dg = dg\<rparr>)"

text \<open>The object \<open>processTimers\<close> puts on the stack to search with; only its deadline is set.\<close>

definition Timer_dummy :: "u64 \<Rightarrow> timer" where
  "Timer_dummy nxt = \<lparr>t_recurring = False, t_next = nxt, t_us = 0, t_dg = None\<rparr>"

section \<open>The comparator\<close>

definition next_of :: "(nat \<Rightarrow> timer option) \<Rightarrow> nat \<Rightarrow> u64" where
  "next_of h a = t_next (the (h a))"

definition Comparator :: "(nat \<Rightarrow> timer option) \<Rightarrow> nat option \<Rightarrow> nat option \<Rightarrow> bool" where
  "Comparator h lhs rhs =
     (if lhs = None \<and> rhs = None then False
      else if lhs = None then True
      else if rhs = None then False
      else if next_of h (the lhs) < next_of h (the rhs) then True
      else if next_of h (the rhs) < next_of h (the lhs) then False
      else the lhs < the rhs)"

definition timer_less :: "(nat \<Rightarrow> timer option) \<Rightarrow> nat \<Rightarrow> nat \<Rightarrow> bool" where
  "timer_less h a b = Comparator h (Some a) (Some b)"

section \<open>Operations of a timer\<close>

definition deref :: "timer_manager \<Rightarrow> nat \<Rightarrow> timer result" where
  "deref s a = (case tm_heap s a of None \<Rightarrow> Inl UB | Some t \<Rightarrow> Inr t)"

definition put_timer :: "nat \<Rightarrow> timer \<Rightarrow> timer_manager \<Rightarrow> timer_manager" where
  "put_timer a t s = s\<lparr>tm_heap := (tm_heap s)(a \<mapsto> t)\<rparr>"

text \<open>\<open>m_timers.find\<close>, the assertion that it finds the timer, and \<open>m_timers.erase\<close>.\<close>

definition take_out :: "nat \<Rightarrow> timer_manager \<Rightarrow> timer_manager result" where
  "take_out a s =
     ensure (set_has (timer_less (tm_heap s)) a (tm_timers s))
       (Inr (s\<lparr>tm_timers := set_erase (timer_less (tm_heap s)) a (tm_timers s)\<rparr>))"

text \<open>\<open>m_timers.insert\<close>, and whether the iterator it returns is \<open>begin()\<close>.\<close>

definition put_in :: "nat \<Rightarrow> timer_manager \<Rightarrow> timer_manager \<times> bool" where
  "put_in a s =
     (let (timers, front) = set_insert (timer_less (tm_heap s)) a (tm_timers s)
      in (s\<lparr>tm_timers := timers\<rparr>, front))"

definition Timer_cancel :: "nat \<Rightarrow> timer_manager \<Rightarrow> (bool \<times> timer_manager) result" where
  "Timer_cancel a s =
     (let s1 = lock s
      in andThen (deref s1 a) (\<lambda>t.
         if t_dg t \<noteq> None then
           andThen (take_out a (put_timer a (t\<lparr>t_dg := None\<rparr>) s1)) (unlocking True)
         else unlocking False s1))"

text \<open>
  \<open>refresh\<close> and \<open>reset\<close> unlock the mutex themselves, and the \<open>lock_guard\<close> unlocks it again
  when it goes out of scope. What the callback \<open>onTimerInsertedAtFront\<close> does between the two is not part of the model.
\<close>

definition Timer_refresh :: "u64 \<Rightarrow> nat \<Rightarrow> timer_manager \<Rightarrow> (bool \<times> timer_manager) result" where
  "Timer_refresh now a s =
     (let s1 = lock s
      in andThen (deref s1 a) (\<lambda>t.
         if t_dg t = None then unlocking False s1
         else
           andThen (take_out a s1) (\<lambda>s2.
             let s3 = fst (put_in a (put_timer a (t\<lparr>t_next := now + t_us t\<rparr>) s2))
             in andThen (unlock s3) (unlocking True))))"

text \<open>
  The two results are the value returned and whether \<open>onTimerInsertedAtFront\<close> was called.
\<close>

definition Timer_reset ::
    "u64 \<Rightarrow> nat \<Rightarrow> u64 \<Rightarrow> bool \<Rightarrow> timer_manager \<Rightarrow> ((bool \<times> bool) \<times> timer_manager) result" where
  "Timer_reset now a us fromNow s =
     (let s1 = lock s
      in andThen (deref s1 a) (\<lambda>t.
         if t_dg t = None then unlocking (False, False) s1
         else if us = t_us t \<and> \<not> fromNow then unlocking (True, False) s1
         else
           andThen (take_out a s1) (\<lambda>s2.
             let start = (if fromNow then now else t_next t - t_us t);
                 (s3, front) = put_in a (put_timer a (t\<lparr>t_us := us, t_next := start + us\<rparr>) s2);
                 atFront = (front \<and> \<not> tm_tickled s3);
                 s4 = (if atFront then s3\<lparr>tm_tickled := True\<rparr> else s3)
             in andThen (unlock s4) (unlocking (True, atFront)))))"

section \<open>Operations of the manager\<close>

text \<open>\<open>a\<close> is the address \<open>new Timer\<close> returns. \<open>registerTimer\<close> unlocks twice as well.\<close>

definition TimerManager_registerTimer ::
    "u64 \<Rightarrow> nat \<Rightarrow> u64 \<Rightarrow> callback option \<Rightarrow> bool \<Rightarrow> timer_manager \<Rightarrow> (bool \<times> timer_manager) result" where
  "TimerManager_registerTimer now a us dg recurring s =
     ensure (dg \<noteq> None)
       (andThen (Timer_new now us dg recurring) (\<lambda>t.
          let s1 = lock (put_timer a t s);
              (s2, front) = put_in a s1;
              atFront = (front \<and> \<not> tm_tickled s2);
              s3 = (if atFront then s2\<lparr>tm_tickled := True\<rparr> else s2)
          in andThen (unlock s3) (unlocking atFront)))"

definition TimerManager_registerConditionTimer ::
    "u64 \<Rightarrow> nat \<Rightarrow> u64 \<Rightarrow> callback \<Rightarrow> nat \<Rightarrow> bool \<Rightarrow> timer_manager \<Rightarrow> (bool \<times> timer_manager) result" where
  "TimerManager_registerConditionTimer now a us dg weakCond recurring s =
     TimerManager_registerTimer now a us (Some (StubOnTimer weakCond dg)) recurring s"

text \<open>
  Running a callback: which functions of the caller it calls, given the objects that are still
  alive. \<open>stubOnTimer\<close> calls only if the object it watches is.
\<close>

fun run_callback :: "(nat \<Rightarrow> bool) \<Rightarrow> callback \<Rightarrow> nat list" where
  "run_callback alive (Call n) = [n]"
| "run_callback alive (StubOnTimer weakCond dg) =
     (if alive weakCond then run_callback alive dg else [])"

definition TimerManager_nextTimer :: "u64 \<Rightarrow> timer_manager \<Rightarrow> (u64 \<times> timer_manager) result" where
  "TimerManager_nextTimer now s =
     (let s1 = (lock s)\<lparr>tm_tickled := False\<rparr>
      in case tm_timers s1 of
           [] \<Rightarrow> unlocking (- 1) s1
         | a # as \<Rightarrow>
             andThen (deref s1 a) (\<lambda>t.
               if now \<ge> t_next t then unlocking 0 s1
               else unlocking (t_next t - now) s1))"

text \<open>\<open>threshold\<close> is the value of the configuration variable \<open>timer.clockrolloverthreshold\<close>.\<close>

definition TimerManager_detectClockRollover :: "u64 \<Rightarrow> u64 \<Rightarrow> timer_manager \<Rightarrow> bool \<times> timer_manager" where
  "TimerManager_detectClockRollover threshold nowUs s =
     (nowUs < tm_previousTime s \<and> nowUs < tm_previousTime s - threshold,
      s\<lparr>tm_previousTime := nowUs\<rparr>)"

text \<open>The loop over the expired timers.\<close>

fun expire_loop :: "u64 \<Rightarrow> nat list \<Rightarrow> timer_manager \<Rightarrow> (callback list \<times> timer_manager) result" where
  "expire_loop nowUs [] s = Inr ([], s)"
| "expire_loop nowUs (a # as) s =
     andThen (deref s a) (\<lambda>t.
       case t_dg t of
         None \<Rightarrow> Inl Assertion
       | Some dg \<Rightarrow>
           andThen
             (expire_loop nowUs as
               (if t_recurring t then fst (put_in a (put_timer a (t\<lparr>t_next := nowUs + t_us t\<rparr>) s))
                else put_timer a (t\<lparr>t_dg := None\<rparr>) s))
             (\<lambda>(dgs, s'). Inr (dg # dgs, s')))"

text \<open>
  \<open>stk\<close> is the address of the object on the stack. The iterator is the suffix of the set it
  points to.
\<close>

definition TimerManager_processTimers ::
    "u64 \<Rightarrow> u64 \<Rightarrow> nat \<Rightarrow> timer_manager \<Rightarrow> (callback list \<times> timer_manager) result" where
  "TimerManager_processTimers threshold nowUs stk s =
     (let s1 = lock s
      in if tm_timers s1 = [] then unlocking [] s1
         else
           let (rollover, s2) = TimerManager_detectClockRollover threshold nowUs s1
           in if \<not> rollover \<and> next_of (tm_heap s2) (hd (tm_timers s2)) > nowUs then unlocking [] s2
              else
                let h = (tm_heap s2)(stk \<mapsto> Timer_dummy nowUs);
                    it0 = (if rollover then [] else set_lower_bound (timer_less h) stk (tm_timers s2));
                    it = dropWhile (\<lambda>a. next_of h a = nowUs) it0;
                    expired = take (length (tm_timers s2) - length it) (tm_timers s2)
                in andThen (expire_loop nowUs expired (s2\<lparr>tm_timers := it\<rparr>))
                     (\<lambda>(result, s3). unlocking result s3))"

text \<open>
  \<open>executeTimers\<close> runs the callbacks after the lock is released, so what they do to the
  manager are further operations that follow.
\<close>

definition TimerManager_executeTimers ::
    "(nat \<Rightarrow> bool) \<Rightarrow> u64 \<Rightarrow> u64 \<Rightarrow> nat \<Rightarrow> timer_manager \<Rightarrow> (nat list \<times> timer_manager) result" where
  "TimerManager_executeTimers alive threshold nowUs stk s =
     andThen (TimerManager_processTimers threshold nowUs stk s)
       (\<lambda>(expired, s'). Inr (concat (map (run_callback alive) expired), s'))"

end
