(* ===== verification/Timers_Inv.thy ===== *)
theory Timers_Inv
  imports Timers Refinement "HOL-Library.Product_Lexorder"
begin

text \<open>
  What the timer manager promises, without its ordered set: a map from the timers that are
  armed to their data, from which each operation can be read off. The lemmas show that every
  operation keeps the set sorted and equal to the armed timers, and that it does to the map
  what the specification says.
\<close>

section \<open>The comparator is a total order\<close>

lemma timer_less_key: "timer_less h a b \<longleftrightarrow> (next_of h a, a) < (next_of h b, b)"
  by (auto simp: timer_less_def Comparator_def)

interpretation ts: set_order "timer_less h" for h
  by unfold_locales (auto simp: timer_less_key)

lemma next_of_upd [simp]: "next_of (h(x \<mapsto> t)) a = (if a = x then t_next t else next_of h a)"
  by (simp add: next_of_def)

lemma sorted_upd:
  "x \<notin> set xs \<Longrightarrow> sorted_wrt (timer_less (h(x \<mapsto> t))) xs \<longleftrightarrow> sorted_wrt (timer_less h) xs"
  by (induction xs) (auto simp: timer_less_key)

lemma timer_less_same_next: "t_next t = next_of h x \<Longrightarrow> timer_less (h(x \<mapsto> t)) = timer_less h"
  by (intro ext) (auto simp: timer_less_key)

section \<open>Invariant\<close>

definition armed_of :: "(nat \<Rightarrow> timer option) \<Rightarrow> nat \<Rightarrow> timer option" where
  "armed_of h a = (case h a of None \<Rightarrow> None | Some t \<Rightarrow> if t_dg t = None then None else Some t)"

lemma armed_of_Some: "armed_of h a = Some t \<longleftrightarrow> h a = Some t \<and> t_dg t \<noteq> None"
  by (auto simp: armed_of_def split: option.splits)

lemma armed_of_upd [simp]:
  "armed_of (h(x \<mapsto> t)) = (armed_of h)(x := if t_dg t = None then None else Some t)"
  by (auto simp: armed_of_def)

definition tm_ok :: "timer_manager \<Rightarrow> bool" where
  "tm_ok s \<longleftrightarrow> sorted_wrt (timer_less (tm_heap s)) (tm_timers s) \<and>
     set (tm_timers s) = dom (armed_of (tm_heap s))"

lemma tm_ok_mem: "tm_ok s \<Longrightarrow> tm_heap s a = Some t \<Longrightarrow> a \<in> set (tm_timers s) \<longleftrightarrow> t_dg t \<noteq> None"
  by (auto simp: tm_ok_def armed_of_def split: option.splits if_splits)

section \<open>Taking out and putting in\<close>

lemma take_out_ok:
  assumes "sorted_wrt (timer_less (tm_heap s)) (tm_timers s)" and "a \<in> set (tm_timers s)"
  obtains l where "take_out a s = Inr (s\<lparr>tm_timers := l\<rparr>)"
    "sorted_wrt (timer_less (tm_heap s)) l" "set l = set (tm_timers s) - {a}"
  using assms ts.has_iff ts.erase_set by (auto simp: take_out_def)

lemma put_in_ok:
  assumes "sorted_wrt (timer_less (tm_heap s)) (tm_timers s)" and "a \<notin> set (tm_timers s)"
  obtains l where "put_in a s = (s\<lparr>tm_timers := l\<rparr>, \<forall>b\<in>set (tm_timers s). timer_less (tm_heap s) a b)"
    "sorted_wrt (timer_less (tm_heap s)) l" "set l = insert a (set (tm_timers s))"
proof -
  obtain l f where lf: "set_insert (timer_less (tm_heap s)) a (tm_timers s) = (l, f)" by (meson surj_pair)
  have "sorted_wrt (timer_less (tm_heap s)) l" "set l = insert a (set (tm_timers s))"
    using ts.insert_set[OF assms(1), of a] lf by simp_all
  moreover have "f \<longleftrightarrow> (\<forall>b\<in>set (tm_timers s). timer_less (tm_heap s) a b)"
    using ts.insert_front[OF assms] lf by simp
  ultimately show thesis using that[of l] lf by (simp add: put_in_def)
qed

section \<open>The loop over expired timers\<close>

definition expired_timer :: "u64 \<Rightarrow> timer \<Rightarrow> timer" where
  "expired_timer nowUs t =
     (if t_recurring t then t\<lparr>t_next := nowUs + t_us t\<rparr> else t\<lparr>t_dg := None\<rparr>)"

lemma expire_loop_ok:
  assumes "sorted_wrt (timer_less (tm_heap s)) (tm_timers s)" and "distinct as"
    and "set as \<inter> set (tm_timers s) = {}" and "\<forall>a\<in>set as. armed_of (tm_heap s) a \<noteq> None"
  shows "\<exists>l. expire_loop nowUs as s =
      Inr (map (\<lambda>a. the (t_dg (the (tm_heap s a)))) as,
        s\<lparr>tm_heap := \<lambda>a. if a \<in> set as then Some (expired_timer nowUs (the (tm_heap s a))) else tm_heap s a,
          tm_timers := l\<rparr>) \<and>
      sorted_wrt (timer_less (\<lambda>a. if a \<in> set as then Some (expired_timer nowUs (the (tm_heap s a))) else tm_heap s a)) l \<and>
      set l = set (tm_timers s) \<union> {a \<in> set as. t_recurring (the (tm_heap s a))}"
  using assms
proof (induction as arbitrary: s)
  case (Cons a as)
  obtain t where t: "tm_heap s a = Some t" "t_dg t \<noteq> None"
    using Cons.prems(4) by (auto simp: armed_of_Some)
  define s1 where "s1 = (if t_recurring t then fst (put_in a (put_timer a (t\<lparr>t_next := nowUs + t_us t\<rparr>) s))
      else put_timer a (t\<lparr>t_dg := None\<rparr>) s)"
  have "\<exists>l1. s1 = s\<lparr>tm_heap := (tm_heap s)(a \<mapsto> expired_timer nowUs t), tm_timers := l1\<rparr> \<and>
      sorted_wrt (timer_less ((tm_heap s)(a \<mapsto> expired_timer nowUs t))) l1 \<and>
      set l1 = set (tm_timers s) \<union> (if t_recurring t then {a} else {})"
  proof (cases "t_recurring t")
    case True
    let ?s = "put_timer a (t\<lparr>t_next := nowUs + t_us t\<rparr>) s"
    have "sorted_wrt (timer_less (tm_heap ?s)) (tm_timers ?s)" "a \<notin> set (tm_timers ?s)"
      using Cons.prems by (auto simp: put_timer_def sorted_upd)
    then obtain l where "put_in a ?s = (?s\<lparr>tm_timers := l\<rparr>, \<forall>b\<in>set (tm_timers ?s). timer_less (tm_heap ?s) a b)"
        "sorted_wrt (timer_less (tm_heap ?s)) l" "set l = insert a (set (tm_timers ?s))"
      by (rule put_in_ok)
    then show ?thesis using True by (auto simp: s1_def put_timer_def expired_timer_def)
  next
    case False
    then show ?thesis using Cons.prems
      by (auto simp: s1_def put_timer_def expired_timer_def sorted_upd intro!: exI[of _ "tm_timers s"])
  qed
  then obtain l1 where s1: "s1 = s\<lparr>tm_heap := (tm_heap s)(a \<mapsto> expired_timer nowUs t), tm_timers := l1\<rparr>"
      "sorted_wrt (timer_less ((tm_heap s)(a \<mapsto> expired_timer nowUs t))) l1"
      "set l1 = set (tm_timers s) \<union> (if t_recurring t then {a} else {})" by blast
  have na: "a \<notin> set as" using Cons.prems(2) by simp
  have h: "tm_heap s1 b = tm_heap s b" if "b \<in> set as" for b using that na s1(1) by auto
  have "\<exists>l. expire_loop nowUs as s1 =
      Inr (map (\<lambda>a. the (t_dg (the (tm_heap s1 a)))) as,
        s1\<lparr>tm_heap := \<lambda>a. if a \<in> set as then Some (expired_timer nowUs (the (tm_heap s1 a))) else tm_heap s1 a,
          tm_timers := l\<rparr>) \<and>
      sorted_wrt (timer_less (\<lambda>a. if a \<in> set as then Some (expired_timer nowUs (the (tm_heap s1 a))) else tm_heap s1 a)) l \<and>
      set l = set (tm_timers s1) \<union> {a \<in> set as. t_recurring (the (tm_heap s1 a))}"
  proof (rule Cons.IH)
    show "sorted_wrt (timer_less (tm_heap s1)) (tm_timers s1)" using s1(1,2) by simp
    show "distinct as" using Cons.prems(2) by simp
    show "set as \<inter> set (tm_timers s1) = {}" using s1(1,3) na Cons.prems(3) by auto
    show "\<forall>a\<in>set as. armed_of (tm_heap s1) a \<noteq> None" using h Cons.prems(4) by (simp add: armed_of_def)
  qed
  then obtain l where l: "expire_loop nowUs as s1 =
      Inr (map (\<lambda>a. the (t_dg (the (tm_heap s1 a)))) as,
        s1\<lparr>tm_heap := \<lambda>a. if a \<in> set as then Some (expired_timer nowUs (the (tm_heap s1 a))) else tm_heap s1 a,
          tm_timers := l\<rparr>)"
    "sorted_wrt (timer_less (\<lambda>a. if a \<in> set as then Some (expired_timer nowUs (the (tm_heap s1 a))) else tm_heap s1 a)) l"
    "set l = set (tm_timers s1) \<union> {a \<in> set as. t_recurring (the (tm_heap s1 a))}" by blast
  have heap: "(\<lambda>a. if a \<in> set as then Some (expired_timer nowUs (the (tm_heap s1 a))) else tm_heap s1 a) =
      (\<lambda>b. if b \<in> set (a # as) then Some (expired_timer nowUs (the (tm_heap s b))) else tm_heap s b)"
    using na s1(1) t(1) by (auto simp: fun_eq_iff)
  have dgs: "map (\<lambda>a. the (t_dg (the (tm_heap s1 a)))) as = map (\<lambda>a. the (t_dg (the (tm_heap s a)))) as"
    using h by simp
  have rec: "set (tm_timers s1) \<union> {a \<in> set as. t_recurring (the (tm_heap s1 a))} =
      set (tm_timers s) \<union> {b \<in> set (a # as). t_recurring (the (tm_heap s b))}"
  proof -
    have "{a \<in> set as. t_recurring (the (tm_heap s1 a))} = {a \<in> set as. t_recurring (the (tm_heap s a))}"
      using h by auto
    then show ?thesis using s1(1,3) t(1) by auto
  qed
  have "expire_loop nowUs (a # as) s = andThen (expire_loop nowUs as s1) (\<lambda>(dgs, s'). Inr (the (t_dg t) # dgs, s'))"
    using t by (auto simp: deref_def s1_def)
  also have "\<dots> = Inr (map (\<lambda>a. the (t_dg (the (tm_heap s a)))) (a # as),
      s\<lparr>tm_heap := \<lambda>b. if b \<in> set (a # as) then Some (expired_timer nowUs (the (tm_heap s b))) else tm_heap s b,
        tm_timers := l\<rparr>)"
    unfolding l(1) dgs heap using s1(1) t(1) by simp
  finally show ?case using l(2,3) unfolding heap rec by blast
next
  case Nil
  then show ?case by (intro exI[of _ "tm_timers s"]) simp
qed

section \<open>Which timers expire\<close>

lemma dropWhile_due:
  assumes "sorted (map nx xs)" and "\<And>y. P y \<longleftrightarrow> nx y < now \<or> nx y = now \<and> Q y"
  shows "dropWhile (\<lambda>a. nx a = now) (dropWhile P xs) = dropWhile (\<lambda>a. nx a \<le> (now :: 'a :: linorder)) xs"
  using assms(1)
proof (induction xs)
  case (Cons a xs)
  consider "P a" | "\<not> P a" "nx a = now" | "now < nx a" using assms(2) by fastforce
  then show ?case
  proof cases
    case 1
    then show ?thesis using Cons assms(2) by auto
  next
    case 2
    have "dropWhile (\<lambda>a. nx a = now) xs = dropWhile (\<lambda>a. nx a \<le> now) xs"
      using Cons.prems 2(2) by (intro dropWhile_cong) (auto simp: order.antisym)
    then show ?thesis using 2 by simp
  next
    case 3
    then show ?thesis using assms(2)[of a] by auto
  qed
qed simp

lemma sorted_due:
  "sorted (map nx xs) \<Longrightarrow>
   takeWhile (\<lambda>a. nx a \<le> now) xs = filter (\<lambda>a. nx a \<le> now) xs \<and>
   dropWhile (\<lambda>a. nx a \<le> now) xs = filter (\<lambda>a. \<not> nx a \<le> (now :: 'a :: linorder)) xs"
proof (induction xs)
  case (Cons a xs)
  show ?case
  proof (cases "nx a \<le> now")
    case False
    then have "\<forall>b\<in>set xs. \<not> nx b \<le> now" using Cons.prems by fastforce
    then have "filter (\<lambda>a. nx a \<le> now) xs = []" "filter (\<lambda>a. \<not> nx a \<le> now) xs = xs"
      by (simp_all add: filter_empty_conv filter_id_conv)
    then show ?thesis using False by simp
  qed (use Cons in simp)
qed simp

lemma take_minus_dropWhile: "take (length xs - length (dropWhile P xs)) xs = takeWhile P xs"
  by (metis append_eq_conv_conj length_append diff_add_inverse2 takeWhile_dropWhile_id)

lemma sorted_next: "sorted_wrt (timer_less h) xs \<Longrightarrow> sorted (map (next_of h) xs)"
  by (induction xs) (auto simp: timer_less_key)

lemma sorted_filter: "sorted_wrt R xs \<Longrightarrow> sorted_wrt R (filter P xs)"
  by (induction xs) auto

lemma expired_split:
  fixes nowUs :: u64
  assumes "sorted_wrt (timer_less h) xs" and "stk \<notin> set xs"
  defines "h' \<equiv> h(stk \<mapsto> Timer_dummy nowUs)"
  defines "it \<equiv> dropWhile (\<lambda>a. next_of h' a = nowUs) (set_lower_bound (timer_less h') stk xs)"
  shows "it = filter (\<lambda>a. \<not> next_of h a \<le> nowUs) xs \<and>
    take (length xs - length it) xs = filter (\<lambda>a. next_of h a \<le> nowUs) xs"
proof -
  have h': "next_of h' a = next_of h a" if "a \<in> set xs" for a
    using assms(2) that by (auto simp: h'_def)
  have s: "sorted (map (next_of h') xs)" using sorted_next[OF assms(1)] h' by (simp cong: map_cong)
  have P: "timer_less h' y stk \<longleftrightarrow> next_of h' y < nowUs \<or> next_of h' y = nowUs \<and> y < stk" for y
    by (auto simp: timer_less_key h'_def Timer_dummy_def)
  have it: "it = dropWhile (\<lambda>a. next_of h' a \<le> nowUs) xs"
    unfolding it_def set_lower_bound_def by (rule dropWhile_due[OF s P])
  have "take (length xs - length it) xs = takeWhile (\<lambda>a. next_of h' a \<le> nowUs) xs"
    unfolding it by (rule take_minus_dropWhile)
  then show ?thesis
    unfolding it using sorted_due[OF s, of nowUs] h' by (simp cong: filter_cong)
qed

section \<open>Specification\<close>

text \<open>
  The timer objects, the armed ones with their data, the two scalars of the manager, and what
  has happened so far: the values returned, the calls of \<open>onTimerInsertedAtFront\<close> and the
  callbacks run.
\<close>

datatype timer_event = Returned bool | Front | Wait u64 | Ran nat

record timer_spec =
  ts_objects :: "nat set"
  ts_armed :: "nat \<Rightarrow> timer option"
  ts_tickled :: bool
  ts_previous :: u64
  ts_log :: "timer_event list"

datatype timer_op =
    Register nat u64 callback bool u64
  | Cancel nat
  | Refresh nat u64
  | Reset nat u64 bool u64
  | Next u64
  | Execute u64 nat "nat \<Rightarrow> bool"

definition deadline :: "(nat \<Rightarrow> timer option) \<Rightarrow> nat \<Rightarrow> u64 \<times> nat" where
  "deadline m a = (t_next (the (m a)), a)"

text \<open>The timers of a set in the order of their deadlines, ties broken by address.\<close>

definition in_order :: "(nat \<Rightarrow> timer option) \<Rightarrow> nat set \<Rightarrow> nat list" where
  "in_order m A = map snd (sorted_list_of_set (deadline m ` A))"

definition is_first :: "(nat \<Rightarrow> timer option) \<Rightarrow> nat \<Rightarrow> bool" where
  "is_first m a \<longleftrightarrow> (\<forall>b\<in>dom m - {a}. deadline m a < deadline m b)"

definition spec_insert :: "nat \<Rightarrow> timer \<Rightarrow> timer_spec \<Rightarrow> timer_spec" where
  "spec_insert a t x =
     (let m = (ts_armed x)(a \<mapsto> t); f = (is_first m a \<and> \<not> ts_tickled x)
      in x\<lparr>ts_objects := insert a (ts_objects x), ts_armed := m, ts_tickled := ts_tickled x \<or> f,
           ts_log := ts_log x @ (if f then [Front] else [])\<rparr>)"

definition spec_execute :: "u64 \<Rightarrow> u64 \<Rightarrow> (nat \<Rightarrow> bool) \<Rightarrow> timer_spec \<Rightarrow> timer_spec" where
  "spec_execute threshold nowUs alive x =
     (if dom (ts_armed x) = {} then x
      else
        let rollover = (nowUs < ts_previous x \<and> nowUs < ts_previous x - threshold);
            due = {a \<in> dom (ts_armed x). rollover \<or> t_next (the (ts_armed x a)) \<le> nowUs};
            ran = map (\<lambda>a. the (t_dg (the (ts_armed x a)))) (in_order (ts_armed x) due)
        in x\<lparr>ts_armed := (\<lambda>a. if a \<in> due then
                   (let t = the (ts_armed x a)
                    in if t_recurring t then Some (t\<lparr>t_next := nowUs + t_us t\<rparr>) else None)
                 else ts_armed x a),
             ts_previous := nowUs,
             ts_log := ts_log x @ map Ran (concat (map (run_callback alive) ran))\<rparr>)"

fun timer_spec_op :: "u64 \<Rightarrow> timer_op \<Rightarrow> timer_spec \<Rightarrow> timer_spec" where
  "timer_spec_op threshold (Register a us dg recurring now) x =
     spec_insert a \<lparr>t_recurring = recurring, t_next = now + us, t_us = us, t_dg = Some dg\<rparr> x"
| "timer_spec_op threshold (Cancel a) x =
     x\<lparr>ts_armed := (ts_armed x)(a := None), ts_log := ts_log x @ [Returned (a \<in> dom (ts_armed x))]\<rparr>"
| "timer_spec_op threshold (Refresh a now) x =
     (case ts_armed x a of
        None \<Rightarrow> x\<lparr>ts_log := ts_log x @ [Returned False]\<rparr>
      | Some t \<Rightarrow> x\<lparr>ts_armed := (ts_armed x)(a \<mapsto> t\<lparr>t_next := now + t_us t\<rparr>),
                    ts_log := ts_log x @ [Returned True]\<rparr>)"
| "timer_spec_op threshold (Reset a us fromNow now) x =
     (case ts_armed x a of
        None \<Rightarrow> x\<lparr>ts_log := ts_log x @ [Returned False]\<rparr>
      | Some t \<Rightarrow>
          if us = t_us t \<and> \<not> fromNow then x\<lparr>ts_log := ts_log x @ [Returned True]\<rparr>
          else spec_insert a (t\<lparr>t_us := us, t_next := (if fromNow then now else t_next t - t_us t) + us\<rparr>)
                 (x\<lparr>ts_log := ts_log x @ [Returned True]\<rparr>))"
| "timer_spec_op threshold (Next now) x =
     (let w = (if dom (ts_armed x) = {} then - 1
               else let d = fst (Min (deadline (ts_armed x) ` dom (ts_armed x)))
                    in if now \<ge> d then 0 else d - now)
      in x\<lparr>ts_tickled := False, ts_log := ts_log x @ [Wait w]\<rparr>)"
| "timer_spec_op threshold (Execute nowUs stk alive) x = spec_execute threshold nowUs alive x"

text \<open>
  What a call needs: a new object has an address of its own, an operation on a timer is called
  on an object, and the object on the stack is none of the timers.
\<close>

fun timer_enabled :: "timer_op \<Rightarrow> timer_spec \<Rightarrow> bool" where
  "timer_enabled (Register a us dg recurring now) x \<longleftrightarrow> a \<notin> ts_objects x"
| "timer_enabled (Cancel a) x \<longleftrightarrow> a \<in> ts_objects x"
| "timer_enabled (Refresh a now) x \<longleftrightarrow> a \<in> ts_objects x"
| "timer_enabled (Reset a us fromNow now) x \<longleftrightarrow> a \<in> ts_objects x"
| "timer_enabled (Next now) x \<longleftrightarrow> True"
| "timer_enabled (Execute nowUs stk alive) x \<longleftrightarrow> stk \<notin> ts_objects x"

text \<open>The same operations on the manager, with the same log.\<close>

fun timer_exec :: "u64 \<Rightarrow> timer_op \<Rightarrow> timer_manager \<times> timer_event list \<Rightarrow> (timer_manager \<times> timer_event list) result" where
  "timer_exec threshold (Register a us dg recurring now) (s, log) =
     andThen (TimerManager_registerTimer now a us (Some dg) recurring s)
       (\<lambda>(atFront, s'). Inr (s', log @ (if atFront then [Front] else [])))"
| "timer_exec threshold (Cancel a) (s, log) =
     andThen (Timer_cancel a s) (\<lambda>(r, s'). Inr (s', log @ [Returned r]))"
| "timer_exec threshold (Refresh a now) (s, log) =
     andThen (Timer_refresh now a s) (\<lambda>(r, s'). Inr (s', log @ [Returned r]))"
| "timer_exec threshold (Reset a us fromNow now) (s, log) =
     andThen (Timer_reset now a us fromNow s)
       (\<lambda>((r, atFront), s'). Inr (s', log @ [Returned r] @ (if atFront then [Front] else [])))"
| "timer_exec threshold (Next now) (s, log) =
     andThen (TimerManager_nextTimer now s) (\<lambda>(w, s'). Inr (s', log @ [Wait w]))"
| "timer_exec threshold (Execute nowUs stk alive) (s, log) =
     andThen (TimerManager_executeTimers alive threshold nowUs stk s)
       (\<lambda>(ran, s'). Inr (s', log @ map Ran ran))"

definition timer_abs :: "timer_manager \<times> timer_event list \<Rightarrow> timer_spec" where
  "timer_abs w =
     (case w of (s, log) \<Rightarrow>
        \<lparr>ts_objects = dom (tm_heap s), ts_armed = armed_of (tm_heap s), ts_tickled = tm_tickled s,
         ts_previous = tm_previousTime s, ts_log = log\<rparr>)"

end
