(* ===== verification/Timers_Props.thy ===== *)
theory Timers_Props
  imports Timers_Inv
begin

text \<open>
  The properties of the timer manager: it refines the map of armed timers, waiting as long as
  \<open>nextTimer\<close> says makes a timer fire, when a jump of the clock is detected, and which
  operations release the mutex twice.
\<close>

section \<open>The operations refine the specification\<close>

lemma lock_simps [simp]:
  "tm_heap (lock s) = tm_heap s" "tm_timers (lock s) = tm_timers s" "tm_tickled (lock s) = tm_tickled s"
  "tm_previousTime (lock s) = tm_previousTime s" "tm_mutex (lock s)" "tm_lenient (lock s) = tm_lenient s"
  by (simp_all add: lock_def)

lemma put_timer_simps [simp]:
  "tm_heap (put_timer a t s) = (tm_heap s)(a \<mapsto> t)" "tm_timers (put_timer a t s) = tm_timers s"
  "tm_tickled (put_timer a t s) = tm_tickled s" "tm_previousTime (put_timer a t s) = tm_previousTime s"
  "tm_mutex (put_timer a t s) = tm_mutex s" "tm_lenient (put_timer a t s) = tm_lenient s"
  by (simp_all add: put_timer_def)

lemma tm_ok_lock [simp]: "tm_ok (lock s) = tm_ok s" "tm_ok (s\<lparr>tm_mutex := l\<rparr>) = tm_ok s"
  "tm_ok (s\<lparr>tm_tickled := b\<rparr>) = tm_ok s" "tm_ok (s\<lparr>tm_previousTime := u\<rparr>) = tm_ok s"
  by (simp_all add: tm_ok_def)

lemma unlocking_locked [simp]: "tm_mutex s \<Longrightarrow> unlocking x s = Inr (x, s\<lparr>tm_mutex := False\<rparr>)"
  by (simp add: unlocking_def unlock_def)

text \<open>Unlocking twice.\<close>

lemma unlock_twice [simp]:
  "tm_mutex s \<Longrightarrow> andThen (unlock s) (unlocking x) = (if tm_lenient s then Inr (x, s\<lparr>tm_mutex := False\<rparr>) else Inl UB)"
  by (simp add: unlocking_def unlock_def)

lemma armed_of_eq: "a \<in> dom (armed_of h) \<Longrightarrow> armed_of h a = h a"
  by (auto simp: armed_of_def split: option.splits if_splits)

lemma deadline_armed: "a \<in> dom (armed_of h) \<Longrightarrow> deadline (armed_of h) a = (next_of h a, a)"
  by (simp add: deadline_def next_of_def armed_of_eq)

lemma deadline_less:
  "a \<in> dom (armed_of h) \<Longrightarrow> b \<in> dom (armed_of h) \<Longrightarrow>
   deadline (armed_of h) a < deadline (armed_of h) b \<longleftrightarrow> timer_less h a b"
  by (simp add: deadline_armed timer_less_key)

text \<open>Inserting a timer that is not in the set: refresh, reset and registration end with this.\<close>

lemma put_in_armed:
  assumes "sorted_wrt (timer_less (tm_heap s)) (tm_timers s)"
    and "set (tm_timers s) = dom (armed_of (tm_heap s)) - {a}" and "t_dg t \<noteq> None"
  obtains l where "put_in a (put_timer a t s) =
      ((put_timer a t s)\<lparr>tm_timers := l\<rparr>, is_first ((armed_of (tm_heap s))(a \<mapsto> t)) a)"
    "tm_ok ((put_timer a t s)\<lparr>tm_timers := l\<rparr>)"
proof -
  let ?s = "put_timer a t s"
  have "sorted_wrt (timer_less (tm_heap ?s)) (tm_timers ?s)" "a \<notin> set (tm_timers ?s)"
    using assms by (simp_all add: sorted_upd)
  then obtain l where l: "put_in a ?s = (?s\<lparr>tm_timers := l\<rparr>, \<forall>b\<in>set (tm_timers ?s). timer_less (tm_heap ?s) a b)"
    "sorted_wrt (timer_less (tm_heap ?s)) l" "set l = insert a (set (tm_timers ?s))"
    by (rule put_in_ok)
  have m: "armed_of (tm_heap ?s) = (armed_of (tm_heap s))(a \<mapsto> t)" using assms(3) by auto
  have a: "a \<in> dom (armed_of (tm_heap ?s))" and d: "dom (armed_of (tm_heap ?s)) - {a} = set (tm_timers ?s)"
    unfolding m using assms(2) by auto
  have "(\<forall>b\<in>set (tm_timers ?s). timer_less (tm_heap ?s) a b) \<longleftrightarrow> is_first (armed_of (tm_heap ?s)) a"
    unfolding is_first_def d[symmetric] using deadline_less[OF a] by blast
  moreover have "tm_ok (?s\<lparr>tm_timers := l\<rparr>)"
    using l(2,3) assms(2,3) by (auto simp: tm_ok_def split: if_splits)
  ultimately show thesis using that[of l] l(1) m by simp
qed

lemma take_out_armed:
  assumes "tm_ok s" and "tm_heap s a = Some t" and "t_dg t \<noteq> None"
  obtains l where "take_out a s = Inr (s\<lparr>tm_timers := l\<rparr>)" "sorted_wrt (timer_less (tm_heap s)) l"
    "set l = dom (armed_of (tm_heap s)) - {a}"
proof -
  have "sorted_wrt (timer_less (tm_heap s)) (tm_timers s)" "a \<in> set (tm_timers s)"
    using assms by (auto simp: tm_ok_def armed_of_Some)
  then show thesis using assms(1) that by (auto simp: tm_ok_def elim!: take_out_ok)
qed

lemma cancel_ok:
  assumes "tm_ok s" and "tm_heap s a = Some t"
  shows "\<exists>s'. Timer_cancel a s = Inr (t_dg t \<noteq> None, s') \<and> tm_ok s' \<and> \<not> tm_mutex s' \<and> tm_lenient s' = tm_lenient s \<and>
    dom (tm_heap s') = dom (tm_heap s) \<and> armed_of (tm_heap s') = (armed_of (tm_heap s))(a := None) \<and>
    tm_tickled s' = tm_tickled s \<and> tm_previousTime s' = tm_previousTime s"
proof (cases "t_dg t = None")
  case True
  then have "(armed_of (tm_heap s))(a := None) = armed_of (tm_heap s)"
    using assms(2) by (auto simp: armed_of_def)
  then show ?thesis using True assms by (auto simp: Timer_cancel_def deref_def)
next
  case False
  let ?s = "put_timer a (t\<lparr>t_dg := None\<rparr>) (lock s)"
  have eq: "timer_less (tm_heap ?s) = timer_less (tm_heap s)"
    using timer_less_same_next[of "t\<lparr>t_dg := None\<rparr>" "tm_heap s" a] assms(2) by (simp add: next_of_def)
  have "sorted_wrt (timer_less (tm_heap ?s)) (tm_timers ?s)" "a \<in> set (tm_timers ?s)"
    using assms False unfolding eq by (auto simp: tm_ok_def armed_of_Some)
  then obtain l where "take_out a ?s = Inr (?s\<lparr>tm_timers := l\<rparr>)"
    "sorted_wrt (timer_less (tm_heap ?s)) l" "set l = set (tm_timers ?s) - {a}"
    by (rule take_out_ok)
  then show ?thesis
    using False assms by (auto simp: Timer_cancel_def deref_def tm_ok_def split: if_splits)
qed

lemma refresh_ok:
  assumes "tm_ok s" and "tm_heap s a = Some t" and "tm_lenient s"
  shows "\<exists>s'. Timer_refresh now a s = Inr (t_dg t \<noteq> None, s') \<and> tm_ok s' \<and>
    \<not> tm_mutex s' \<and> tm_lenient s' = tm_lenient s \<and>
    dom (tm_heap s') = dom (tm_heap s) \<and>
    armed_of (tm_heap s') = (if t_dg t = None then armed_of (tm_heap s)
      else (armed_of (tm_heap s))(a \<mapsto> t\<lparr>t_next := now + t_us t\<rparr>)) \<and>
    tm_tickled s' = tm_tickled s \<and> tm_previousTime s' = tm_previousTime s"
proof (cases "t_dg t = None")
  case True
  then show ?thesis using assms by (auto simp: Timer_refresh_def deref_def)
next
  case False
  have pre: "tm_ok (lock s)" "tm_heap (lock s) a = Some t" using assms by simp_all
  obtain l where l: "take_out a (lock s) = Inr ((lock s)\<lparr>tm_timers := l\<rparr>)"
    "sorted_wrt (timer_less (tm_heap (lock s))) l" "set l = dom (armed_of (tm_heap (lock s))) - {a}"
    by (rule take_out_armed[OF pre False])
  let ?s = "(lock s)\<lparr>tm_timers := l\<rparr>" and ?t = "t\<lparr>t_next := now + t_us t\<rparr>"
  have "sorted_wrt (timer_less (tm_heap ?s)) (tm_timers ?s)" "set (tm_timers ?s) = dom (armed_of (tm_heap ?s)) - {a}"
      "t_dg ?t \<noteq> None"
    using l(2,3) False by simp_all
  then obtain l' where "put_in a (put_timer a ?t ?s) =
      ((put_timer a ?t ?s)\<lparr>tm_timers := l'\<rparr>, is_first ((armed_of (tm_heap ?s))(a \<mapsto> ?t)) a)"
    "tm_ok ((put_timer a ?t ?s)\<lparr>tm_timers := l'\<rparr>)"
    by (rule put_in_armed)
  then show ?thesis using False assms(2,3) l(1) by (auto simp: Timer_refresh_def deref_def)
qed

lemma reset_ok:
  fixes now us :: u64
  assumes "tm_ok s" and "tm_heap s a = Some t" and "tm_lenient s" and d: "t_dg t \<noteq> None" and ch: "\<not> (us = t_us t \<and> \<not> fromNow)"
  defines "t' \<equiv> t\<lparr>t_us := us, t_next := (if fromNow then now else t_next t - t_us t) + us\<rparr>"
  defines "m \<equiv> (armed_of (tm_heap s))(a \<mapsto> t')"
  defines "f \<equiv> is_first m a \<and> \<not> tm_tickled s"
  shows "\<exists>s'. Timer_reset now a us fromNow s = Inr ((True, f), s') \<and> tm_ok s' \<and> \<not> tm_mutex s' \<and> tm_lenient s' = tm_lenient s \<and>
    dom (tm_heap s') = dom (tm_heap s) \<and> armed_of (tm_heap s') = m \<and>
    tm_tickled s' = (tm_tickled s \<or> f) \<and> tm_previousTime s' = tm_previousTime s"
proof -
  have pre: "tm_ok (lock s)" "tm_heap (lock s) a = Some t" using assms by simp_all
  obtain l where l: "take_out a (lock s) = Inr ((lock s)\<lparr>tm_timers := l\<rparr>)"
    "sorted_wrt (timer_less (tm_heap (lock s))) l" "set l = dom (armed_of (tm_heap (lock s))) - {a}"
    by (rule take_out_armed[OF pre d])
  let ?s = "(lock s)\<lparr>tm_timers := l\<rparr>"
  have t': "t_dg t' \<noteq> None" using d by (simp add: t'_def)
  have "sorted_wrt (timer_less (tm_heap ?s)) (tm_timers ?s)" "set (tm_timers ?s) = dom (armed_of (tm_heap ?s)) - {a}"
    using l(2,3) by simp_all
  then obtain l' where p: "put_in a (put_timer a t' ?s) =
      ((put_timer a t' ?s)\<lparr>tm_timers := l'\<rparr>, is_first ((armed_of (tm_heap ?s))(a \<mapsto> t')) a)"
    "tm_ok ((put_timer a t' ?s)\<lparr>tm_timers := l'\<rparr>)"
    using t' by (rule put_in_armed)
  let ?s3 = "(put_timer a t' ?s)\<lparr>tm_timers := l'\<rparr>"
  have "Timer_reset now a us fromNow s =
      (case put_in a (put_timer a t' ?s) of (s3, front) \<Rightarrow>
        andThen (unlock (if front \<and> \<not> tm_tickled s3 then s3\<lparr>tm_tickled := True\<rparr> else s3)) (unlocking (True, front \<and> \<not> tm_tickled s3)))"
    using d ch l(1) assms(2)
    by (cases fromNow) (simp_all add: Timer_reset_def deref_def t'_def Let_def del: de_Morgan_conj not_None_eq)
  also have "\<dots> = Inr ((True, f), (if f then ?s3\<lparr>tm_tickled := True\<rparr> else ?s3)\<lparr>tm_mutex := False\<rparr>)"
    unfolding p(1) using assms(3) by (simp add: f_def m_def del: de_Morgan_conj)
  finally have "Timer_reset now a us fromNow s = Inr ((True, f), (if f then ?s3\<lparr>tm_tickled := True\<rparr> else ?s3)\<lparr>tm_mutex := False\<rparr>)" .
  moreover have "tm_ok ((if f then ?s3\<lparr>tm_tickled := True\<rparr> else ?s3)\<lparr>tm_mutex := False\<rparr>)"
    using p(2) by simp
  ultimately show ?thesis using t' assms(2) by (auto simp: m_def)
qed

lemma register_ok:
  fixes now us :: u64
  assumes "tm_ok s" and "tm_heap s a = None" and "tm_lenient s"
  fixes dg :: callback and recurring :: bool
  defines "t \<equiv> \<lparr>t_recurring = recurring, t_next = now + us, t_us = us, t_dg = Some dg\<rparr>"
  defines "m \<equiv> (armed_of (tm_heap s))(a \<mapsto> t)"
  defines "f \<equiv> is_first m a \<and> \<not> tm_tickled s"
  shows "\<exists>s'. TimerManager_registerTimer now a us (Some dg) recurring s = Inr (f, s') \<and> tm_ok s' \<and>
    \<not> tm_mutex s' \<and> tm_lenient s' = tm_lenient s \<and> dom (tm_heap s') = insert a (dom (tm_heap s)) \<and> armed_of (tm_heap s') = m \<and>
    tm_tickled s' = (tm_tickled s \<or> f) \<and> tm_previousTime s' = tm_previousTime s"
proof -
  have t: "t_dg t \<noteq> None" by (simp add: t_def)
  have "armed_of (tm_heap s) a = None" using assms(2) by (simp add: armed_of_def)
  then have "sorted_wrt (timer_less (tm_heap (lock s))) (tm_timers (lock s))"
      "set (tm_timers (lock s)) = dom (armed_of (tm_heap (lock s))) - {a}"
    using assms(1) by (auto simp: tm_ok_def)
  then obtain l where p: "put_in a (put_timer a t (lock s)) =
      ((put_timer a t (lock s))\<lparr>tm_timers := l\<rparr>, is_first ((armed_of (tm_heap (lock s)))(a \<mapsto> t)) a)"
    "tm_ok ((put_timer a t (lock s))\<lparr>tm_timers := l\<rparr>)"
    using t by (rule put_in_armed)
  let ?s3 = "(put_timer a t (lock s))\<lparr>tm_timers := l\<rparr>"
  have lk: "lock (put_timer a t s) = put_timer a t (lock s)" by (simp add: lock_def put_timer_def)
  have "TimerManager_registerTimer now a us (Some dg) recurring s =
      (case put_in a (lock (put_timer a t s)) of (s2, front) \<Rightarrow>
        andThen (unlock (if front \<and> \<not> tm_tickled s2 then s2\<lparr>tm_tickled := True\<rparr> else s2)) (unlocking (front \<and> \<not> tm_tickled s2)))"
    by (simp add: TimerManager_registerTimer_def Timer_new_def t_def Let_def)
  also have "\<dots> = Inr (f, (if f then ?s3\<lparr>tm_tickled := True\<rparr> else ?s3)\<lparr>tm_mutex := False\<rparr>)"
    unfolding lk p(1) using assms(3) by (simp add: f_def m_def del: de_Morgan_conj)
  finally have "TimerManager_registerTimer now a us (Some dg) recurring s =
      Inr (f, (if f then ?s3\<lparr>tm_tickled := True\<rparr> else ?s3)\<lparr>tm_mutex := False\<rparr>)" .
  moreover have "tm_ok ((if f then ?s3\<lparr>tm_tickled := True\<rparr> else ?s3)\<lparr>tm_mutex := False\<rparr>)"
    using p(2) by simp
  ultimately show ?thesis using t by (auto simp: m_def)
qed

lemma tm_ok_finite: "tm_ok s \<Longrightarrow> finite (dom (armed_of (tm_heap s)))"
  unfolding tm_ok_def by (metis List.finite_set)

lemma tm_ok_Min:
  assumes "tm_ok s" and "tm_timers s = a # as"
  shows "Min (deadline (armed_of (tm_heap s)) ` dom (armed_of (tm_heap s))) = (next_of (tm_heap s) a, a)"
proof (rule Min_eqI)
  let ?A = "dom (armed_of (tm_heap s))"
  have A: "?A = set (a # as)" using assms by (simp add: tm_ok_def)
  show "finite (deadline (armed_of (tm_heap s)) ` ?A)" using tm_ok_finite[OF assms(1)] by simp
  have "a \<in> ?A" using A by simp
  then show "(next_of (tm_heap s) a, a) \<in> deadline (armed_of (tm_heap s)) ` ?A"
    using deadline_armed by (metis imageI)
  fix y assume "y \<in> deadline (armed_of (tm_heap s)) ` ?A"
  then obtain b where b: "b \<in> ?A" "y = (next_of (tm_heap s) b, b)" using deadline_armed by auto
  have "b = a \<or> timer_less (tm_heap s) a b" using assms b(1) A by (auto simp: tm_ok_def)
  then show "(next_of (tm_heap s) a, a) \<le> y" using b(2) by (auto simp: timer_less_key)
qed

lemma next_ok:
  assumes "tm_ok s"
  defines "m \<equiv> armed_of (tm_heap s)"
  shows "\<exists>s'. TimerManager_nextTimer now s =
      Inr (if dom m = {} then - 1
           else let d = fst (Min (deadline m ` dom m)) in if now \<ge> d then 0 else d - now, s') \<and>
    tm_ok s' \<and> \<not> tm_mutex s' \<and> tm_lenient s' = tm_lenient s \<and> tm_heap s' = tm_heap s \<and> \<not> tm_tickled s' \<and>
    tm_previousTime s' = tm_previousTime s"
proof (cases "tm_timers s")
  case Nil
  then have "dom m = {}" using assms by (simp add: tm_ok_def)
  then show ?thesis using Nil assms(1) by (simp add: TimerManager_nextTimer_def)
next
  case (Cons a as)
  then have a: "a \<in> dom m" using assms by (auto simp: tm_ok_def)
  then obtain t where t: "tm_heap s a = Some t" by (auto simp: m_def armed_of_Some)
  have "fst (Min (deadline m ` dom m)) = t_next t"
    using tm_ok_Min[OF assms(1) Cons] t by (simp add: m_def next_of_def)
  moreover have "dom m \<noteq> {}" using a by blast
  ultimately show ?thesis using Cons assms(1) t by (simp add: TimerManager_nextTimer_def deref_def Let_def)
qed

text \<open>The list of expired timers is the due ones in the order of their deadlines.\<close>

lemma in_order_filter:
  assumes "tm_ok s"
  shows "in_order (armed_of (tm_heap s)) {a \<in> dom (armed_of (tm_heap s)). P a} = filter P (tm_timers s)"
proof -
  let ?m = "armed_of (tm_heap s)" and ?xs = "filter P (tm_timers s)"
  have d: "deadline ?m a = (next_of (tm_heap s) a, a)" if "a \<in> set (tm_timers s)" for a
    using that assms deadline_armed by (simp add: tm_ok_def)
  have "sorted_wrt (timer_less (tm_heap s)) ?xs" using assms by (auto simp: tm_ok_def intro: sorted_filter)
  moreover have "timer_less (tm_heap s) = (\<lambda>a b. (next_of (tm_heap s) a, a) < (next_of (tm_heap s) b, b))"
    by (intro ext) (rule timer_less_key)
  ultimately have "sorted_wrt (<) (map (\<lambda>a. (next_of (tm_heap s) a, a)) ?xs)"
    by (simp add: sorted_wrt_map)
  moreover have "map (deadline ?m) ?xs = map (\<lambda>a. (next_of (tm_heap s) a, a)) ?xs" using d by simp
  ultimately have "sorted_wrt (<) (map (deadline ?m) ?xs)" by (simp only:)
  then have "sorted_list_of_set (set (map (deadline ?m) ?xs)) = map (deadline ?m) ?xs"
    unfolding strict_sorted_iff by (rule conjE) (rule sorted_list_of_set.idem_if_sorted_distinct)
  moreover have "set (map (deadline ?m) ?xs) = deadline ?m ` {a \<in> dom ?m. P a}"
    using assms by (auto simp: tm_ok_def)
  ultimately have "in_order ?m {a \<in> dom ?m. P a} = map snd (map (deadline ?m) ?xs)"
    by (simp add: in_order_def)
  then show ?thesis by (simp add: deadline_def comp_def)
qed

lemma process_ok:
  fixes nowUs threshold :: u64
  assumes "tm_ok s" and "stk \<notin> dom (tm_heap s)" and ne: "tm_timers s \<noteq> []"
  defines "m \<equiv> armed_of (tm_heap s)"
  defines "rollover \<equiv> nowUs < tm_previousTime s \<and> nowUs < tm_previousTime s - threshold"
  defines "due \<equiv> {a \<in> dom m. rollover \<or> t_next (the (m a)) \<le> nowUs}"
  shows "\<exists>s'. TimerManager_processTimers threshold nowUs stk s =
      Inr (map (\<lambda>a. the (t_dg (the (m a)))) (in_order m due), s') \<and>
    tm_ok s' \<and> \<not> tm_mutex s' \<and> tm_lenient s' = tm_lenient s \<and> dom (tm_heap s') = dom (tm_heap s) \<and>
    armed_of (tm_heap s') = (\<lambda>a. if a \<in> due then
        (let t = the (m a) in if t_recurring t then Some (t\<lparr>t_next := nowUs + t_us t\<rparr>) else None) else m a) \<and>
    tm_tickled s' = tm_tickled s \<and> tm_previousTime s' = nowUs"
proof -
  let ?h = "tm_heap s" and ?xs = "tm_timers s" and ?P = "\<lambda>a. rollover \<or> next_of (tm_heap s) a \<le> nowUs"
  let ?s2 = "(lock s)\<lparr>tm_previousTime := nowUs\<rparr>"
  let ?ex = "filter ?P ?xs" and ?it = "filter (\<lambda>a. \<not> ?P a) ?xs"
  have xs: "sorted_wrt (timer_less ?h) ?xs" "set ?xs = dom m" using assms(1) by (simp_all add: tm_ok_def m_def)
  have nx: "t_next (the (m a)) = next_of ?h a" if "a \<in> dom m" for a
    using that armed_of_eq[of a ?h] by (simp add: m_def next_of_def)
  have due: "due = {a \<in> dom m. ?P a}"
    unfolding due_def by (intro Collect_cong conj_cong refl) (simp add: nx)
  have ord: "in_order m due = ?ex" unfolding due using in_order_filter[OF assms(1), of ?P] by (simp add: m_def)
  have stk: "stk \<notin> set ?xs" using xs(2) assms(2) by (auto simp: m_def armed_of_Some)
  have loop: "TimerManager_processTimers threshold nowUs stk s =
      andThen (expire_loop nowUs ?ex (?s2\<lparr>tm_timers := ?it\<rparr>)) (\<lambda>(result, s3). unlocking result s3)"
  proof (cases "\<not> rollover \<and> next_of ?h (hd ?xs) > nowUs")
    case True
    have "\<not> ?P a" if "a \<in> set ?xs" for a
      using True that sorted_next[OF xs(1)] by (cases ?xs) auto
    then have "?ex = []" "?it = ?xs" by (auto simp: filter_empty_conv filter_id_conv)
    then show ?thesis using True ne
      by (simp add: TimerManager_processTimers_def TimerManager_detectClockRollover_def rollover_def Let_def)
  next
    case False
    show ?thesis
    proof (cases rollover)
      case True
      then have "?ex = ?xs" "?it = []" by simp_all
      then show ?thesis using True ne
        by (simp add: TimerManager_processTimers_def TimerManager_detectClockRollover_def rollover_def Let_def)
    next
      case nr: False
      then have "?ex = filter (\<lambda>a. next_of ?h a \<le> nowUs) ?xs" "?it = filter (\<lambda>a. \<not> next_of ?h a \<le> nowUs) ?xs" by simp_all
      moreover have "take (length ?xs - length (filter (\<lambda>a. \<not> next_of ?h a \<le> nowUs) ?xs)) ?xs =
          filter (\<lambda>a. next_of ?h a \<le> nowUs) ?xs"
        using expired_split[OF xs(1) stk, of nowUs] by argo
      ultimately show ?thesis using nr False ne conjunct1[OF expired_split[OF xs(1) stk, of nowUs]]
        by (simp add: TimerManager_processTimers_def TimerManager_detectClockRollover_def rollover_def[symmetric] Let_def)
    qed
  qed
  let ?s = "?s2\<lparr>tm_timers := ?it\<rparr>"
  let ?h' = "\<lambda>a. if a \<in> set ?ex then Some (expired_timer nowUs (the (tm_heap ?s a))) else tm_heap ?s a"
  have "\<exists>l. expire_loop nowUs ?ex ?s =
      Inr (map (\<lambda>a. the (t_dg (the (tm_heap ?s a)))) ?ex, ?s\<lparr>tm_heap := ?h', tm_timers := l\<rparr>) \<and>
      sorted_wrt (timer_less ?h') l \<and> set l = set (tm_timers ?s) \<union> {a \<in> set ?ex. t_recurring (the (tm_heap ?s a))}"
  proof (rule expire_loop_ok)
    show "sorted_wrt (timer_less (tm_heap ?s)) (tm_timers ?s)" using xs(1) by (simp add: sorted_filter)
    show "distinct ?ex" using ts.sorted_distinct[OF xs(1)] by simp
    show "set ?ex \<inter> set (tm_timers ?s) = {}" by auto
    show "\<forall>a\<in>set ?ex. armed_of (tm_heap ?s) a \<noteq> None" using xs(2) by (auto simp: m_def)
  qed
  then obtain l where l: "expire_loop nowUs ?ex ?s =
      Inr (map (\<lambda>a. the (t_dg (the (tm_heap ?s a)))) ?ex, ?s\<lparr>tm_heap := ?h', tm_timers := l\<rparr>)"
    "sorted_wrt (timer_less ?h') l" "set l = set (tm_timers ?s) \<union> {a \<in> set ?ex. t_recurring (the (tm_heap ?s a))}"
    by blast
  have mh: "m a = ?h a" if "a \<in> set ?xs" for a using that armed_of_eq[of a ?h] xs(2) by (simp add: m_def)
  have md: "m a = ?h a" if "a \<in> due" for a using that mh xs(2) by (simp add: due_def)
  have dgs: "map (\<lambda>a. the (t_dg (the (tm_heap ?s a)))) ?ex = map (\<lambda>a. the (t_dg (the (m a)))) (in_order m due)"
    unfolding ord using mh by simp
  have ex: "set ?ex = due" using xs(2) due by auto
  have arm: "armed_of ?h' = (\<lambda>a. if a \<in> due then
        (let t = the (m a) in if t_recurring t then Some (t\<lparr>t_next := nowUs + t_us t\<rparr>) else None) else m a)"
  proof
    fix a
    show "armed_of ?h' a = (if a \<in> due then
        (let t = the (m a) in if t_recurring t then Some (t\<lparr>t_next := nowUs + t_us t\<rparr>) else None) else m a)"
    proof (cases "a \<in> due")
      case True
      then have "a \<in> set ?xs" "m a = ?h a" "\<exists>t. m a = Some t \<and> t_dg t \<noteq> None"
        using mh xs(2) by (auto simp: due_def m_def armed_of_Some)
      then show ?thesis using True unfolding ex by (auto simp: armed_of_def expired_timer_def Let_def)
    next
      case False
      then show ?thesis unfolding ex by (simp add: armed_of_def m_def)
    qed
  qed
  have dl: "dom (armed_of ?h') = set l"
  proof -
    have "dom (armed_of ?h') = (dom m - due) \<union> {a \<in> due. t_recurring (the (m a))}"
      unfolding arm by (auto simp: due_def Let_def split: if_splits)
    moreover have "set (tm_timers ?s) = dom m - due" using xs(2) due by auto
    moreover have "{a \<in> set ?ex. t_recurring (the (tm_heap ?s a))} = {a \<in> due. t_recurring (the (m a))}"
      unfolding ex by (intro Collect_cong conj_cong refl) (simp add: md)
    ultimately show ?thesis using l(3) by (simp only:)
  qed
  have "tm_ok (?s\<lparr>tm_heap := ?h', tm_timers := l, tm_mutex := False\<rparr>)" using l(2) dl by (simp add: tm_ok_def)
  moreover have "dom ?h' = dom ?h"
  proof -
    have "due \<subseteq> dom ?h" by (auto simp: due_def m_def armed_of_Some)
    then show ?thesis unfolding ex by (auto split: if_splits)
  qed
  ultimately show ?thesis unfolding loop l(1) dgs using arm by simp
qed

lemma execute_ok:
  assumes "tm_ok s" and "stk \<notin> dom (tm_heap s)"
  shows "\<exists>w. timer_exec threshold (Execute nowUs stk alive) (s, log) = Inr w \<and> tm_ok (fst w) \<and> tm_lenient (fst w) = tm_lenient s \<and>
    timer_abs w = spec_execute threshold nowUs alive (timer_abs (s, log))"
proof (cases "tm_timers s = []")
  case True
  then have "dom (armed_of (tm_heap s)) = {}" using assms(1) by (simp add: tm_ok_def)
  then show ?thesis using True assms(1)
    by (simp add: TimerManager_executeTimers_def TimerManager_processTimers_def spec_execute_def timer_abs_def)
next
  case False
  then have "dom (armed_of (tm_heap s)) \<noteq> {}" using assms(1) by (auto simp: tm_ok_def)
  then show ?thesis using process_ok[OF assms False, where nowUs = nowUs and threshold = threshold]
    by (auto simp: TimerManager_executeTimers_def spec_execute_def timer_abs_def Let_def cong: if_cong)
qed

interpretation timers: data_refinement "timer_exec threshold" "\<lambda>w. tm_ok (fst w) \<and> tm_lenient (fst w)" timer_abs timer_enabled
    "timer_spec_op threshold" for threshold
proof
  fix a :: timer_op and w :: "timer_manager \<times> timer_event list"
  assume ok: "tm_ok (fst w) \<and> tm_lenient (fst w)" and en: "timer_enabled a (timer_abs w)"
  obtain s log where w: "w = (s, log)" by (cases w)
  have s: "tm_ok s" and len: "tm_lenient s" using ok w by simp_all
  show "\<exists>s'. timer_exec threshold a w = Inr s' \<and> (tm_ok (fst s') \<and> tm_lenient (fst s')) \<and> timer_abs s' = timer_spec_op threshold a (timer_abs w)"
  proof (cases a)
    case (Register x us dg recurring now)
    then have "tm_heap s x = None" using en w by (auto simp: timer_abs_def)
    from register_ok[OF s this len, of now us dg recurring] show ?thesis
      using Register w len by (auto simp: timer_abs_def spec_insert_def Let_def)
  next
    case (Cancel x)
    then obtain t where t: "tm_heap s x = Some t" using en w by (auto simp: timer_abs_def)
    have "x \<in> dom (armed_of (tm_heap s)) \<longleftrightarrow> t_dg t \<noteq> None" using t by (auto simp: armed_of_def split: if_splits)
    then show ?thesis using Cancel w len cancel_ok[OF s t] by (auto simp: timer_abs_def)
  next
    case (Refresh x now)
    then obtain t where t: "tm_heap s x = Some t" using en w by (auto simp: timer_abs_def)
    have "armed_of (tm_heap s) x = (if t_dg t = None then None else Some t)" using t by (auto simp: armed_of_def)
    then show ?thesis using Refresh w refresh_ok[OF s t len, of now] len by (auto simp: timer_abs_def)
  next
    case (Reset x us fromNow now)
    then obtain t where t: "tm_heap s x = Some t" using en w by (auto simp: timer_abs_def)
    have arm: "armed_of (tm_heap s) x = (if t_dg t = None then None else Some t)" using t by (auto simp: armed_of_def)
    consider "t_dg t = None" | "t_dg t \<noteq> None" "us = t_us t \<and> \<not> fromNow"
      | "t_dg t \<noteq> None" "\<not> (us = t_us t \<and> \<not> fromNow)" by blast
    then show ?thesis
    proof cases
      case 3
      from reset_ok[OF s t len 3, of now] obtain s' where
        "Timer_reset now x us fromNow s = Inr ((True,
           is_first ((armed_of (tm_heap s))(x \<mapsto> t\<lparr>t_us := us, t_next := (if fromNow then now else t_next t - t_us t) + us\<rparr>)) x \<and>
             \<not> tm_tickled s), s')" "tm_ok s'" "tm_lenient s' = tm_lenient s" "dom (tm_heap s') = dom (tm_heap s)"
        "armed_of (tm_heap s') =
           (armed_of (tm_heap s))(x \<mapsto> t\<lparr>t_us := us, t_next := (if fromNow then now else t_next t - t_us t) + us\<rparr>)"
        "tm_tickled s' = (tm_tickled s \<or>
           is_first ((armed_of (tm_heap s))(x \<mapsto> t\<lparr>t_us := us, t_next := (if fromNow then now else t_next t - t_us t) + us\<rparr>)) x \<and>
             \<not> tm_tickled s)" "tm_previousTime s' = tm_previousTime s"
        by blast
      moreover have "insert x (dom (tm_heap s)) = dom (tm_heap s)" using t by auto
      ultimately show ?thesis using Reset w 3 t arm len
        by (simp add: timer_abs_def spec_insert_def Let_def del: de_Morgan_conj)
    qed (use Reset w t s arm len in \<open>auto simp: timer_abs_def Timer_reset_def deref_def\<close>)
  next
    case (Next now)
    from next_ok[OF s, of now] show ?thesis using Next w s len by (auto simp: timer_abs_def Let_def)
  next
    case (Execute nowUs stk alive)
    then have "stk \<notin> dom (tm_heap s)" using en w by (simp add: timer_abs_def)
    from execute_ok[OF s this, of threshold nowUs alive log] show ?thesis using Execute w len by auto
  qed
qed

section \<open>Properties\<close>

lemma spec_op_objects:
  "ts_objects (timer_spec_op threshold (Register a us dg recurring now) x) = insert a (ts_objects x)"
  "ts_objects (timer_spec_op threshold (Cancel a) x) = ts_objects x"
  "ts_objects (timer_spec_op threshold (Execute nowUs stk alive) x) = ts_objects x"
  by (simp_all add: spec_execute_def spec_insert_def Let_def)



text \<open>
  C25. \<open>nextTimer\<close> says exactly how long to wait: with a timer armed, processing the timers at
  any time from then on runs a callback, and processing them before that time runs none, as
  long as the clock has not gone back.
\<close>

theorem nextTimer_exact:
  assumes "tm_ok s" and "tm_timers s \<noteq> []" and "stk \<notin> dom (tm_heap s)"
    and "TimerManager_nextTimer now s = Inr (w, s1)"
  shows "\<exists>dgs s2. TimerManager_processTimers threshold later stk s1 = Inr (dgs, s2) \<and>
    (now + w \<le> later \<longrightarrow> dgs \<noteq> []) \<and> (tm_previousTime s \<le> later \<and> later < now + w \<and> now < now + w \<longrightarrow> dgs = [])"
proof -
  let ?m = "armed_of (tm_heap s)"
  obtain a as where as: "tm_timers s = a # as" using assms(2) by (cases "tm_timers s") auto
  have dm: "dom ?m = set (a # as)" using assms(1) as by (simp add: tm_ok_def)
  have min: "fst (Min (deadline ?m ` dom ?m)) = next_of (tm_heap s) a" using tm_ok_Min[OF assms(1) as] by simp
  obtain s1' where n: "TimerManager_nextTimer now s = Inr (if now \<ge> next_of (tm_heap s) a then 0
      else next_of (tm_heap s) a - now, s1')" "tm_ok s1'" "tm_heap s1' = tm_heap s" "tm_previousTime s1' = tm_previousTime s"
    using next_ok[OF assms(1), of now] dm min by (auto simp: Let_def split: if_splits)
  have s1: "s1' = s1" and w: "w = (if now \<ge> next_of (tm_heap s) a then 0 else next_of (tm_heap s) a - now)"
    using n(1) assms(4) by simp_all
  have t1: "tm_timers s1 = a # as"
    using assms(4) as by (auto simp: TimerManager_nextTimer_def deref_def andThen_def Let_def split: option.splits if_splits)
  then have ne: "tm_timers s1 \<noteq> []" by simp
  have stk: "stk \<notin> dom (tm_heap s1)" using assms(3) n(3) s1 by simp
  let ?P = "\<lambda>a. later < tm_previousTime s1 \<and> later < tm_previousTime s1 - threshold \<or> t_next (the (?m a)) \<le> later"
  obtain s2 where p: "TimerManager_processTimers threshold later stk s1 =
      Inr (map (\<lambda>a. the (t_dg (the (?m a)))) (in_order ?m {a \<in> dom ?m. ?P a}), s2)"
    using process_ok[OF n(2)[unfolded s1] stk ne, where nowUs = later and threshold = threshold] n(3) s1 by auto
  have ord: "in_order ?m {a \<in> dom ?m. ?P a} = filter ?P (a # as)"
    using in_order_filter[OF n(2)[unfolded s1], of ?P] n(3) s1 t1 by simp
  have nxt: "t_next (the (?m b)) = next_of (tm_heap s) b" if "b \<in> set (a # as)" for b
    using armed_of_eq[of b "tm_heap s"] that dm by (simp add: next_of_def)
  have fires: "filter ?P (a # as) \<noteq> []" if "now + w \<le> later"
    using that w nxt[of a] by (auto split: if_splits)
  have waits: "filter ?P (a # as) = []" if "tm_previousTime s \<le> later" "later < now + w" "now < now + w"
  proof -
    have "later < next_of (tm_heap s) a" using that(2,3) w by (auto split: if_splits)
    moreover have "next_of (tm_heap s) a \<le> next_of (tm_heap s) b" if "b \<in> set (a # as)" for b
      using assms(1) as that sorted_next[of "tm_heap s" "a # as"] by (auto simp: tm_ok_def)
    ultimately have "\<not> ?P b" if "b \<in> set (a # as)" for b
      using that nxt[OF that] \<open>tm_previousTime s \<le> later\<close> n(4) s1 by fastforce
    then show ?thesis unfolding filter_empty_conv by blast
  qed
  show ?thesis using p unfolding ord using fires waits by blast
qed

theorem nextTimer_exact_witness:
  "\<exists>s s1 dgs s2. TimerManager_nextTimer 60 s = Inr (40, s1) \<and>
     TimerManager_processTimers 5000000 100 9 s1 = Inr (dgs, s2) \<and> dgs \<noteq> []"
proof -
  let ?s = "\<lparr>tm_heap = [1 \<mapsto> \<lparr>t_recurring = False, t_next = 100, t_us = 50, t_dg = Some (Call 3)\<rparr>],
    tm_timers = [1], tm_mutex = False, tm_lenient = False, tm_tickled = False, tm_previousTime = 0\<rparr>"
  have "tm_ok ?s" by (auto simp: tm_ok_def armed_of_def split: if_splits)
  moreover have "TimerManager_nextTimer 60 ?s = Inr (40, ?s)"
    by (simp add: TimerManager_nextTimer_def deref_def lock_def)
  ultimately show ?thesis using nextTimer_exact[of ?s 9 60 40 ?s 5000000 100] by auto
qed

text \<open>
  When a clock that went back counts as rolled over: if it went back by more than the
  threshold. But while the previous time is below the threshold the subtraction wraps, and
  every step back counts, however small.
\<close>

lemma rollover_exact:
  "fst (TimerManager_detectClockRollover threshold nowUs s) \<longleftrightarrow>
     (if threshold \<le> tm_previousTime s then unat nowUs + unat threshold < unat (tm_previousTime s)
      else nowUs < tm_previousTime s)"
proof -
  let ?p = "tm_previousTime s"
  have "threshold \<le> ?p \<Longrightarrow> unat (?p - threshold) = unat ?p - unat threshold" by (rule unat_sub)
  moreover have "?p < ?p - threshold" if "\<not> threshold \<le> ?p"
    using that unsigned_less[of threshold, where ?'a = nat] by (simp add: word_less_nat_alt word_le_nat_alt unat_sub_if')
  ultimately show ?thesis
    by (auto simp: TimerManager_detectClockRollover_def word_less_nat_alt word_le_nat_alt)
qed

text \<open>
  On an armed timer \<open>cancel\<close> locks and unlocks the mutex once. But \<open>refresh\<close>, a
  \<open>reset\<close> that changes the timer, and every registration unlock it twice, because the \<open>lock_guard\<close> unlocks the mutex they have already unlocked: their
  behaviour is undefined unless the platform allows it.
\<close>

lemma mutex_unlocked_twice:
  assumes "tm_ok s" and "tm_heap s a = Some t" and "t_dg t \<noteq> None" and "\<not> tm_lenient s"
  shows "\<exists>s'. Timer_cancel a s = Inr (True, s')"
    and "Timer_refresh now a s = Inl UB" "Timer_reset now a us True s = Inl UB"
    and "TimerManager_registerTimer now b us (Some dg) recurring s = Inl UB"
proof -
  show "\<exists>s'. Timer_cancel a s = Inr (True, s')" using cancel_ok[OF assms(1,2)] assms(3) by auto
  have pre: "tm_ok (lock s)" "tm_heap (lock s) a = Some t" using assms by simp_all
  obtain l where l: "take_out a (lock s) = Inr ((lock s)\<lparr>tm_timers := l\<rparr>)" by (rule take_out_armed[OF pre assms(3)])
  have p: "\<exists>x y. put_in c (put_timer c t' u) = (x, y) \<and> tm_mutex x = tm_mutex u \<and> tm_lenient x = tm_lenient u" for c t' u
    by (auto simp: put_in_def Let_def split: prod.splits)
  show "Timer_refresh now a s = Inl UB"
    using p[of a "t\<lparr>t_next := now + t_us t\<rparr>" "(lock s)\<lparr>tm_timers := l\<rparr>"] l assms(2-4) by (auto simp: Timer_refresh_def deref_def)
  show "Timer_reset now a us True s = Inl UB"
    using p[of a "t\<lparr>t_us := us, t_next := now + us\<rparr>" "(lock s)\<lparr>tm_timers := l\<rparr>"] l assms(2-4) by (auto simp: Timer_reset_def deref_def Let_def)
  have lk: "lock (put_timer b u s) = put_timer b u (lock s)" for u by (simp add: lock_def put_timer_def)
  show "TimerManager_registerTimer now b us (Some dg) recurring s = Inl UB"
    using p[of b "\<lparr>t_recurring = recurring, t_next = now + us, t_us = us, t_dg = Some dg\<rparr>" "lock s"] assms(4)
    by (auto simp: TimerManager_registerTimer_def Timer_new_def Let_def lk)
qed

end
