(* ===== verification/Fiber_Sync.thy ===== *)
theory Fiber_Sync
  imports Prelude
begin

text \<open>
  The synchronization objects of fibersynchronization.cpp: mutex, recursive mutex, semaphore,
  condition and event. Each operation runs under the object's \<open>std::mutex\<close>, so it is one step
  on the object's fields. A fiber is known by a number and so is a scheduler. The operations
  that can block say whether they yield (\<open>Scheduler::yieldTo\<close>); what follows the yield is an
  operation of its own. The fibers that are made runnable (\<open>Scheduler::schedule\<close>) are part of
  the result.
\<close>

type_synonym fiber = nat
type_synonym waiter = "nat \<times> fiber"

datatype outcome = Returns | Yields

section \<open>FiberMutex\<close>

record fiber_mutex =
  fm_owner :: "fiber option"
  fm_waiters :: "waiter list"

definition FiberMutex_new :: fiber_mutex where
  "FiberMutex_new = \<lparr>fm_owner = None, fm_waiters = []\<rparr>"

definition FiberMutex_delete :: "fiber_mutex \<Rightarrow> unit result" where
  "FiberMutex_delete m = ensure (fm_owner m = None) (ensure (fm_waiters m = []) (Inr ()))"

definition FiberMutex_lock :: "nat option \<Rightarrow> fiber \<Rightarrow> fiber_mutex \<Rightarrow> (outcome \<times> fiber_mutex) result" where
  "FiberMutex_lock sched this m =
     (case sched of
        None \<Rightarrow> Inl Assertion
      | Some sc \<Rightarrow>
          ensure (fm_owner m \<noteq> Some this)
            (ensure ((sc, this) \<notin> set (fm_waiters m))
              (if fm_owner m = None then Inr (Returns, m\<lparr>fm_owner := Some this\<rparr>)
               else Inr (Yields, m\<lparr>fm_waiters := fm_waiters m @ [(sc, this)]\<rparr>))))"

text \<open>The end of \<open>lock\<close>, after the fiber has been resumed.\<close>

definition FiberMutex_locked :: "nat \<Rightarrow> fiber \<Rightarrow> fiber_mutex \<Rightarrow> unit result" where
  "FiberMutex_locked sc this m =
     ensure (fm_owner m = Some this) (ensure ((sc, this) \<notin> set (fm_waiters m)) (Inr ()))"

definition FiberMutex_unlockNoLock :: "fiber \<Rightarrow> fiber_mutex \<Rightarrow> (waiter list \<times> fiber_mutex) result" where
  "FiberMutex_unlockNoLock this m =
     ensure (fm_owner m = Some this)
       (let m1 = m\<lparr>fm_owner := None\<rparr>
        in case fm_waiters m1 of
             [] \<Rightarrow> Inr ([], m1)
           | nxt # rest \<Rightarrow> Inr ([nxt], m1\<lparr>fm_waiters := rest, fm_owner := Some (snd nxt)\<rparr>))"

definition FiberMutex_unlock :: "fiber \<Rightarrow> fiber_mutex \<Rightarrow> (waiter list \<times> fiber_mutex) result" where
  "FiberMutex_unlock this m = FiberMutex_unlockNoLock this m"

definition FiberMutex_unlockIfNotUnique ::
    "fiber \<Rightarrow> fiber_mutex \<Rightarrow> (bool \<times> waiter list \<times> fiber_mutex) result" where
  "FiberMutex_unlockIfNotUnique this m =
     ensure (fm_owner m = Some this)
       (if fm_waiters m \<noteq> [] then
          andThen (FiberMutex_unlockNoLock this m) (\<lambda>(scheduled, m'). Inr (True, scheduled, m'))
        else Inr (False, [], m))"

section \<open>FiberCondition\<close>

text \<open>The waiters of a condition, with the mutex it belongs to.\<close>

definition FiberCondition_delete :: "waiter list \<Rightarrow> unit result" where
  "FiberCondition_delete waiters = ensure (waiters = []) (Inr ())"

definition FiberCondition_wait ::
    "nat option \<Rightarrow> fiber \<Rightarrow> waiter list \<Rightarrow> fiber_mutex \<Rightarrow> (waiter list \<times> waiter list \<times> fiber_mutex) result" where
  "FiberCondition_wait sched this waiters m =
     (case sched of
        None \<Rightarrow> Inl Assertion
      | Some sc \<Rightarrow>
          ensure (fm_owner m = Some this)
            (andThen (FiberMutex_unlockNoLock this m)
              (\<lambda>(scheduled, m'). Inr (scheduled, waiters @ [(sc, this)], m'))))"

definition FiberCondition_waited :: "fiber \<Rightarrow> fiber_mutex \<Rightarrow> unit result" where
  "FiberCondition_waited this m = ensure (fm_owner m = Some this) (Inr ())"

text \<open>Handing the mutex to a waiter of the condition, or queueing it for the mutex.\<close>

definition release_one :: "waiter \<Rightarrow> fiber_mutex \<Rightarrow> (waiter list \<times> fiber_mutex) result" where
  "release_one nxt m =
     ensure (fm_owner m \<noteq> Some (snd nxt))
       (ensure (nxt \<notin> set (fm_waiters m))
         (if fm_owner m = None then Inr ([nxt], m\<lparr>fm_owner := Some (snd nxt)\<rparr>)
          else Inr ([], m\<lparr>fm_waiters := fm_waiters m @ [nxt]\<rparr>)))"

text \<open>
  \<open>signal\<close> takes the first waiter under the condition's own mutex and releases it under the
  mutex of the \<open>FiberMutex\<close>; other fibers can run between the two.
\<close>

definition signal_take :: "waiter list \<Rightarrow> waiter option \<times> waiter list" where
  "signal_take waiters = (case waiters of [] \<Rightarrow> (None, []) | nxt # rest \<Rightarrow> (Some nxt, rest))"

definition FiberCondition_signal ::
    "waiter list \<Rightarrow> fiber_mutex \<Rightarrow> (waiter list \<times> waiter list \<times> fiber_mutex) result" where
  "FiberCondition_signal waiters m =
     (case signal_take waiters of
        (None, rest) \<Rightarrow> Inr ([], rest, m)
      | (Some nxt, rest) \<Rightarrow> andThen (release_one nxt m) (\<lambda>(scheduled, m'). Inr (scheduled, rest, m')))"

fun broadcast_loop :: "waiter list \<Rightarrow> fiber_mutex \<Rightarrow> (waiter list \<times> fiber_mutex) result" where
  "broadcast_loop [] m = Inr ([], m)"
| "broadcast_loop (nxt # rest) m =
     andThen (release_one nxt m)
       (\<lambda>(sc1, m1). andThen (broadcast_loop rest m1) (\<lambda>(sc2, m2). Inr (sc1 @ sc2, m2)))"

definition FiberCondition_broadcast ::
    "waiter list \<Rightarrow> fiber_mutex \<Rightarrow> (waiter list \<times> waiter list \<times> fiber_mutex) result" where
  "FiberCondition_broadcast waiters m =
     (if waiters = [] then Inr ([], [], m)
      else andThen (broadcast_loop waiters m) (\<lambda>(scheduled, m'). Inr (scheduled, [], m')))"

section \<open>RecursiveFiberMutex\<close>

text \<open>\<open>m_recursion\<close> is an \<open>unsigned\<close>, so it counts modulo \<open>2 ^ 32\<close>.\<close>

abbreviation unsigned_mod :: nat where
  "unsigned_mod \<equiv> 4294967296"

record recursive_mutex =
  rm_owner :: "fiber option"
  rm_waiters :: "waiter list"
  rm_recursion :: nat

definition RecursiveFiberMutex_new :: recursive_mutex where
  "RecursiveFiberMutex_new = \<lparr>rm_owner = None, rm_waiters = [], rm_recursion = 0\<rparr>"

definition RecursiveFiberMutex_delete :: "recursive_mutex \<Rightarrow> unit result" where
  "RecursiveFiberMutex_delete m =
     ensure (rm_owner m = None) (ensure (rm_recursion m = 0) (ensure (rm_waiters m = []) (Inr ())))"

definition RecursiveFiberMutex_lock ::
    "nat option \<Rightarrow> fiber \<Rightarrow> recursive_mutex \<Rightarrow> (outcome \<times> recursive_mutex) result" where
  "RecursiveFiberMutex_lock sched this m =
     (case sched of
        None \<Rightarrow> Inl Assertion
      | Some sc \<Rightarrow>
          if rm_owner m = Some this then
            Inr (Returns, m\<lparr>rm_recursion := (rm_recursion m + 1) mod unsigned_mod\<rparr>)
          else
            ensure ((sc, this) \<notin> set (rm_waiters m))
              (if rm_owner m = None then Inr (Returns, m\<lparr>rm_owner := Some this, rm_recursion := 1\<rparr>)
               else Inr (Yields, m\<lparr>rm_waiters := rm_waiters m @ [(sc, this)]\<rparr>)))"

definition RecursiveFiberMutex_locked :: "nat \<Rightarrow> fiber \<Rightarrow> recursive_mutex \<Rightarrow> unit result" where
  "RecursiveFiberMutex_locked sc this m =
     ensure (rm_owner m = Some this) (ensure ((sc, this) \<notin> set (rm_waiters m)) (Inr ()))"

definition RecursiveFiberMutex_unlockNoLock ::
    "fiber \<Rightarrow> recursive_mutex \<Rightarrow> (waiter list \<times> recursive_mutex) result" where
  "RecursiveFiberMutex_unlockNoLock this m =
     ensure (rm_owner m = Some this)
       (let m1 = m\<lparr>rm_owner := None\<rparr>
        in case rm_waiters m1 of
             [] \<Rightarrow> Inr ([], m1)
           | nxt # rest \<Rightarrow>
               Inr ([nxt], m1\<lparr>rm_waiters := rest, rm_owner := Some (snd nxt), rm_recursion := 1\<rparr>))"

definition RecursiveFiberMutex_unlock ::
    "fiber \<Rightarrow> recursive_mutex \<Rightarrow> (waiter list \<times> recursive_mutex) result" where
  "RecursiveFiberMutex_unlock this m =
     ensure (rm_recursion m > 0)
       (let m1 = m\<lparr>rm_recursion := rm_recursion m - 1\<rparr>
        in if rm_recursion m1 = 0 then RecursiveFiberMutex_unlockNoLock this m1 else Inr ([], m1))"

definition RecursiveFiberMutex_unlockIfNotUnique ::
    "fiber \<Rightarrow> recursive_mutex \<Rightarrow> (bool \<times> waiter list \<times> recursive_mutex) result" where
  "RecursiveFiberMutex_unlockIfNotUnique this m =
     ensure (rm_owner m = Some this)
       (if rm_waiters m = [] then Inr (False, [], m)
        else
          ensure (rm_recursion m > 0)
            (let m1 = m\<lparr>rm_recursion := rm_recursion m - 1\<rparr>
             in andThen (if rm_recursion m1 = 0 then RecursiveFiberMutex_unlockNoLock this m1 else Inr ([], m1))
                  (\<lambda>(scheduled, m'). Inr (True, scheduled, m'))))"

section \<open>FiberSemaphore\<close>

record fiber_semaphore =
  fs_waiters :: "waiter list"
  fs_concurrency :: nat

definition FiberSemaphore_new :: "nat \<Rightarrow> fiber_semaphore" where
  "FiberSemaphore_new initialConcurrency = \<lparr>fs_waiters = [], fs_concurrency = initialConcurrency\<rparr>"

definition FiberSemaphore_delete :: "fiber_semaphore \<Rightarrow> unit result" where
  "FiberSemaphore_delete s = ensure (fs_waiters s = []) (Inr ())"

definition FiberSemaphore_wait ::
    "nat option \<Rightarrow> fiber \<Rightarrow> fiber_semaphore \<Rightarrow> (outcome \<times> fiber_semaphore) result" where
  "FiberSemaphore_wait sched this s =
     (case sched of
        None \<Rightarrow> Inl Assertion
      | Some sc \<Rightarrow>
          ensure ((sc, this) \<notin> set (fs_waiters s))
            (if fs_concurrency s > 0 then Inr (Returns, s\<lparr>fs_concurrency := fs_concurrency s - 1\<rparr>)
             else Inr (Yields, s\<lparr>fs_waiters := fs_waiters s @ [(sc, this)]\<rparr>)))"

definition FiberSemaphore_waited :: "nat \<Rightarrow> fiber \<Rightarrow> fiber_semaphore \<Rightarrow> unit result" where
  "FiberSemaphore_waited sc this s = ensure ((sc, this) \<notin> set (fs_waiters s)) (Inr ())"

definition FiberSemaphore_notify :: "fiber_semaphore \<Rightarrow> waiter list \<times> fiber_semaphore" where
  "FiberSemaphore_notify s =
     (case fs_waiters s of
        nxt # rest \<Rightarrow> ([nxt], s\<lparr>fs_waiters := rest\<rparr>)
      | [] \<Rightarrow> ([], s\<lparr>fs_concurrency := (fs_concurrency s + 1) mod size_mod\<rparr>))"

section \<open>FiberEvent\<close>

record fiber_event =
  fe_signalled :: bool
  fe_autoReset :: bool
  fe_waiters :: "waiter list"

definition FiberEvent_new :: "bool \<Rightarrow> fiber_event" where
  "FiberEvent_new autoReset = \<lparr>fe_signalled = False, fe_autoReset = autoReset, fe_waiters = []\<rparr>"

definition FiberEvent_delete :: "fiber_event \<Rightarrow> unit result" where
  "FiberEvent_delete e = ensure (fe_waiters e = []) (Inr ())"

definition FiberEvent_wait :: "nat \<Rightarrow> fiber \<Rightarrow> fiber_event \<Rightarrow> outcome \<times> fiber_event" where
  "FiberEvent_wait sc this e =
     (if fe_signalled e then (Returns, if fe_autoReset e then e\<lparr>fe_signalled := False\<rparr> else e)
      else (Yields, e\<lparr>fe_waiters := fe_waiters e @ [(sc, this)]\<rparr>))"

definition FiberEvent_set :: "fiber_event \<Rightarrow> waiter list \<times> fiber_event" where
  "FiberEvent_set e =
     (if fe_autoReset e then
        (case fe_waiters e of
           [] \<Rightarrow> ([], e\<lparr>fe_signalled := True\<rparr>)
         | runnable # rest \<Rightarrow> ([runnable], e\<lparr>fe_waiters := rest\<rparr>))
      else (fe_waiters e, e\<lparr>fe_signalled := True, fe_waiters := []\<rparr>))"

definition FiberEvent_reset :: "fiber_event \<Rightarrow> fiber_event" where
  "FiberEvent_reset e = e\<lparr>fe_signalled := False\<rparr>"

end
