(* ===== verification/Fiber_World.thy ===== *)
theory Fiber_World
  imports Fiber_Sync Refinement
begin

text \<open>
  Fibers that share a mutex and a condition. The steps are the operations of the code and the
  resumption of a fiber that was scheduled, in any order. A ticket lock specifies what they
  do: whoever asks gets the next ticket, and the tickets are served in order.
\<close>

section \<open>The world of fibers\<close>

datatype fiber_state = Running | Yielded | Scheduled

text \<open>
  \<open>fw_signals\<close> are the waiters that a signal has taken from the condition and not yet released.
  The last two fields record who asked for the mutex and who got it, in this order.
\<close>

record fiber_world =
  fw_mutex :: fiber_mutex
  fw_cond :: "waiter list"
  fw_signals :: "waiter list"
  fw_state :: "fiber \<Rightarrow> fiber_state"
  fw_requests :: "fiber list"
  fw_grants :: "fiber list"

definition fibers_start :: fiber_world where
  "fibers_start = \<lparr>fw_mutex = FiberMutex_new, fw_cond = [], fw_signals = [], fw_state = (\<lambda>_. Running),
     fw_requests = [], fw_grants = []\<rparr>"

datatype fiber_op =
    Lock nat fiber
  | Unlock fiber
  | UnlockIfNotUnique fiber
  | CondWait nat fiber
  | SignalTake
  | SignalRelease nat
  | Broadcast
  | Resume nat fiber

text \<open>Making fibers runnable; each of them has been given the mutex.\<close>

definition schedule_all :: "waiter list \<Rightarrow> fiber_world \<Rightarrow> fiber_world" where
  "schedule_all scheduled w =
     w\<lparr>fw_state := fold (\<lambda>x st. st(snd x := Scheduled)) scheduled (fw_state w),
       fw_grants := fw_grants w @ map snd scheduled\<rparr>"

text \<open>
  A fiber resumes at the end of \<open>FiberMutex::lock\<close> or of \<open>FiberCondition::wait\<close>; its step makes
  the assertions of both.
\<close>

fun fiber_exec :: "fiber_op \<Rightarrow> fiber_world \<Rightarrow> fiber_world result" where
  "fiber_exec (Lock sc f) w =
     andThen (FiberMutex_lock (Some sc) f (fw_mutex w)) (\<lambda>(r, m).
       let w1 = w\<lparr>fw_mutex := m, fw_requests := fw_requests w @ [f]\<rparr>
       in case r of
            Returns \<Rightarrow> Inr (w1\<lparr>fw_grants := fw_grants w @ [f]\<rparr>)
          | Yields \<Rightarrow> Inr (w1\<lparr>fw_state := (fw_state w)(f := Yielded)\<rparr>))"
| "fiber_exec (Unlock f) w =
     andThen (FiberMutex_unlock f (fw_mutex w)) (\<lambda>(scheduled, m).
       Inr (schedule_all scheduled (w\<lparr>fw_mutex := m\<rparr>)))"
| "fiber_exec (UnlockIfNotUnique f) w =
     andThen (FiberMutex_unlockIfNotUnique f (fw_mutex w)) (\<lambda>(r, scheduled, m).
       Inr (schedule_all scheduled (w\<lparr>fw_mutex := m\<rparr>)))"
| "fiber_exec (CondWait sc f) w =
     andThen (FiberCondition_wait (Some sc) f (fw_cond w) (fw_mutex w)) (\<lambda>(scheduled, cond, m).
       Inr (schedule_all scheduled
         (w\<lparr>fw_mutex := m, fw_cond := cond, fw_state := (fw_state w)(f := Yielded)\<rparr>)))"
| "fiber_exec SignalTake w =
     (case signal_take (fw_cond w) of
        (None, rest) \<Rightarrow> Inr (w\<lparr>fw_cond := rest\<rparr>)
      | (Some nxt, rest) \<Rightarrow> Inr (w\<lparr>fw_cond := rest, fw_signals := fw_signals w @ [nxt]\<rparr>))"
| "fiber_exec (SignalRelease i) w =
     (if i < length (fw_signals w) then
        andThen (release_one (fw_signals w ! i) (fw_mutex w)) (\<lambda>(scheduled, m).
          Inr (schedule_all scheduled
            (w\<lparr>fw_mutex := m, fw_signals := take i (fw_signals w) @ drop (Suc i) (fw_signals w),
              fw_requests := fw_requests w @ [snd (fw_signals w ! i)]\<rparr>)))
      else Inr w)"
| "fiber_exec Broadcast w =
     andThen (FiberCondition_broadcast (fw_cond w) (fw_mutex w)) (\<lambda>(scheduled, cond, m).
       Inr (schedule_all scheduled
         (w\<lparr>fw_mutex := m, fw_cond := cond, fw_requests := fw_requests w @ map snd (fw_cond w)\<rparr>)))"
| "fiber_exec (Resume sc f) w =
     andThen (FiberMutex_locked sc f (fw_mutex w)) (\<lambda>_.
       andThen (FiberCondition_waited f (fw_mutex w)) (\<lambda>_.
         Inr (w\<lparr>fw_state := (fw_state w)(f := Running)\<rparr>)))"

section \<open>Invariant\<close>

definition queued :: "fiber_world \<Rightarrow> fiber list" where
  "queued w = map snd (fm_waiters (fw_mutex w)) @ map snd (fw_cond w) @ map snd (fw_signals w)"

definition fibers_ok :: "fiber_world \<Rightarrow> bool" where
  "fibers_ok w \<longleftrightarrow>
     distinct (queued w) \<and>
     (\<forall>f. fw_state w f = Yielded \<longleftrightarrow> f \<in> set (queued w)) \<and>
     (\<forall>f. fw_state w f = Scheduled \<longrightarrow> fm_owner (fw_mutex w) = Some f) \<and>
     (\<forall>f. fm_owner (fw_mutex w) = Some f \<longrightarrow> f \<notin> set (queued w) \<and> fw_grants w \<noteq> [] \<and> last (fw_grants w) = f) \<and>
     (fm_owner (fw_mutex w) = None \<longrightarrow> fm_waiters (fw_mutex w) = []) \<and>
     fw_requests w = fw_grants w @ map snd (fm_waiters (fw_mutex w))"

section \<open>Specification: a ticket lock\<close>

text \<open>
  \<open>tk_tickets\<close> are the fibers that took a ticket, of which the first \<open>tk_served\<close> have been
  served; the last one served holds the lock unless it is free. \<open>tk_cond\<close> and \<open>tk_signals\<close>
  are the fibers waiting for the condition and those signalled.
\<close>

record ticket_lock =
  tk_tickets :: "fiber list"
  tk_served :: nat
  tk_held :: bool
  tk_cond :: "fiber list"
  tk_signals :: "fiber list"
  tk_state :: "fiber \<Rightarrow> fiber_state"

definition holder :: "ticket_lock \<Rightarrow> fiber option" where
  "holder t = (if tk_held t then Some (tk_tickets t ! (tk_served t - 1)) else None)"

text \<open>Serving the next ticket, if there is one; its fiber becomes runnable.\<close>

definition serve_next :: "ticket_lock \<Rightarrow> ticket_lock" where
  "serve_next t =
     (if tk_served t < length (tk_tickets t)
      then t\<lparr>tk_served := tk_served t + 1, tk_held := True,
             tk_state := (tk_state t)(tk_tickets t ! tk_served t := Scheduled)\<rparr>
      else t\<lparr>tk_held := False\<rparr>)"

text \<open>Taking a ticket for a fiber that is blocked already.\<close>

definition take_ticket :: "fiber \<Rightarrow> ticket_lock \<Rightarrow> ticket_lock" where
  "take_ticket f t =
     (let t1 = t\<lparr>tk_tickets := tk_tickets t @ [f]\<rparr> in if tk_held t then t1 else serve_next t1)"

fun ticket_op :: "fiber_op \<Rightarrow> ticket_lock \<Rightarrow> ticket_lock" where
  "ticket_op (Lock sc f) t =
     (if tk_held t then t\<lparr>tk_tickets := tk_tickets t @ [f], tk_state := (tk_state t)(f := Yielded)\<rparr>
      else t\<lparr>tk_tickets := tk_tickets t @ [f], tk_served := tk_served t + 1, tk_held := True\<rparr>)"
| "ticket_op (Unlock f) t = serve_next t"
| "ticket_op (UnlockIfNotUnique f) t = (if tk_served t < length (tk_tickets t) then serve_next t else t)"
| "ticket_op (CondWait sc f) t =
     serve_next (t\<lparr>tk_cond := tk_cond t @ [f], tk_state := (tk_state t)(f := Yielded)\<rparr>)"
| "ticket_op SignalTake t = t\<lparr>tk_cond := tl (tk_cond t), tk_signals := tk_signals t @ take 1 (tk_cond t)\<rparr>"
| "ticket_op (SignalRelease i) t =
     (if i < length (tk_signals t)
      then take_ticket (tk_signals t ! i) (t\<lparr>tk_signals := take i (tk_signals t) @ drop (Suc i) (tk_signals t)\<rparr>)
      else t)"
| "ticket_op Broadcast t = fold take_ticket (tk_cond t) (t\<lparr>tk_cond := []\<rparr>)"
| "ticket_op (Resume sc f) t = t\<lparr>tk_state := (tk_state t)(f := Running)\<rparr>"

text \<open>What the callers must keep to: the preconditions of the interface.\<close>

fun fiber_enabled :: "fiber_op \<Rightarrow> ticket_lock \<Rightarrow> bool" where
  "fiber_enabled (Lock sc f) t \<longleftrightarrow> tk_state t f = Running \<and> holder t \<noteq> Some f"
| "fiber_enabled (Unlock f) t \<longleftrightarrow> tk_state t f = Running \<and> holder t = Some f"
| "fiber_enabled (UnlockIfNotUnique f) t \<longleftrightarrow> tk_state t f = Running \<and> holder t = Some f"
| "fiber_enabled (CondWait sc f) t \<longleftrightarrow> tk_state t f = Running \<and> holder t = Some f"
| "fiber_enabled SignalTake t \<longleftrightarrow> True"
| "fiber_enabled (SignalRelease i) t \<longleftrightarrow> True"
| "fiber_enabled Broadcast t \<longleftrightarrow> True"
| "fiber_enabled (Resume sc f) t \<longleftrightarrow> tk_state t f = Scheduled"

definition ticket_of :: "fiber_world \<Rightarrow> ticket_lock" where
  "ticket_of w = \<lparr>tk_tickets = fw_requests w, tk_served = length (fw_grants w),
     tk_held = (fm_owner (fw_mutex w) \<noteq> None), tk_cond = map snd (fw_cond w),
     tk_signals = map snd (fw_signals w), tk_state = fw_state w\<rparr>"

lemma holder_owner:
  assumes "fibers_ok w"
  shows "holder (ticket_of w) = fm_owner (fw_mutex w)"
proof (cases "fm_owner (fw_mutex w)")
  case (Some f)
  then have "fw_grants w \<noteq> []" "last (fw_grants w) = f" "fw_requests w = fw_grants w @ map snd (fm_waiters (fw_mutex w))"
    using assms by (auto simp: fibers_ok_def)
  then show ?thesis using Some by (simp add: holder_def ticket_of_def nth_append last_conv_nth)
qed (simp add: holder_def ticket_of_def)

section \<open>The steps refine the ticket lock\<close>

lemma waiter_not_mem: "snd x \<notin> snd ` set xs \<Longrightarrow> x \<notin> set xs"
  by force

lemma schedule_one:
  "schedule_all [x] w = w\<lparr>fw_state := (fw_state w)(snd x := Scheduled), fw_grants := fw_grants w @ [snd x]\<rparr>"
  "schedule_all [] w = w"
  by (simp_all add: schedule_all_def)

lemma lock_refines:
  assumes "fibers_ok w" and "fw_state w f = Running" and "fm_owner (fw_mutex w) \<noteq> Some f"
  shows "\<exists>w'. fiber_exec (Lock sc f) w = Inr w' \<and> fibers_ok w' \<and> ticket_of w' = ticket_op (Lock sc f) (ticket_of w)"
proof -
  have f: "f \<notin> set (queued w)" using assms(1,2) by (metis fiber_state.distinct(1) fibers_ok_def)
  then have nw: "(sc, f) \<notin> set (fm_waiters (fw_mutex w))" by (force simp: queued_def)
  show ?thesis
  proof (cases "fm_owner (fw_mutex w)")
    case None
    let ?w = "w\<lparr>fw_mutex := (fw_mutex w)\<lparr>fm_owner := Some f\<rparr>, fw_requests := fw_requests w @ [f],
        fw_grants := fw_grants w @ [f]\<rparr>"
    have "fiber_exec (Lock sc f) w = Inr ?w" using None nw by (simp add: FiberMutex_lock_def)
    moreover have "fibers_ok ?w" using assms f None by (simp add: fibers_ok_def queued_def)
    ultimately show ?thesis using None by (simp add: ticket_of_def)
  next
    case (Some g)
    let ?w = "w\<lparr>fw_mutex := (fw_mutex w)\<lparr>fm_waiters := fm_waiters (fw_mutex w) @ [(sc, f)]\<rparr>,
        fw_requests := fw_requests w @ [f], fw_state := (fw_state w)(f := Yielded)\<rparr>"
    have "fiber_exec (Lock sc f) w = Inr ?w" using Some nw assms(3) by (simp add: FiberMutex_lock_def)
    moreover have "fibers_ok ?w" using assms f Some by (auto simp: fibers_ok_def queued_def)
    ultimately show ?thesis using Some by (simp add: ticket_of_def)
  qed
qed

text \<open>Giving the mutex up: unlocking it and waiting for the condition end with this.\<close>

definition releasing :: "fiber \<Rightarrow> fiber_world \<Rightarrow> bool" where
  "releasing f w \<longleftrightarrow>
     distinct (queued w) \<and> (\<forall>g. fw_state w g = Yielded \<longleftrightarrow> g \<in> set (queued w)) \<and>
     (\<forall>g. fw_state w g \<noteq> Scheduled) \<and> fm_owner (fw_mutex w) = Some f \<and>
     fw_requests w = fw_grants w @ map snd (fm_waiters (fw_mutex w))"

lemma release_refines:
  assumes "releasing f w"
  shows "\<exists>sc m. FiberMutex_unlockNoLock f (fw_mutex w) = Inr (sc, m) \<and>
    fibers_ok (schedule_all sc (w\<lparr>fw_mutex := m\<rparr>)) \<and>
    ticket_of (schedule_all sc (w\<lparr>fw_mutex := m\<rparr>)) = serve_next (ticket_of w)"
proof (cases "fm_waiters (fw_mutex w)")
  case Nil
  then show ?thesis using assms
    by (auto simp: releasing_def FiberMutex_unlockNoLock_def schedule_one fibers_ok_def queued_def ticket_of_def serve_next_def)
next
  case (Cons x xs)
  let ?m = "(fw_mutex w)\<lparr>fm_owner := Some (snd x), fm_waiters := xs\<rparr>"
  have "FiberMutex_unlockNoLock f (fw_mutex w) = Inr ([x], ?m)"
    using assms Cons by (simp add: releasing_def FiberMutex_unlockNoLock_def)
  moreover have "fibers_ok (schedule_all [x] (w\<lparr>fw_mutex := ?m\<rparr>))"
    using assms Cons by (auto simp: releasing_def schedule_one fibers_ok_def queued_def)
  moreover have "ticket_of (schedule_all [x] (w\<lparr>fw_mutex := ?m\<rparr>)) = serve_next (ticket_of w)"
    using assms Cons by (simp add: releasing_def schedule_one ticket_of_def serve_next_def)
  ultimately show ?thesis by blast
qed

lemma owner_releasing:
  assumes "fibers_ok w" and "fw_state w f = Running" and "fm_owner (fw_mutex w) = Some f"
  shows "releasing f w" "releasing f (w\<lparr>fw_cond := fw_cond w @ [(sc, f)], fw_state := (fw_state w)(f := Yielded)\<rparr>)"
  using assms by (auto simp: releasing_def fibers_ok_def queued_def)

lemma unlock_refines:
  assumes "fibers_ok w" and "fw_state w f = Running" and "fm_owner (fw_mutex w) = Some f"
  shows "\<exists>w'. fiber_exec (Unlock f) w = Inr w' \<and> fibers_ok w' \<and> ticket_of w' = ticket_op (Unlock f) (ticket_of w)"
    and "\<exists>w'. fiber_exec (UnlockIfNotUnique f) w = Inr w' \<and> fibers_ok w' \<and>
      ticket_of w' = ticket_op (UnlockIfNotUnique f) (ticket_of w)"
    and "\<exists>w'. fiber_exec (CondWait sc f) w = Inr w' \<and> fibers_ok w' \<and>
      ticket_of w' = ticket_op (CondWait sc f) (ticket_of w)"
proof -
  obtain sd m where r: "FiberMutex_unlockNoLock f (fw_mutex w) = Inr (sd, m)"
    "fibers_ok (schedule_all sd (w\<lparr>fw_mutex := m\<rparr>))"
    "ticket_of (schedule_all sd (w\<lparr>fw_mutex := m\<rparr>)) = serve_next (ticket_of w)"
    using release_refines[OF owner_releasing(1)[OF assms]] by blast
  then show "\<exists>w'. fiber_exec (Unlock f) w = Inr w' \<and> fibers_ok w' \<and> ticket_of w' = ticket_op (Unlock f) (ticket_of w)"
    by (simp add: FiberMutex_unlock_def)
  have "tk_served (ticket_of w) < length (tk_tickets (ticket_of w)) \<longleftrightarrow> fm_waiters (fw_mutex w) \<noteq> []"
    using assms(1) by (simp add: fibers_ok_def ticket_of_def)
  then show "\<exists>w'. fiber_exec (UnlockIfNotUnique f) w = Inr w' \<and> fibers_ok w' \<and>
      ticket_of w' = ticket_op (UnlockIfNotUnique f) (ticket_of w)"
    using r assms by (simp add: FiberMutex_unlockIfNotUnique_def schedule_one)
next
  let ?w = "w\<lparr>fw_cond := fw_cond w @ [(sc, f)], fw_state := (fw_state w)(f := Yielded)\<rparr>"
  obtain sd m where r: "FiberMutex_unlockNoLock f (fw_mutex ?w) = Inr (sd, m)"
    "fibers_ok (schedule_all sd (?w\<lparr>fw_mutex := m\<rparr>))"
    "ticket_of (schedule_all sd (?w\<lparr>fw_mutex := m\<rparr>)) = serve_next (ticket_of ?w)"
    using release_refines[OF owner_releasing(2)[OF assms, of sc]] by blast
  have "fiber_exec (CondWait sc f) w = Inr (schedule_all sd (?w\<lparr>fw_mutex := m\<rparr>))"
    using r(1) assms(3) by (simp add: FiberCondition_wait_def) (rule arg_cong[where f = "schedule_all sd"], simp)
  moreover have "serve_next (ticket_of ?w) = ticket_op (CondWait sc f) (ticket_of w)"
    by (simp add: ticket_of_def)
  ultimately show "\<exists>w'. fiber_exec (CondWait sc f) w = Inr w' \<and> fibers_ok w' \<and>
      ticket_of w' = ticket_op (CondWait sc f) (ticket_of w)"
    using r(2,3) by metis
qed

text \<open>Releasing a waiter of the condition that a signal or a broadcast has taken.\<close>

lemma release_one_refines:
  assumes "fibers_ok w" and "fw_signals w = sg @ x # ys"
  shows "\<exists>sc m. release_one x (fw_mutex w) = Inr (sc, m) \<and>
    fibers_ok (schedule_all sc (w\<lparr>fw_mutex := m, fw_signals := sg @ ys, fw_requests := fw_requests w @ [snd x]\<rparr>)) \<and>
    ticket_of (schedule_all sc (w\<lparr>fw_mutex := m, fw_signals := sg @ ys, fw_requests := fw_requests w @ [snd x]\<rparr>)) =
      take_ticket (snd x) ((ticket_of w)\<lparr>tk_signals := map snd (sg @ ys)\<rparr>)"
proof -
  have x: "snd x \<in> set (queued w)" using assms(2) by (simp add: queued_def)
  have nw: "x \<notin> set (fm_waiters (fw_mutex w))"
    using assms by (intro waiter_not_mem) (auto simp: fibers_ok_def queued_def)
  have no: "fm_owner (fw_mutex w) \<noteq> Some (snd x)" using assms(1) x by (auto simp: fibers_ok_def)
  show ?thesis
  proof (cases "fm_owner (fw_mutex w)")
    case None
    let ?m = "(fw_mutex w)\<lparr>fm_owner := Some (snd x)\<rparr>"
    have "release_one x (fw_mutex w) = Inr ([x], ?m)" using nw no None by (simp add: release_one_def)
    moreover have "fibers_ok (schedule_all [x] (w\<lparr>fw_mutex := ?m, fw_signals := sg @ ys, fw_requests := fw_requests w @ [snd x]\<rparr>))"
      using assms None by (auto simp: schedule_one fibers_ok_def queued_def)
    moreover have "ticket_of (schedule_all [x] (w\<lparr>fw_mutex := ?m, fw_signals := sg @ ys, fw_requests := fw_requests w @ [snd x]\<rparr>)) =
        take_ticket (snd x) ((ticket_of w)\<lparr>tk_signals := map snd (sg @ ys)\<rparr>)"
      using assms None by (simp add: schedule_one fibers_ok_def ticket_of_def take_ticket_def serve_next_def)
    ultimately show ?thesis by blast
  next
    case (Some g)
    let ?m = "(fw_mutex w)\<lparr>fm_waiters := fm_waiters (fw_mutex w) @ [x]\<rparr>"
    have "release_one x (fw_mutex w) = Inr ([], ?m)" using nw no Some by (simp add: release_one_def)
    moreover have "fibers_ok (schedule_all [] (w\<lparr>fw_mutex := ?m, fw_signals := sg @ ys, fw_requests := fw_requests w @ [snd x]\<rparr>))"
      using assms Some by (auto simp: schedule_one fibers_ok_def queued_def)
    moreover have "ticket_of (schedule_all [] (w\<lparr>fw_mutex := ?m, fw_signals := sg @ ys, fw_requests := fw_requests w @ [snd x]\<rparr>)) =
        take_ticket (snd x) ((ticket_of w)\<lparr>tk_signals := map snd (sg @ ys)\<rparr>)"
      using Some by (simp add: schedule_one ticket_of_def take_ticket_def)
    ultimately show ?thesis by blast
  qed
qed

lemma schedule_all_append: "schedule_all (xs @ ys) w = schedule_all ys (schedule_all xs w)"
  by (simp add: schedule_all_def)

lemma schedule_all_fields [simp]:
  "fw_mutex (schedule_all xs w) = fw_mutex w" "fw_signals (schedule_all xs w) = fw_signals w"
  "fw_cond (schedule_all xs w) = fw_cond w" "fw_requests (schedule_all xs w) = fw_requests w"
  by (simp_all add: schedule_all_def)

lemma broadcast_loop_refines:
  assumes "fibers_ok w" and "fw_signals w = sg @ xs"
  shows "\<exists>sc m. broadcast_loop xs (fw_mutex w) = Inr (sc, m) \<and>
    fibers_ok (schedule_all sc (w\<lparr>fw_mutex := m, fw_signals := sg, fw_requests := fw_requests w @ map snd xs\<rparr>)) \<and>
    ticket_of (schedule_all sc (w\<lparr>fw_mutex := m, fw_signals := sg, fw_requests := fw_requests w @ map snd xs\<rparr>)) =
      fold take_ticket (map snd xs) ((ticket_of w)\<lparr>tk_signals := map snd sg\<rparr>)"
  using assms
proof (induction xs arbitrary: w)
  case Nil
  then have sg: "sg = fw_signals w" by simp
  show ?case using Nil by (simp add: schedule_one ticket_of_def sg)
next
  case (Cons x xs)
  let ?w = "\<lambda>m. w\<lparr>fw_mutex := m, fw_signals := sg @ xs, fw_requests := fw_requests w @ [snd x]\<rparr>"
  obtain sc m where r: "release_one x (fw_mutex w) = Inr (sc, m)" "fibers_ok (schedule_all sc (?w m))"
    "ticket_of (schedule_all sc (?w m)) = take_ticket (snd x) ((ticket_of w)\<lparr>tk_signals := map snd (sg @ xs)\<rparr>)"
    using release_one_refines[OF Cons.prems] by blast
  let ?w1 = "schedule_all sc (?w m)"
  obtain sc' m' where b: "broadcast_loop xs (fw_mutex ?w1) = Inr (sc', m')"
    "fibers_ok (schedule_all sc' (?w1\<lparr>fw_mutex := m', fw_signals := sg, fw_requests := fw_requests ?w1 @ map snd xs\<rparr>))"
    "ticket_of (schedule_all sc' (?w1\<lparr>fw_mutex := m', fw_signals := sg, fw_requests := fw_requests ?w1 @ map snd xs\<rparr>)) =
      fold take_ticket (map snd xs) ((ticket_of ?w1)\<lparr>tk_signals := map snd sg\<rparr>)"
    using Cons.IH[OF r(2)] by auto
  have eq: "schedule_all sc' (?w1\<lparr>fw_mutex := m', fw_signals := sg, fw_requests := fw_requests ?w1 @ map snd xs\<rparr>) =
      schedule_all (sc @ sc') (w\<lparr>fw_mutex := m', fw_signals := sg, fw_requests := fw_requests w @ map snd (x # xs)\<rparr>)"
    unfolding schedule_all_append by (simp add: schedule_all_def)
  have tk: "(take_ticket (snd x) ((ticket_of w)\<lparr>tk_signals := map snd (sg @ xs)\<rparr>))\<lparr>tk_signals := map snd sg\<rparr> =
      take_ticket (snd x) ((ticket_of w)\<lparr>tk_signals := map snd sg\<rparr>)"
    by (simp add: take_ticket_def serve_next_def Let_def)
  have "broadcast_loop (x # xs) (fw_mutex w) = Inr (sc @ sc', m')" using r(1) b(1) by simp
  moreover note b(2)[unfolded eq] b(3)[unfolded eq r(3) tk]
  ultimately show ?case by auto
qed

lemma broadcast_refines:
  assumes "fibers_ok w"
  shows "\<exists>w'. fiber_exec Broadcast w = Inr w' \<and> fibers_ok w' \<and> ticket_of w' = ticket_op Broadcast (ticket_of w)"
proof (cases "fw_cond w = []")
  case True
  then show ?thesis using assms
    by (simp add: FiberCondition_broadcast_def schedule_one fibers_ok_def queued_def ticket_of_def)
next
  case False
  let ?w = "w\<lparr>fw_cond := [], fw_signals := fw_signals w @ fw_cond w\<rparr>"
  have ok: "fibers_ok ?w" using assms by (auto simp: fibers_ok_def queued_def)
  obtain sc m where b: "broadcast_loop (fw_cond w) (fw_mutex w) = Inr (sc, m)"
    "fibers_ok (schedule_all sc (?w\<lparr>fw_mutex := m, fw_signals := fw_signals w, fw_requests := fw_requests w @ map snd (fw_cond w)\<rparr>))"
    "ticket_of (schedule_all sc (?w\<lparr>fw_mutex := m, fw_signals := fw_signals w, fw_requests := fw_requests w @ map snd (fw_cond w)\<rparr>)) =
      fold take_ticket (map snd (fw_cond w)) ((ticket_of ?w)\<lparr>tk_signals := map snd (fw_signals w)\<rparr>)"
    using broadcast_loop_refines[OF ok, of "fw_signals w" "fw_cond w"] by auto
  have eq: "?w\<lparr>fw_mutex := m, fw_signals := fw_signals w, fw_requests := fw_requests w @ map snd (fw_cond w)\<rparr> =
      w\<lparr>fw_mutex := m, fw_cond := [], fw_requests := fw_requests w @ map snd (fw_cond w)\<rparr>" by simp
  have tk: "(ticket_of ?w)\<lparr>tk_signals := map snd (fw_signals w)\<rparr> = (ticket_of w)\<lparr>tk_cond := []\<rparr>"
    by (simp add: ticket_of_def)
  have "fiber_exec Broadcast w =
      Inr (schedule_all sc (w\<lparr>fw_mutex := m, fw_cond := [], fw_requests := fw_requests w @ map snd (fw_cond w)\<rparr>))"
    using b(1) False by (simp add: FiberCondition_broadcast_def)
  moreover have "map snd (fw_cond w) = tk_cond (ticket_of w)" by (simp add: ticket_of_def)
  ultimately show ?thesis using b(2,3) unfolding eq tk by auto
qed

interpretation ticket: data_refinement fiber_exec fibers_ok ticket_of fiber_enabled ticket_op
proof
  fix a :: fiber_op and w :: fiber_world
  assume ok: "fibers_ok w" and en: "fiber_enabled a (ticket_of w)"
  note ho = holder_owner[OF ok]
  have st: "tk_state (ticket_of w) = fw_state w" by (simp add: ticket_of_def)
  show "\<exists>w'. fiber_exec a w = Inr w' \<and> fibers_ok w' \<and> ticket_of w' = ticket_op a (ticket_of w)"
  proof (cases a)
    case (Lock sc f)
    then show ?thesis using en ho st lock_refines[OF ok] by simp
  next
    case (Unlock f)
    then show ?thesis using en ho st unlock_refines(1)[OF ok] by simp
  next
    case (UnlockIfNotUnique f)
    then show ?thesis using en ho st unlock_refines(2)[OF ok] by simp
  next
    case (CondWait sc f)
    then show ?thesis using en ho st unlock_refines(3)[OF ok] by simp
  next
    case SignalTake
    then show ?thesis using ok
      by (cases "fw_cond w") (auto simp: signal_take_def fibers_ok_def queued_def ticket_of_def)
  next
    case (SignalRelease i)
    show ?thesis
    proof (cases "i < length (fw_signals w)")
      case True
      have "fw_signals w = take i (fw_signals w) @ fw_signals w ! i # drop (Suc i) (fw_signals w)"
        using True by (rule id_take_nth_drop)
      from release_one_refines[OF ok this] show ?thesis
        using SignalRelease True by (auto simp: ticket_of_def take_map drop_map)
    qed (use ok SignalRelease in \<open>simp add: ticket_of_def\<close>)
  next
    case Broadcast
    then show ?thesis using broadcast_refines[OF ok] by simp
  next
    case (Resume sc f)
    then have "fm_owner (fw_mutex w) = Some f" using en st ok by (auto simp: fibers_ok_def)
    moreover from this have f: "f \<notin> set (queued w)" using ok unfolding fibers_ok_def by blast
    then have "(sc, f) \<notin> set (fm_waiters (fw_mutex w))" by (force simp: queued_def)
    ultimately have "fiber_exec a w = Inr (w\<lparr>fw_state := (fw_state w)(f := Running)\<rparr>)"
      using Resume by (simp add: FiberMutex_locked_def FiberCondition_waited_def)
    moreover have "fibers_ok (w\<lparr>fw_state := (fw_state w)(f := Running)\<rparr>)"
      using ok f by (simp add: fibers_ok_def queued_def)
    ultimately show ?thesis using Resume by (simp add: ticket_of_def)
  qed
qed

end
