(* ===== verification/Fiber_Props.thy ===== *)
theory Fiber_Props
  imports Fiber_World
begin

text \<open>
  The properties of the fiber synchronization objects: the mutex with its condition is a
  ticket lock with bounded waiting, the semaphore grants as many waits as it has permits and
  in order, the recursive mutex is the plain one with a counter, and an event loses no signal.
\<close>

section \<open>Tickets are served in order\<close>

fun is_release :: "fiber_op \<Rightarrow> bool" where
  "is_release (Unlock f) = True"
| "is_release (UnlockIfNotUnique f) = True"
| "is_release (CondWait sc f) = True"
| "is_release _ = False"

definition extends :: "ticket_lock \<Rightarrow> ticket_lock \<Rightarrow> bool" where
  "extends t t' \<longleftrightarrow> take (length (tk_tickets t)) (tk_tickets t') = tk_tickets t \<and>
     length (tk_tickets t) \<le> length (tk_tickets t') \<and> tk_served t \<le> tk_served t'"

lemma extends_refl [simp]: "extends t t"
  by (simp add: extends_def)

lemma extends_trans: "extends t t' \<Longrightarrow> extends t' t'' \<Longrightarrow> extends t t''"
  unfolding extends_def by (metis le_trans min.absorb1 take_take)

lemma extends_take_ticket: "extends t (take_ticket f t)"
  by (simp add: extends_def take_ticket_def serve_next_def Let_def)

lemma extends_fold_take: "extends t (fold take_ticket fs t)"
  by (induction fs arbitrary: t) (auto intro: extends_trans extends_take_ticket)

lemma extends_op: "extends t (ticket_op a t)"
proof (cases a)
  case Broadcast
  have "extends (t\<lparr>tk_cond := []\<rparr>) (ticket_op a t)" unfolding Broadcast ticket_op.simps by (rule extends_fold_take)
  then show ?thesis by (simp add: extends_def)
next
  case (SignalRelease i)
  have "extends (t\<lparr>tk_signals := s\<rparr>) (take_ticket f (t\<lparr>tk_signals := s\<rparr>))" for s f by (rule extends_take_ticket)
  then show ?thesis using SignalRelease by (simp add: extends_def)
qed (auto simp: extends_def serve_next_def)

lemma release_serves:
  "is_release a \<Longrightarrow> tk_served t < length (tk_tickets t) \<Longrightarrow> tk_served (ticket_op a t) = Suc (tk_served t)"
  by (cases a) (auto simp: serve_next_def)

lemma served_fold:
  "extends t (fold ticket_op as t) \<and>
   min (length (tk_tickets t)) (tk_served t + length (filter is_release as)) \<le> tk_served (fold ticket_op as t)"
proof (induction as arbitrary: t)
  case (Cons a as)
  let ?t = "ticket_op a t"
  have e: "extends t ?t" by (rule extends_op)
  have IH: "extends ?t (fold ticket_op as ?t)"
    "min (length (tk_tickets ?t)) (tk_served ?t + length (filter is_release as)) \<le> tk_served (fold ticket_op as ?t)"
    using Cons.IH[of ?t] by simp_all
  have "min (length (tk_tickets t)) (tk_served t + length (filter is_release (a # as))) \<le>
      min (length (tk_tickets ?t)) (tk_served ?t + length (filter is_release as)) \<or>
      length (tk_tickets t) \<le> tk_served ?t"
    using e release_serves[of a t] by (cases "tk_served t < length (tk_tickets t)") (auto simp: extends_def)
  moreover have "tk_served ?t \<le> tk_served (fold ticket_op as ?t)" using IH(1) by (simp add: extends_def)
  ultimately have "min (length (tk_tickets t)) (tk_served t + length (filter is_release (a # as))) \<le>
      tk_served (fold ticket_op as ?t)" using IH(2) by linarith
  then show ?case using extends_trans[OF e IH(1)] by simp
qed simp

section \<open>The semaphore\<close>

text \<open>
  Fibers that share a semaphore, with the record of who waited for it. The specification is a
  number of permits, the initial ones and one for each \<open>notify\<close>: the first so many waits are
  granted.
\<close>

record sem_world =
  sw_sem :: fiber_semaphore
  sw_state :: "fiber \<Rightarrow> fiber_state"
  sw_requests :: "fiber list"
  sw_grants :: "fiber list"

datatype sem_op = SemWait nat fiber | SemNotify | SemResume nat fiber

fun sem_exec :: "sem_op \<Rightarrow> sem_world \<Rightarrow> sem_world result" where
  "sem_exec (SemWait sc f) w =
     andThen (FiberSemaphore_wait (Some sc) f (sw_sem w)) (\<lambda>(r, s).
       let w1 = w\<lparr>sw_sem := s, sw_requests := sw_requests w @ [f]\<rparr>
       in case r of
            Returns \<Rightarrow> Inr (w1\<lparr>sw_grants := sw_grants w @ [f]\<rparr>)
          | Yields \<Rightarrow> Inr (w1\<lparr>sw_state := (sw_state w)(f := Yielded)\<rparr>))"
| "sem_exec SemNotify w =
     (let (scheduled, s) = FiberSemaphore_notify (sw_sem w)
      in Inr (w\<lparr>sw_sem := s, sw_state := fold (\<lambda>x st. st(snd x := Scheduled)) scheduled (sw_state w),
               sw_grants := sw_grants w @ map snd scheduled\<rparr>))"
| "sem_exec (SemResume sc f) w =
     andThen (FiberSemaphore_waited sc f (sw_sem w)) (\<lambda>_.
       Inr (w\<lparr>sw_state := (sw_state w)(f := Running)\<rparr>))"

record permits =
  pm_permits :: nat
  pm_requests :: "fiber list"
  pm_state :: "fiber \<Rightarrow> fiber_state"

fun permits_op :: "sem_op \<Rightarrow> permits \<Rightarrow> permits" where
  "permits_op (SemWait sc f) p =
     p\<lparr>pm_requests := pm_requests p @ [f],
       pm_state := (if length (pm_requests p) < pm_permits p then pm_state p else (pm_state p)(f := Yielded))\<rparr>"
| "permits_op SemNotify p =
     p\<lparr>pm_permits := pm_permits p + 1,
       pm_state := (if pm_permits p < length (pm_requests p)
                    then (pm_state p)(pm_requests p ! pm_permits p := Scheduled) else pm_state p)\<rparr>"
| "permits_op (SemResume sc f) p = p\<lparr>pm_state := (pm_state p)(f := Running)\<rparr>"

fun sem_enabled :: "sem_op \<Rightarrow> permits \<Rightarrow> bool" where
  "sem_enabled (SemWait sc f) p \<longleftrightarrow> pm_state p f = Running"
| "sem_enabled SemNotify p \<longleftrightarrow> pm_permits p < length (pm_requests p) + (size_mod - 1)"
| "sem_enabled (SemResume sc f) p \<longleftrightarrow> pm_state p f = Scheduled"

definition sem_permits :: "sem_world \<Rightarrow> nat" where
  "sem_permits w = length (sw_grants w) + fs_concurrency (sw_sem w)"

definition permits_of :: "sem_world \<Rightarrow> permits" where
  "permits_of w = \<lparr>pm_permits = sem_permits w, pm_requests = sw_requests w, pm_state = sw_state w\<rparr>"

definition sem_ok :: "sem_world \<Rightarrow> bool" where
  "sem_ok w \<longleftrightarrow>
     sw_requests w = sw_grants w @ map snd (fs_waiters (sw_sem w)) \<and>
     distinct (map snd (fs_waiters (sw_sem w))) \<and>
     (fs_waiters (sw_sem w) \<noteq> [] \<longrightarrow> fs_concurrency (sw_sem w) = 0) \<and>
     (\<forall>f. sw_state w f = Yielded \<longleftrightarrow> f \<in> snd ` set (fs_waiters (sw_sem w)))"

interpretation sem: data_refinement sem_exec sem_ok permits_of sem_enabled permits_op
proof
  fix a :: sem_op and w :: sem_world
  assume ok: "sem_ok w" and en: "sem_enabled a (permits_of w)"
  show "\<exists>w'. sem_exec a w = Inr w' \<and> sem_ok w' \<and> permits_of w' = permits_op a (permits_of w)"
  proof (cases a)
    case (SemWait sc f)
    then have "sw_state w f \<noteq> Yielded" using en by (simp add: permits_of_def)
    then have nf: "f \<notin> snd ` set (fs_waiters (sw_sem w))" using ok unfolding sem_ok_def by blast
    then have "(sc, f) \<notin> set (fs_waiters (sw_sem w))" by force
    then show ?thesis using SemWait ok nf
      by (cases "fs_concurrency (sw_sem w) > 0")
        (auto simp: FiberSemaphore_wait_def sem_ok_def permits_of_def sem_permits_def)
  next
    case SemNotify
    then show ?thesis using ok en
      by (cases "fs_waiters (sw_sem w)")
        (auto simp: FiberSemaphore_notify_def sem_ok_def permits_of_def sem_permits_def nth_append)
  next
    case (SemResume sc f)
    then have "sw_state w f \<noteq> Yielded" using en by (simp add: permits_of_def)
    then have nf: "f \<notin> snd ` set (fs_waiters (sw_sem w))" using ok unfolding sem_ok_def by blast
    then have "(sc, f) \<notin> set (fs_waiters (sw_sem w))" by force
    then show ?thesis using SemResume ok nf
      by (auto simp: FiberSemaphore_waited_def sem_ok_def permits_of_def sem_permits_def)
  qed
qed

section \<open>The recursive mutex and the plain one\<close>

definition plain :: "recursive_mutex \<Rightarrow> fiber_mutex" where
  "plain m = \<lparr>fm_owner = rm_owner m, fm_waiters = rm_waiters m\<rparr>"

definition counted :: "fiber_mutex \<Rightarrow> nat \<Rightarrow> recursive_mutex" where
  "counted m n = \<lparr>rm_owner = fm_owner m, rm_waiters = fm_waiters m, rm_recursion = n\<rparr>"

definition recursive_ok :: "recursive_mutex \<Rightarrow> bool" where
  "recursive_ok m \<longleftrightarrow> (rm_recursion m = 0 \<longleftrightarrow> rm_owner m = None) \<and> rm_recursion m < unsigned_mod"

section \<open>Events\<close>

inductive event_reach :: "bool \<Rightarrow> fiber_event \<Rightarrow> bool" where
  new: "event_reach auto (FiberEvent_new auto)"
| wait: "event_reach auto e \<Longrightarrow> event_reach auto (snd (FiberEvent_wait sc f e))"
| set: "event_reach auto e \<Longrightarrow> event_reach auto (snd (FiberEvent_set e))"
| reset: "event_reach auto e \<Longrightarrow> event_reach auto (FiberEvent_reset e)"

lemma event_reach_inv:
  "event_reach auto e \<Longrightarrow> fe_autoReset e = auto \<and> (fe_signalled e \<longrightarrow> fe_waiters e = [])"
  by (induction rule: event_reach.induct)
    (auto simp: FiberEvent_new_def FiberEvent_wait_def FiberEvent_set_def FiberEvent_reset_def split: list.splits)

section \<open>Properties\<close>

text \<open>
  C6. Fibers that use a \<open>FiberMutex\<close> and a \<open>FiberCondition\<close> within their preconditions run a
  ticket lock: in every interleaving, none of the assertions fails, also not those made after
  a fiber is resumed, the fibers get the mutex in the order in which they locked it or were
  released from the condition, and a fiber that is resumed owns it.
\<close>

theorem fiber_mutex_is_ticket_lock:
  assumes "all_enabled fiber_enabled ticket_op ops (ticket_of fibers_start)"
  shows "\<exists>w. run_ops fiber_exec ops fibers_start = Inr w \<and> fibers_ok w \<and>
    ticket_of w = fold ticket_op ops (ticket_of fibers_start)"
proof -
  have "fibers_ok fibers_start" by (simp add: fibers_start_def fibers_ok_def queued_def FiberMutex_new_def)
  then show ?thesis using ticket.run_refines assms by blast
qed

theorem fiber_mutex_is_ticket_lock_witness:
  "\<exists>w. run_ops fiber_exec
      [Lock 0 1, Lock 0 2, CondWait 0 1, Resume 0 2, Broadcast, Unlock 2, Resume 0 1, UnlockIfNotUnique 1] fibers_start = Inr w \<and>
    fibers_ok w"
  using fiber_mutex_is_ticket_lock[of "[Lock 0 1, Lock 0 2, CondWait 0 1, Resume 0 2, Broadcast, Unlock 2, Resume 0 1, UnlockIfNotUnique 1]"]
  by (auto simp: fibers_start_def ticket_of_def FiberMutex_new_def holder_def serve_next_def take_ticket_def)

text \<open>
  C26. Bounded waiting: a fiber with \<open>k\<close> others before it in the queue of the mutex has been
  given the mutex once it has been released \<open>k + 1\<close> times, whatever else happens.
\<close>

theorem mutex_bounded_waiting:
  assumes "fibers_ok w" and "all_enabled fiber_enabled ticket_op ops (ticket_of w)"
    and "k < length (fm_waiters (fw_mutex w))" and "k < length (filter is_release ops)"
  shows "\<exists>w'. run_ops fiber_exec ops w = Inr w' \<and> length (fw_grants w) + k < length (fw_grants w') \<and>
    fw_grants w' ! (length (fw_grants w) + k) = snd (fm_waiters (fw_mutex w) ! k)"
proof -
  obtain w' where w': "run_ops fiber_exec ops w = Inr w'" "fibers_ok w'" "ticket_of w' = fold ticket_op ops (ticket_of w)"
    using ticket.run_refines[OF assms(1,2)] by blast
  have rq: "fw_requests w = fw_grants w @ map snd (fm_waiters (fw_mutex w))"
    "fw_requests w' = fw_grants w' @ map snd (fm_waiters (fw_mutex w'))"
    using assms(1) w'(2) by (auto simp: fibers_ok_def)
  let ?n = "length (fw_grants w) + k"
  have "extends (ticket_of w) (ticket_of w')"
    "min (length (fw_requests w)) (length (fw_grants w) + length (filter is_release ops)) \<le> length (fw_grants w')"
    using served_fold[of "ticket_of w" ops, folded w'(3)] by (simp_all add: ticket_of_def)
  then have "take (length (fw_requests w)) (fw_requests w') = fw_requests w" "?n < length (fw_grants w')"
    using assms(3,4) rq(1) by (simp_all add: extends_def ticket_of_def)
  moreover have "?n < length (fw_requests w)" using assms(3) rq(1) by simp
  ultimately have "fw_grants w' ! ?n = fw_requests w ! ?n" "?n < length (fw_grants w')"
    using rq(2) by (metis nth_append nth_take)+
  moreover have "fw_requests w ! ?n = snd (fm_waiters (fw_mutex w) ! k)" using rq(1) assms(3) by (simp add: nth_append)
  ultimately show ?thesis using w'(1) by simp
qed

theorem mutex_bounded_waiting_witness:
  "\<exists>w w'. fm_waiters (fw_mutex w) = [(0, 2), (0, 3)] \<and> run_ops fiber_exec [Unlock 1, Resume 0 2, Unlock 2] w = Inr w' \<and>
    fw_grants w' ! 2 = 3"
proof -
  let ?w = "\<lparr>fw_mutex = \<lparr>fm_owner = Some 1, fm_waiters = [(0, 2), (0, 3)]\<rparr>, fw_cond = [], fw_signals = [],
    fw_state = (\<lambda>f. if f = 2 \<or> f = 3 then Yielded else Running), fw_requests = [1, 2, 3], fw_grants = [1]\<rparr>"
  have ok: "fibers_ok ?w" by (auto simp: fibers_ok_def queued_def)
  have en: "all_enabled fiber_enabled ticket_op [Unlock 1, Resume 0 2, Unlock 2] (ticket_of ?w)"
    by (simp add: ticket_of_def holder_def serve_next_def)
  from mutex_bounded_waiting[OF ok en, of 1]
  obtain w' where "run_ops fiber_exec [Unlock 1, Resume 0 2, Unlock 2] ?w = Inr w'" "fw_grants w' ! 2 = 3"
    by (auto simp: numeral_2_eq_2 simp del: run_ops.simps)
  then show ?thesis by (intro exI[of _ ?w] exI[of _ w']) (simp del: run_ops.simps)
qed

text \<open>
  C27. A \<open>FiberSemaphore\<close> grants exactly as many waits as there are permits, the initial
  concurrency and one for each \<open>notify\<close>, and it grants them in the order in which they were
  made: in every interleaving the fibers that still wait are those beyond the number of
  permits, and no assertion fails.
\<close>

theorem semaphore_grants_permits:
  assumes "all_enabled sem_enabled permits_op ops
      \<lparr>pm_permits = n, pm_requests = [], pm_state = (\<lambda>_. Running)\<rparr>"
  defines "p \<equiv> fold permits_op ops \<lparr>pm_permits = n, pm_requests = [], pm_state = (\<lambda>_. Running)\<rparr>"
  shows "\<exists>w. run_ops sem_exec ops
      \<lparr>sw_sem = FiberSemaphore_new n, sw_state = (\<lambda>_. Running), sw_requests = [], sw_grants = []\<rparr> = Inr w \<and>
    sw_grants w = take (pm_permits p) (pm_requests p) \<and>
    map snd (fs_waiters (sw_sem w)) = drop (pm_permits p) (pm_requests p) \<and>
    fs_concurrency (sw_sem w) = pm_permits p - length (pm_requests p) \<and> sw_state w = pm_state p"
proof -
  let ?w = "\<lparr>sw_sem = FiberSemaphore_new n, sw_state = (\<lambda>_. Running), sw_requests = [], sw_grants = []\<rparr>"
  have "sem_ok ?w" "permits_of ?w = \<lparr>pm_permits = n, pm_requests = [], pm_state = (\<lambda>_. Running)\<rparr>"
    by (simp_all add: sem_ok_def permits_of_def sem_permits_def FiberSemaphore_new_def)
  then obtain w where w: "run_ops sem_exec ops ?w = Inr w" "sem_ok w" "permits_of w = p"
    using sem.run_refines[of ?w ops] assms by auto
  have rq: "pm_requests p = sw_grants w @ map snd (fs_waiters (sw_sem w))" "pm_state p = sw_state w"
    "pm_permits p = length (sw_grants w) + fs_concurrency (sw_sem w)"
    "fs_waiters (sw_sem w) \<noteq> [] \<longrightarrow> fs_concurrency (sw_sem w) = 0"
    using w(2,3) by (auto simp: sem_ok_def permits_of_def sem_permits_def)
  show ?thesis using w(1) rq by (cases "fs_waiters (sw_sem w) = []") auto
qed

theorem semaphore_grants_permits_witness:
  "\<exists>w. run_ops sem_exec [SemWait 0 1, SemWait 0 2, SemNotify, SemResume 0 2, SemWait 0 3]
      \<lparr>sw_sem = FiberSemaphore_new 1, sw_state = (\<lambda>_. Running), sw_requests = [], sw_grants = []\<rparr> = Inr w \<and>
    sw_grants w = [1, 2] \<and> map snd (fs_waiters (sw_sem w)) = [3]"
  using semaphore_grants_permits[of "[SemWait 0 1, SemWait 0 2, SemNotify, SemResume 0 2, SemWait 0 3]" 1]
  by (auto simp: numeral_2_eq_2 simp del: run_ops.simps)

text \<open>
  C36. A \<open>RecursiveFiberMutex\<close> is a \<open>FiberMutex\<close> with a counter: the first lock and the last
  unlock of a fiber do to the owner and the queue what they do on a \<open>FiberMutex\<close>, the ones in
  between only count, and the counter is zero exactly if nobody owns the mutex. The unlocks
  that only count do not look at who calls them.
\<close>

theorem recursive_mutex_counts:
  assumes "recursive_ok m" and "rm_recursion m + 1 < unsigned_mod"
  shows "RecursiveFiberMutex_lock (Some sc) this m =
      (if rm_owner m = Some this then Inr (Returns, m\<lparr>rm_recursion := rm_recursion m + 1\<rparr>)
       else andThen (FiberMutex_lock (Some sc) this (plain m))
         (\<lambda>(r, p). Inr (r, counted p (if r = Returns then 1 else rm_recursion m))))
    \<and> RecursiveFiberMutex_unlock this m =
      (if rm_recursion m = 0 then Inl Assertion
       else if rm_recursion m > 1 then Inr ([], m\<lparr>rm_recursion := rm_recursion m - 1\<rparr>)
       else andThen (FiberMutex_unlock this (plain m))
         (\<lambda>(sd, p). Inr (sd, counted p (if sd = [] then 0 else 1))))
    \<and> (\<forall>r m'. RecursiveFiberMutex_lock (Some sc) this m = Inr (r, m') \<longrightarrow> recursive_ok m')
    \<and> (\<forall>sd m'. RecursiveFiberMutex_unlock this m = Inr (sd, m') \<longrightarrow> recursive_ok m')"
proof -
  have l: "RecursiveFiberMutex_lock (Some sc) this m =
      (if rm_owner m = Some this then Inr (Returns, m\<lparr>rm_recursion := rm_recursion m + 1\<rparr>)
       else andThen (FiberMutex_lock (Some sc) this (plain m))
         (\<lambda>(r, p). Inr (r, counted p (if r = Returns then 1 else rm_recursion m))))"
    using assms by (auto simp: RecursiveFiberMutex_lock_def FiberMutex_lock_def plain_def counted_def ensure_def)
  moreover have u: "RecursiveFiberMutex_unlock this m =
      (if rm_recursion m = 0 then Inl Assertion
       else if rm_recursion m > 1 then Inr ([], m\<lparr>rm_recursion := rm_recursion m - 1\<rparr>)
       else andThen (FiberMutex_unlock this (plain m))
         (\<lambda>(sd, p). Inr (sd, counted p (if sd = [] then 0 else 1))))"
    by (auto simp: RecursiveFiberMutex_unlock_def RecursiveFiberMutex_unlockNoLock_def FiberMutex_unlock_def
        FiberMutex_unlockNoLock_def plain_def counted_def ensure_def Let_def split: list.splits)
  moreover have "\<forall>r m'. RecursiveFiberMutex_lock (Some sc) this m = Inr (r, m') \<longrightarrow> recursive_ok m'"
    using assms unfolding l
    by (auto simp: FiberMutex_lock_def plain_def counted_def recursive_ok_def ensure_def split: if_splits)
  moreover have "\<forall>sd m'. RecursiveFiberMutex_unlock this m = Inr (sd, m') \<longrightarrow> recursive_ok m'"
    using assms unfolding u
    by (auto simp: FiberMutex_unlock_def FiberMutex_unlockNoLock_def plain_def counted_def recursive_ok_def ensure_def Let_def
        split: if_splits list.splits)
  ultimately show ?thesis by blast
qed

theorem recursive_mutex_counts_witness:
  "RecursiveFiberMutex_unlock 7 \<lparr>rm_owner = Some 5, rm_waiters = [], rm_recursion = 2\<rparr> =
     Inr ([], \<lparr>rm_owner = Some 5, rm_waiters = [], rm_recursion = 1\<rparr>)"
  using recursive_mutex_counts[of "\<lparr>rm_owner = Some 5, rm_waiters = [], rm_recursion = 2\<rparr>" 0 7]
  by (simp add: recursive_ok_def)

text \<open>
  An event loses no signal. \<open>set\<close> on an event with automatic reset releases exactly the
  first fiber that waits; if none waits, the next \<open>wait\<close> returns and the one after that blocks.
  \<open>set\<close> on any other event releases all fibers that wait, in order, and every \<open>wait\<close> returns
  until the event is reset.
\<close>

lemma event_loses_no_signal:
  assumes "event_reach auto e"
  shows "(auto \<longrightarrow>
      (if fe_waiters e \<noteq> [] then FiberEvent_set e = ([hd (fe_waiters e)], e\<lparr>fe_waiters := tl (fe_waiters e)\<rparr>) \<and> \<not> fe_signalled e
       else fst (FiberEvent_set e) = [] \<and>
         (let e1 = snd (FiberEvent_set e); (r1, e2) = FiberEvent_wait sc f e1
          in r1 = Returns \<and> fst (FiberEvent_wait sc' f' e2) = Yields))) \<and>
    (\<not> auto \<longrightarrow>
      (let (released, e1) = FiberEvent_set e
       in released = fe_waiters e \<and> FiberEvent_wait sc f e1 = (Returns, e1) \<and>
          fst (FiberEvent_wait sc f (FiberEvent_reset e1)) = Yields))"
  using event_reach_inv[OF assms]
  by (cases "fe_waiters e") (auto simp: FiberEvent_set_def FiberEvent_wait_def FiberEvent_reset_def Let_def)

lemma event_loses_no_signal_example:
  "event_reach True (snd (FiberEvent_wait 0 4 (FiberEvent_new True))) \<and>
   fst (FiberEvent_set (snd (FiberEvent_wait 0 4 (FiberEvent_new True)))) = [(0, 4)]"
proof -
  have r: "event_reach True (snd (FiberEvent_wait 0 4 (FiberEvent_new True)))"
    by (intro event_reach.wait event_reach.new)
  then show ?thesis using event_loses_no_signal[OF r, of 0 0 0 0]
    by (simp add: FiberEvent_wait_def FiberEvent_new_def)
qed

end
