(* ===== verification/Streams.thy ===== *)
theory Streams
  imports Prelude
begin

text \<open>
  What streams have in common: the enumerations of stream.h, operations that return a value or
  an error together with the stream they leave, and the contracts a stream that is read or
  written keeps, as locales. The data of a \<open>Buffer\<close> is a list of bytes, which the Buffer
  theories justify; a call on a parent stream is a call of a function that is an argument of
  the model.
\<close>

section \<open>Enumerations and operations\<close>

datatype anchor = BEGIN | CURRENT | END

datatype close_type = CloseNone | CloseRead | CloseWrite | CloseBoth

definition closes_read :: "close_type \<Rightarrow> bool" where
  "closes_read t \<longleftrightarrow> t = CloseRead \<or> t = CloseBoth"

definition closes_write :: "close_type \<Rightarrow> bool" where
  "closes_write t \<longleftrightarrow> t = CloseWrite \<or> t = CloseBoth"

text \<open>
  An operation on a stream: the stream it leaves is part of the result also when it throws,
  because the code catches exceptions.
\<close>

type_synonym ('s, 'a) io = "'s \<Rightarrow> 'a result \<times> 's"

definition io_return :: "'a \<Rightarrow> ('s, 'a) io" where
  "io_return x s = (Inr x, s)"

definition io_fail :: "error \<Rightarrow> ('s, 'a) io" where
  "io_fail e s = (Inl e, s)"

definition io_bind :: "('s, 'a) io \<Rightarrow> ('a \<Rightarrow> ('s, 'b) io) \<Rightarrow> ('s, 'b) io" where
  "io_bind m f s = (case m s of (Inl e, s') \<Rightarrow> (Inl e, s') | (Inr x, s') \<Rightarrow> f x s')"

declare io_return_def [io_defs] io_fail_def [io_defs] io_bind_def [io_defs]

text \<open>The value of a 64-bit \<open>long long\<close>: the conversion of an unsigned result to it wraps.\<close>

definition s64 :: "int \<Rightarrow> int" where
  "s64 x = (x + 9223372036854775808) mod 18446744073709551616 - 9223372036854775808"

lemma s64_id [simp]: "-9223372036854775808 \<le> x \<Longrightarrow> x < 9223372036854775808 \<Longrightarrow> s64 x = x"
  by (simp add: s64_def)

text \<open>The operations of a parent stream that the filters call.\<close>

record 'p parent_ops =
  po_supportsSeek :: bool
  po_supportsTell :: bool
  po_supportsSize :: bool
  po_read :: "nat \<Rightarrow> ('p, byte list) io"
  po_write :: "byte list \<Rightarrow> ('p, nat) io"
  po_seek :: "int \<Rightarrow> anchor \<Rightarrow> ('p, int) io"
  po_size :: "('p, int) io"
  po_truncate :: "int \<Rightarrow> ('p, unit) io"
  po_flush :: "('p, unit) io"
  po_close :: "close_type \<Rightarrow> ('p, unit) io"

section \<open>Contracts\<close>

text \<open>
  A stream that is read: what is left to read is \<open>remaining\<close>; a read gives a prefix of it, and
  nothing only at the end.
\<close>

locale byte_source =
  fixes read_from :: "nat \<Rightarrow> ('p, byte list) io" and remaining :: "'p \<Rightarrow> byte list"
  assumes read_prefix: "\<exists>bs p'. read_from n p = (Inr bs, p') \<and> remaining p = bs @ remaining p' \<and> length bs \<le> n"
    and read_progress: "0 < n \<Longrightarrow> read_from n p = (Inr [], p') \<Longrightarrow> remaining p = []"
begin

lemma read_cases:
  obtains bs p' where "read_from n p = (Inr bs, p')" "remaining p = bs @ remaining p'" "length bs \<le> n"
    "0 < n \<Longrightarrow> bs = [] \<Longrightarrow> remaining p = []"
  using read_prefix[of n p] read_progress[of n p] by blast

end

text \<open>
  A stream that is written: what has been written is \<open>written\<close>; a write takes a prefix of the
  data that is not empty, or throws and has written nothing.
\<close>

locale byte_sink =
  fixes write_to :: "byte list \<Rightarrow> ('p, nat) io" and written :: "'p \<Rightarrow> byte list"
  assumes write_ok: "write_to bs p = (Inr n, p') \<Longrightarrow> written p' = written p @ take n bs \<and> n \<le> length bs"
    and write_progress: "bs \<noteq> [] \<Longrightarrow> write_to bs p = (Inr n, p') \<Longrightarrow> 0 < n"
    and write_error: "write_to bs p = (Inl e, p') \<Longrightarrow> written p' = written p"

section \<open>Positions of a delimiter\<close>

text \<open>\<open>Buffer::find\<close> of a character in the first \<open>len\<close> bytes, on the data of the buffer.\<close>

fun index_of :: "byte \<Rightarrow> byte list \<Rightarrow> nat option" where
  "index_of c [] = None"
| "index_of c (b # bs) = (if b = c then Some 0 else map_option Suc (index_of c bs))"

lemma index_of_None: "index_of c bs = None \<longleftrightarrow> c \<notin> set bs"
  by (induction bs) auto

lemma index_of_Some: "index_of c bs = Some i \<Longrightarrow> i < length bs \<and> bs ! i = c \<and> c \<notin> set (take i bs)"
  by (induction bs arbitrary: i) (auto split: if_splits)

lemma index_of_append: "index_of c (xs @ ys) =
    (case index_of c xs of Some i \<Rightarrow> Some i | None \<Rightarrow> map_option (\<lambda>i. length xs + i) (index_of c ys))"
proof (induction xs)
  case Nil
  then show ?case by (cases "index_of c ys") auto
next
  case (Cons a xs)
  then show ?case by (cases "index_of c ys") (auto split: option.splits)
qed

lemma index_of_first: "c \<notin> set xs \<Longrightarrow> index_of c (xs @ c # ys) = Some (length xs)"
  by (simp add: index_of_append index_of_None[THEN iffD2])

end
