(* ===== verification/Buffered_Stream.thy ===== *)
theory Buffered_Stream
  imports Streams
begin

text \<open>
  \<open>BufferedStream\<close> of buffered.cpp. The parent stream is an argument, given by its operations. \<open>m_readBuffer\<close> and \<open>m_writeBuffer\<close> are lists of bytes.
\<close>

section \<open>State\<close>

record 'p buffered =
  bf_bufferSize :: nat
  bf_allowPartialReads :: bool
  bf_flushMultiplesOfBuffer :: bool
  bf_readBuffer :: "byte list"
  bf_writeBuffer :: "byte list"
  bf_parent :: 'p
  bf_own :: bool

definition BufferedStream_new :: "nat \<Rightarrow> 'p \<Rightarrow> bool \<Rightarrow> 'p buffered" where
  "BufferedStream_new defaultBufferSize parent own =
     \<lparr>bf_bufferSize = defaultBufferSize, bf_allowPartialReads = False, bf_flushMultiplesOfBuffer = False,
      bf_readBuffer = [], bf_writeBuffer = [], bf_parent = parent, bf_own = own\<rparr>"

definition on_parent :: "('p, 'a) io \<Rightarrow> ('p buffered, 'a) io" where
  "on_parent m s = (case m (bf_parent s) of (r, p) \<Rightarrow> (r, s\<lparr>bf_parent := p\<rparr>))"

lemma on_parent_keeps:
  "on_parent m s = (r, s') \<Longrightarrow> bf_writeBuffer s' = bf_writeBuffer s \<and> bf_readBuffer s' = bf_readBuffer s \<and>
     bf_bufferSize s' = bf_bufferSize s \<and> bf_allowPartialReads s' = bf_allowPartialReads s"
  by (auto simp: on_parent_def split: prod.splits)

section \<open>Flushing\<close>

text \<open>Before a write, a parent that can seek is moved back over what has been read ahead.\<close>

definition drop_read_ahead :: "'p parent_ops \<Rightarrow> ('p buffered, unit) io" where
  "drop_read_ahead P s =
     (if po_supportsSeek P \<and> bf_readBuffer s \<noteq> [] then
        (case on_parent (po_seek P (- int (length (bf_readBuffer s))) CURRENT) s of
           (Inl e, s1) \<Rightarrow> (Inl e, s1)
         | (Inr _, s1) \<Rightarrow> (Inr (), s1\<lparr>bf_readBuffer := []\<rparr>))
      else (Inr (), s))"

lemma drop_read_ahead_keeps: "drop_read_ahead P s = (r, s') \<Longrightarrow> bf_writeBuffer s' = bf_writeBuffer s"
  by (auto simp: drop_read_ahead_def dest!: on_parent_keeps split: prod.splits sum.splits if_splits)

function flush_loop :: "'p parent_ops \<Rightarrow> ('p buffered, unit) io" where
  "flush_loop P s =
     (if bf_writeBuffer s = [] then (Inr (), s)
      else case drop_read_ahead P s of
        (Inl e, s1) \<Rightarrow> (Inl e, s1)
      | (Inr _, s1) \<Rightarrow>
          (case on_parent (po_write P (bf_writeBuffer s1)) s1 of
             (Inl e, s2) \<Rightarrow> (Inl e, s2)
           | (Inr n, s2) \<Rightarrow>
               if n = 0 \<or> n > length (bf_writeBuffer s2) then (Inl Assertion, s2)
               else flush_loop P (s2\<lparr>bf_writeBuffer := drop n (bf_writeBuffer s2)\<rparr>)))"
  by pat_completeness auto
termination
  by (relation "measure (\<lambda>(P, s). length (bf_writeBuffer s))")
    (auto dest!: on_parent_keeps[OF sym] drop_read_ahead_keeps[OF sym])

declare flush_loop.simps [simp del]

definition BufferedStream_flush :: "'p parent_ops \<Rightarrow> bool \<Rightarrow> ('p buffered, unit) io" where
  "BufferedStream_flush P flushParent =
     io_bind (flush_loop P) (\<lambda>_. if flushParent then on_parent (po_flush P) else io_return ())"

section \<open>Reading\<close>

text \<open>
  The loop that reads from the parent; \<open>acc\<close> is what has been copied to the caller. An
  exception of the parent is forwarded if nothing has been copied yet, and swallowed otherwise.
\<close>

function read_loop :: "'p parent_ops \<Rightarrow> nat \<Rightarrow> nat \<Rightarrow> byte list \<Rightarrow> ('p buffered, byte list) io" where
  "read_loop P len remaining acc s =
     (if bf_bufferSize s = 0 then (Inl UB, s)
      else
        let todo = ((remaining - 1) div bf_bufferSize s + 1) * bf_bufferSize s mod size_mod
        in case on_parent (po_read P todo) s of
             (Inl e, s1) \<Rightarrow> if remaining = len then (Inl e, s1) else (Inr acc, s1)
           | (Inr got, s1) \<Rightarrow>
               let rb = bf_readBuffer s1 @ got;
                   buffered = min (length rb) remaining;
                   s2 = s1\<lparr>bf_readBuffer := drop buffered rb\<rparr>;
                   acc' = acc @ take buffered rb
               in if remaining - buffered > 0 \<and> \<not> bf_allowPartialReads s2 \<and> got \<noteq> []
                  then read_loop P len (remaining - buffered) acc' s2
                  else (Inr acc', s2))"
  by pat_completeness auto
termination
  by (relation "measure (\<lambda>(P, len, remaining, acc, s). remaining)") (auto simp: min_def)

declare read_loop.simps [simp del]

definition BufferedStream_readInternal :: "'p parent_ops \<Rightarrow> nat \<Rightarrow> ('p buffered, byte list) io" where
  "BufferedStream_readInternal P len =
     io_bind (if po_supportsSeek P then BufferedStream_flush P False else io_return ()) (\<lambda>_ s.
       let buffered = min (length (bf_readBuffer s)) len;
           acc = take buffered (bf_readBuffer s);
           s1 = s\<lparr>bf_readBuffer := drop buffered (bf_readBuffer s)\<rparr>
       in if len - buffered = 0 then (Inr acc, s1)
          else if buffered = 0 \<or> \<not> bf_allowPartialReads s1 then read_loop P len (len - buffered) acc s1
          else (Inr acc, s1))"

definition BufferedStream_read :: "'p parent_ops \<Rightarrow> nat \<Rightarrow> ('p buffered, byte list) io" where
  "BufferedStream_read P len = BufferedStream_readInternal P len"

section \<open>Writing\<close>

text \<open>
  One pass of the loop in \<open>flushWrite\<close>: \<open>None\<close> if the loop goes on. An exception of the parent, or of \<open>consume\<close> for a parent that claims to have
  written more than it was given, backs the write out if all of it is still in the buffer, and is swallowed otherwise.
\<close>

definition catch_write :: "nat \<Rightarrow> error \<Rightarrow> 'p buffered \<Rightarrow> nat result option \<times> 'p buffered" where
  "catch_write len e s =
     (if length (bf_writeBuffer s) \<ge> len
      then (Some (Inl e), s\<lparr>bf_writeBuffer := take (length (bf_writeBuffer s) - len) (bf_writeBuffer s)\<rparr>)
      else (Some (Inr len), s))"

definition flushWrite_step :: "'p parent_ops \<Rightarrow> nat \<Rightarrow> 'p buffered \<Rightarrow> nat result option \<times> 'p buffered" where
  "flushWrite_step P len s =
     (case drop_read_ahead P s of
        (Inl e, s1) \<Rightarrow> catch_write len e s1
      | (Inr _, s1) \<Rightarrow>
          if bf_flushMultiplesOfBuffer s1 \<and> bf_bufferSize s1 = 0 then (Some (Inl UB), s1)
          else
            let avail = length (bf_writeBuffer s1);
                toWrite = (if bf_flushMultiplesOfBuffer s1 then avail div bf_bufferSize s1 * bf_bufferSize s1 else avail)
            in case on_parent (po_write P (take toWrite (bf_writeBuffer s1))) s1 of
                 (Inl e, s2) \<Rightarrow> catch_write len e s2
               | (Inr n, s2) \<Rightarrow>
                   if n > length (bf_writeBuffer s2) then catch_write len Assertion s2
                   else (None, s2\<lparr>bf_writeBuffer := drop n (bf_writeBuffer s2)\<rparr>))"

text \<open>The loop may go on for ever if the parent writes nothing; then it is \<open>None\<close>.\<close>

partial_function (option) flushWrite :: "'p parent_ops \<Rightarrow> nat \<Rightarrow> 'p buffered \<Rightarrow> (nat result \<times> 'p buffered) option" where
  "flushWrite P len s =
     (if length (bf_writeBuffer s) < bf_bufferSize s then Some (Inr len, s)
      else if fst (flushWrite_step P len s) \<noteq> None
      then Some (the (fst (flushWrite_step P len s)), snd (flushWrite_step P len s))
      else flushWrite P len (snd (flushWrite_step P len s)))"

text \<open>Both overloads of \<open>write\<close>; the reservation of memory by the second has no effect on the data.\<close>

definition BufferedStream_write :: "'p parent_ops \<Rightarrow> byte list \<Rightarrow> 'p buffered \<Rightarrow> (nat result \<times> 'p buffered) option" where
  "BufferedStream_write P bs s =
     map_option (\<lambda>(r, s'). (andThen r (\<lambda>n. ensure (n = length bs) (Inr n)), s'))
       (flushWrite P (length bs) (s\<lparr>bf_writeBuffer := bf_writeBuffer s @ bs\<rparr>))"

section \<open>Looking for a delimiter\<close>

text \<open>
  \<open>search n rb\<close> is the position of the delimiter in the first \<open>n\<close> bytes of the read buffer.
\<close>

function delim_loop ::
    "'p parent_ops \<Rightarrow> (nat \<Rightarrow> byte list \<Rightarrow> nat option) \<Rightarrow> nat \<Rightarrow> bool \<Rightarrow> ('p buffered, int) io" where
  "delim_loop P search sanitySize throwIfNotFound s =
     (let avail = length (bf_readBuffer s)
      in case (if avail > 0 then search (min sanitySize avail) (bf_readBuffer s) else None) of
           Some i \<Rightarrow> (Inr (int i), s)
         | None \<Rightarrow>
             if avail \<ge> sanitySize then
               (if throwIfNotFound then (Inl BufferOverflow, s) else (Inr (- int avail - 1), s))
             else
               (case on_parent (po_read P (bf_bufferSize s)) s of
                  (Inl e, s1) \<Rightarrow> (Inl e, s1)
                | (Inr got, s1) \<Rightarrow>
                    if got = [] then
                      (if throwIfNotFound then (Inl UnexpectedEof, s1)
                       else (Inr (- int (length (bf_readBuffer s1)) - 1), s1))
                    else delim_loop P search sanitySize throwIfNotFound
                           (s1\<lparr>bf_readBuffer := bf_readBuffer s1 @ got\<rparr>)))"
  by pat_completeness auto
termination
  by (relation "measure (\<lambda>(P, f, sanitySize, t, s). sanitySize - length (bf_readBuffer s))")
    (auto dest!: on_parent_keeps[OF sym] simp: diff_less_mono2)

declare delim_loop.simps [simp del]

text \<open>\<open>extra\<close> is one for a character and the length of the string for a string.\<close>

definition find_with ::
    "'p parent_ops \<Rightarrow> (nat \<Rightarrow> byte list \<Rightarrow> nat option) \<Rightarrow> nat \<Rightarrow> nat \<Rightarrow> bool \<Rightarrow> ('p buffered, int) io" where
  "find_with P search extra sanitySize throwIfNotFound =
     io_bind (if po_supportsSeek P then BufferedStream_flush P False else io_return ()) (\<lambda>_ s.
       let sanity = ((if sanitySize = npos then 2 * bf_bufferSize s else sanitySize) + extra) mod size_mod
       in delim_loop P search sanity throwIfNotFound s)"

definition BufferedStream_find :: "'p parent_ops \<Rightarrow> byte \<Rightarrow> nat \<Rightarrow> bool \<Rightarrow> ('p buffered, int) io" where
  "BufferedStream_find P delim sanitySize throwIfNotFound =
     find_with P (\<lambda>n rb. index_of delim (take n rb)) 1 sanitySize throwIfNotFound"

definition BufferedStream_findString ::
    "'p parent_ops \<Rightarrow> (nat \<Rightarrow> byte list \<Rightarrow> nat option) \<Rightarrow> byte list \<Rightarrow> nat \<Rightarrow> bool \<Rightarrow> ('p buffered, int) io" where
  "BufferedStream_findString P buffer_find str sanitySize throwIfNotFound =
     find_with P buffer_find (length str) sanitySize throwIfNotFound"

definition BufferedStream_unread :: "bool \<Rightarrow> byte list \<Rightarrow> ('p buffered, unit) io" where
  "BufferedStream_unread supportsUnread b s =
     (if supportsUnread then (Inr (), s\<lparr>bf_readBuffer := b @ bf_readBuffer s\<rparr>) else (Inl Assertion, s))"

section \<open>Seeking\<close>

definition consume_read :: "nat \<Rightarrow> ('p buffered, unit) io" where
  "consume_read n s =
     (if n \<le> length (bf_readBuffer s) then (Inr (), s\<lparr>bf_readBuffer := drop n (bf_readBuffer s)\<rparr>)
      else (Inl Assertion, s))"

definition clear_read :: "('p buffered, unit) io" where
  "clear_read s = (Inr (), s\<lparr>bf_readBuffer := []\<rparr>)"

text \<open>The switch over the anchor, after the flush; the last step is the seek of the parent.\<close>

definition seek_switch ::
    "'p parent_ops \<Rightarrow> int \<Rightarrow> int \<Rightarrow> int \<Rightarrow> int \<Rightarrow> anchor \<Rightarrow> ('p buffered, int) io" where
  "seek_switch P parentPos bufferedPos parentSize offset anchor s =
     (case anchor of
        BEGIN \<Rightarrow>
          if offset < 0 then (Inl Assertion, s)
          else if offset \<ge> bufferedPos \<and> offset \<le> parentPos then
            io_bind (consume_read (nat (offset - bufferedPos))) (\<lambda>_. io_return offset) s
          else io_bind clear_read (\<lambda>_. on_parent (po_seek P offset anchor)) s
      | CURRENT \<Rightarrow>
          if offset > 0 \<and> offset \<le> int (length (bf_readBuffer s)) then
            io_bind (consume_read (nat offset)) (\<lambda>_. io_return (bufferedPos + offset)) s
          else
            let offset' = offset - int (length (bf_readBuffer s))
            in io_bind clear_read (\<lambda>_. on_parent (po_seek P offset' anchor)) s
      | END \<Rightarrow>
          if parentSize = -1 then (Inl InvalidArgument, s)
          else if parentSize + offset \<ge> bufferedPos \<and> parentSize + offset \<le> parentPos then
            io_bind (consume_read (nat (parentSize + offset - bufferedPos))) (\<lambda>_. io_return (parentSize + offset)) s
          else io_bind clear_read (\<lambda>_. on_parent (po_seek P offset anchor)) s)"

definition BufferedStream_seek :: "'p parent_ops \<Rightarrow> int \<Rightarrow> anchor \<Rightarrow> ('p buffered, int) io" where
  "BufferedStream_seek P offset anchor =
     (if \<not> po_supportsTell P then io_fail Assertion
      else
        io_bind (on_parent (po_seek P 0 CURRENT)) (\<lambda>parentPos s.
          let bufferedPos = parentPos - int (length (bf_readBuffer s)) + int (length (bf_writeBuffer s))
          in io_bind (if po_supportsSize P then on_parent (po_size P) else io_return (-1)) (\<lambda>parentSize.
               if (offset = 0 \<and> anchor = CURRENT) \<or> (offset = bufferedPos \<and> anchor = BEGIN) \<or>
                  (parentSize \<noteq> -1 \<and> offset + parentSize = bufferedPos \<and> anchor = END)
               then io_return bufferedPos
               else if \<not> po_supportsSeek P then io_fail Assertion
               else
                 io_bind (BufferedStream_flush P False) (\<lambda>_ s2.
                   if bf_writeBuffer s2 \<noteq> [] then (Inl Assertion, s2)
                   else seek_switch P parentPos bufferedPos parentSize offset anchor s2)) s))"

definition BufferedStream_size :: "'p parent_ops \<Rightarrow> ('p buffered, int) io" where
  "BufferedStream_size P =
     io_bind (on_parent (po_size P)) (\<lambda>sz.
       if po_supportsTell P then io_bind (BufferedStream_seek P 0 CURRENT) (\<lambda>t. io_return (max sz t))
       else (\<lambda>s. (Inr (sz + int (length (bf_writeBuffer s))), s)))"

definition BufferedStream_truncate :: "'p parent_ops \<Rightarrow> int \<Rightarrow> ('p buffered, unit) io" where
  "BufferedStream_truncate P sz =
     io_bind
       (if \<not> po_supportsTell P then BufferedStream_flush P False
        else io_bind (on_parent (po_seek P 0 CURRENT)) (\<lambda>t s.
               if t + int (length (bf_writeBuffer s)) \<ge> sz then BufferedStream_flush P False s else (Inr (), s)))
       (\<lambda>_. io_bind clear_read (\<lambda>_. on_parent (po_truncate P sz)))"

definition BufferedStream_close :: "'p parent_ops \<Rightarrow> close_type \<Rightarrow> ('p buffered, unit) io" where
  "BufferedStream_close P type s =
     (let s1 = (if closes_read type then s\<lparr>bf_readBuffer := []\<rparr> else s);
          closeParent = (if bf_own s then on_parent (po_close P type) else io_return ())
      in if closes_write type \<and> bf_writeBuffer s1 \<noteq> [] then
           (case BufferedStream_flush P False s1 of
              (Inl e, s2) \<Rightarrow> io_bind closeParent (\<lambda>_. io_fail e) s2
            | (Inr _, s2) \<Rightarrow> closeParent s2)
         else closeParent s1)"

end
