(* ===== verification/Memory_Stream.thy ===== *)
theory Memory_Stream
  imports Streams Refinement
begin

text \<open>
  \<open>MemoryStream\<close> of memory.cpp: a file in memory, with the bytes from the current position on
  kept in a second buffer. The specification is a byte string with a position.
\<close>

section \<open>Operations\<close>

record memory_stream =
  ms_read :: "byte list"
  ms_original :: "byte list"
  ms_offset :: nat

definition MemoryStream_new :: memory_stream where
  "MemoryStream_new = \<lparr>ms_read = [], ms_original = [], ms_offset = 0\<rparr>"

definition MemoryStream_ofBuffer :: "byte list \<Rightarrow> memory_stream" where
  "MemoryStream_ofBuffer b = \<lparr>ms_read = b, ms_original = b, ms_offset = 0\<rparr>"

definition MemoryStream_readInternal :: "nat \<Rightarrow> (memory_stream, byte list) io" where
  "MemoryStream_readInternal len s =
     (let todo = min len (length (ms_read s))
      in (Inr (take todo (ms_read s)),
          s\<lparr>ms_read := drop todo (ms_read s), ms_offset := (ms_offset s + todo) mod size_mod\<rparr>))"

definition MemoryStream_read :: "nat \<Rightarrow> (memory_stream, byte list) io" where
  "MemoryStream_read len = MemoryStream_readInternal len"

definition MemoryStream_truncate :: "int \<Rightarrow> memory_stream \<Rightarrow> memory_stream result" where
  "MemoryStream_truncate sz s =
     ensure (sz \<ge> 0)
       (if nat sz > npos then Inl InvalidArgument
        else
          let n = nat sz; currentSize = length (ms_original s)
          in andThen
               (if currentSize = n then Inr s
                else if currentSize > n then
                  (if ms_offset s > n then Inr (s\<lparr>ms_original := take n (ms_original s), ms_read := []\<rparr>)
                   else ensure (n - ms_offset s \<le> length (ms_read s))
                     (Inr (s\<lparr>ms_original := take n (ms_original s), ms_read := take (n - ms_offset s) (ms_read s)\<rparr>)))
                else
                  let original = ms_original s @ replicate (n - currentSize) (CHR 0x00)
                  in Inr (s\<lparr>ms_original := original, ms_read := drop (min (ms_offset s) n) original\<rparr>))
               (\<lambda>s'. ensure (length (ms_original s') = n) (Inr s')))"

text \<open>\<open>bs\<close> is the data written; the number returned is its length.\<close>

definition MemoryStream_writeInternal :: "byte list \<Rightarrow> memory_stream \<Rightarrow> (nat \<times> memory_stream) result" where
  "MemoryStream_writeInternal bs s =
     (let sz = length (ms_original s); len = length bs
      in if ms_offset s = sz then
           Inr (len, s\<lparr>ms_original := ms_original s @ bs, ms_offset := (ms_offset s + len) mod size_mod\<rparr>)
         else if ms_offset s > sz then
           andThen (MemoryStream_truncate (s64 (int (ms_offset s))) s) (\<lambda>s1.
             Inr (len, s1\<lparr>ms_original := ms_original s1 @ bs, ms_offset := (ms_offset s1 + len) mod size_mod\<rparr>))
         else
           let original = drop (ms_offset s) (ms_original s);
               s1 = s\<lparr>ms_original := take (ms_offset s) (ms_original s) @ bs,
                      ms_offset := (ms_offset s + len) mod size_mod\<rparr>
           in if ms_offset s1 < sz then
                ensure (len \<le> length original)
                  (Inr (len, s1\<lparr>ms_original := ms_original s1 @ drop len original, ms_read := drop len original\<rparr>))
              else Inr (len, s1))"

definition MemoryStream_write :: "byte list \<Rightarrow> memory_stream \<Rightarrow> (nat \<times> memory_stream) result" where
  "MemoryStream_write bs s = MemoryStream_writeInternal bs s"

text \<open>The three cases of \<open>seek\<close>; a sum of a size and an offset is unsigned and converted back.\<close>

definition MemoryStream_seekBegin :: "int \<Rightarrow> memory_stream \<Rightarrow> (int \<times> memory_stream) result" where
  "MemoryStream_seekBegin offset s =
     (if offset < 0 then Inl InvalidArgument
      else if nat offset > npos then Inl InvalidArgument
      else
        let s1 = s\<lparr>ms_offset := nat offset,
                   ms_read := drop (min (nat offset) (length (ms_original s))) (ms_original s)\<rparr>
        in Inr (s64 (int (ms_offset s1)), s1))"

definition MemoryStream_seekCurrent :: "int \<Rightarrow> memory_stream \<Rightarrow> (int \<times> memory_stream) result" where
  "MemoryStream_seekCurrent offset s =
     (let sz = length (ms_original s)
      in if offset < 0 then MemoryStream_seekBegin (s64 (int (ms_offset s) + offset)) s
         else if (ms_offset s + nat offset) mod size_mod > npos then Inl InvalidArgument
         else if ms_offset s \<le> sz then
           let skip = min (nat offset) (sz - ms_offset s)
           in ensure (skip \<le> length (ms_read s))
                (let s1 = s\<lparr>ms_read := drop skip (ms_read s), ms_offset := (ms_offset s + nat offset) mod size_mod\<rparr>
                 in Inr (s64 (int (ms_offset s1)), s1))
         else Inr (s64 (int (ms_offset s)), s))"

definition MemoryStream_seek :: "int \<Rightarrow> anchor \<Rightarrow> memory_stream \<Rightarrow> (int \<times> memory_stream) result" where
  "MemoryStream_seek offset anchor s =
     (case anchor of
        BEGIN \<Rightarrow> MemoryStream_seekBegin offset s
      | CURRENT \<Rightarrow> MemoryStream_seekCurrent offset s
      | END \<Rightarrow> MemoryStream_seekCurrent (s64 (int (length (ms_original s)) + offset - int (ms_offset s))) s)"

definition MemoryStream_size :: "memory_stream \<Rightarrow> int" where
  "MemoryStream_size s = s64 (int (length (ms_original s)))"

definition MemoryStream_find :: "byte \<Rightarrow> nat \<Rightarrow> bool \<Rightarrow> memory_stream \<Rightarrow> int result" where
  "MemoryStream_find delim sanitySize throwIfNotFound s =
     (case index_of delim (take (min sanitySize (length (ms_read s))) (ms_read s)) of
        Some i \<Rightarrow> Inr (int i)
      | None \<Rightarrow> if throwIfNotFound then Inl UnexpectedEof else Inr (- int (length (ms_read s)) - 1))"

text \<open>
  The search for a string has the same shape; \<open>buffer_find\<close> stands for \<open>Buffer::find\<close> of the
  string in the first bytes of \<open>m_read\<close>, whose result depends on how the buffer is segmented.
\<close>

definition MemoryStream_findString ::
    "(nat \<Rightarrow> nat option) \<Rightarrow> nat \<Rightarrow> bool \<Rightarrow> memory_stream \<Rightarrow> int result" where
  "MemoryStream_findString buffer_find sanitySize throwIfNotFound s =
     (case buffer_find (min sanitySize (length (ms_read s))) of
        Some i \<Rightarrow> Inr (int i)
      | None \<Rightarrow> if throwIfNotFound then Inl UnexpectedEof else Inr (- int (length (ms_read s)) - 1))"

section \<open>Specification: a file\<close>

text \<open>
  Its contents, the position, what was read last, and whether a read would give old bytes: that is so after a write that started inside the data and
  reached its end, until the position is set anew or the size changes.
\<close>

record mem_file =
  fl_bytes :: "byte list"
  fl_pos :: nat
  fl_out :: "byte list"
  fl_stale :: bool

datatype file_action = FRead nat | FWrite "byte list" | FSeek int anchor | FTruncate nat

text \<open>Writing at a position: a gap before it is filled with zeros.\<close>

definition write_at :: "nat \<Rightarrow> byte list \<Rightarrow> byte list \<Rightarrow> byte list" where
  "write_at pos bs xs =
     take pos (xs @ replicate (pos - length xs) (CHR 0x00)) @ bs @ drop (pos + length bs) xs"

definition resize :: "nat \<Rightarrow> byte list \<Rightarrow> byte list" where
  "resize n xs = take n xs @ replicate (n - length xs) (CHR 0x00)"

definition seek_target :: "int \<Rightarrow> anchor \<Rightarrow> mem_file \<Rightarrow> int" where
  "seek_target off a f =
     (case a of BEGIN \<Rightarrow> off | CURRENT \<Rightarrow> int (fl_pos f) + off | END \<Rightarrow> int (length (fl_bytes f)) + off)"

fun file_op :: "file_action \<Rightarrow> mem_file \<Rightarrow> mem_file" where
  "file_op (FRead n) f =
     f\<lparr>fl_out := take n (drop (fl_pos f) (fl_bytes f)),
       fl_pos := fl_pos f + length (take n (drop (fl_pos f) (fl_bytes f)))\<rparr>"
| "file_op (FWrite bs) f =
     f\<lparr>fl_bytes := write_at (fl_pos f) bs (fl_bytes f), fl_pos := fl_pos f + length bs,
       fl_stale := (if fl_pos f < length (fl_bytes f) then fl_pos f + length bs \<ge> length (fl_bytes f)
                    else fl_stale f \<and> fl_pos f = length (fl_bytes f))\<rparr>"
| "file_op (FSeek off a) f =
     (let t = seek_target off a f
      in if a = BEGIN \<or> t < int (fl_pos f) then f\<lparr>fl_pos := nat t, fl_stale := False\<rparr>
         else if fl_pos f \<le> length (fl_bytes f) then f\<lparr>fl_pos := nat t\<rparr> else f)"
| "file_op (FTruncate n) f = f\<lparr>fl_bytes := resize n (fl_bytes f), fl_stale := (fl_stale f \<and> n = length (fl_bytes f))\<rparr>"

abbreviation max_pos :: nat where
  "max_pos \<equiv> 4611686018427387904"

text \<open>
  What is asked of the caller: positions and sizes below \<open>2 ^ 62\<close>, and no read that would give old bytes. A relative seek forward from
  beyond the end is allowed; the stream ignores it, and so does the specification.
\<close>

fun file_enabled :: "file_action \<Rightarrow> mem_file \<Rightarrow> bool" where
  "file_enabled (FRead n) f \<longleftrightarrow> \<not> fl_stale f"
| "file_enabled (FWrite bs) f \<longleftrightarrow> fl_pos f + length bs < max_pos"
| "file_enabled (FSeek off a) f \<longleftrightarrow> \<bar>off\<bar> < int max_pos \<and> 0 \<le> seek_target off a f \<and> seek_target off a f < int max_pos"
| "file_enabled (FTruncate n) f \<longleftrightarrow> n < max_pos"

fun file_exec :: "file_action \<Rightarrow> memory_stream \<times> byte list \<Rightarrow> (memory_stream \<times> byte list) result" where
  "file_exec (FRead n) (s, out) =
     (case MemoryStream_read n s of (Inl e, s') \<Rightarrow> Inl e | (Inr bs, s') \<Rightarrow> Inr (s', bs))"
| "file_exec (FWrite bs) (s, out) = andThen (MemoryStream_write bs s) (\<lambda>(n, s'). Inr (s', out))"
| "file_exec (FSeek off a) (s, out) = andThen (MemoryStream_seek off a s) (\<lambda>(n, s'). Inr (s', out))"
| "file_exec (FTruncate n) (s, out) = andThen (MemoryStream_truncate (int n) s) (\<lambda>s'. Inr (s', out))"

definition memory_ok :: "memory_stream \<Rightarrow> bool" where
  "memory_ok s \<longleftrightarrow>
     (ms_read s = drop (ms_offset s) (ms_original s) \<or> length (ms_original s) \<le> ms_offset s) \<and>
     length (ms_original s) < max_pos \<and> ms_offset s < max_pos"

definition file_of :: "memory_stream \<times> byte list \<Rightarrow> mem_file" where
  "file_of w = (case w of (s, out) \<Rightarrow> \<lparr>fl_bytes = ms_original s, fl_pos = ms_offset s, fl_out = out,
     fl_stale = (ms_read s \<noteq> drop (ms_offset s) (ms_original s))\<rparr>)"

section \<open>The operations refine the file\<close>

lemma read_refines:
  assumes "memory_ok s" "ms_read s = drop (ms_offset s) (ms_original s)"
  shows "\<exists>w'. file_exec (FRead n) (s, out) = Inr w' \<and> memory_ok (fst w') \<and> file_of w' = file_op (FRead n) (file_of (s, out))"
  using assms
  by (auto simp: MemoryStream_read_def MemoryStream_readInternal_def memory_ok_def file_of_def Let_def min_def add.commute)

lemma truncate_refines:
  assumes "memory_ok s" and "n < max_pos"
  shows "\<exists>s'. MemoryStream_truncate (int n) s = Inr s' \<and> memory_ok s' \<and>
    ms_original s' = resize n (ms_original s) \<and> ms_offset s' = ms_offset s \<and>
    (ms_read s' = drop (ms_offset s') (ms_original s') \<longleftrightarrow>
       ms_read s = drop (ms_offset s) (ms_original s) \<or> n \<noteq> length (ms_original s))"
  using assms
  by (auto simp: MemoryStream_truncate_def memory_ok_def resize_def npos_def Let_def min_def drop_take diff_le_mono)

lemma write_refines:
  assumes "memory_ok s" and "file_enabled (FWrite bs) (file_of (s, out))"
  shows "\<exists>w'. file_exec (FWrite bs) (s, out) = Inr w' \<and> memory_ok (fst w') \<and> file_of w' = file_op (FWrite bs) (file_of (s, out))"
proof -
  have off: "ms_offset s < max_pos" "ms_offset s + length bs < max_pos" using assms by (simp_all add: memory_ok_def file_of_def)
  note defs = MemoryStream_write_def MemoryStream_writeInternal_def memory_ok_def file_of_def write_at_def Let_def
  consider (gap) "ms_offset s > length (ms_original s)" | (append) "ms_offset s = length (ms_original s)" | (inside) "ms_offset s < length (ms_original s)"
    by linarith
  then show ?thesis
  proof cases
    case gap
    obtain s1 where s1: "MemoryStream_truncate (int (ms_offset s)) s = Inr s1" "ms_original s1 = resize (ms_offset s) (ms_original s)"
      "ms_offset s1 = ms_offset s" "ms_read s1 = drop (ms_offset s1) (ms_original s1)"
      using truncate_refines[OF assms(1) off(1)] gap by auto
    then show ?thesis using gap off by (auto simp: defs resize_def)
  next
    case append
    then show ?thesis using assms off by (auto simp: defs)
  next
    case inside
    then have "ms_read s = drop (ms_offset s) (ms_original s)" using assms(1) by (auto simp: memory_ok_def)
    moreover have "length bs \<le> length (ms_original s) - ms_offset s" if "ms_offset s + length bs < length (ms_original s)" using that by simp
    ultimately show ?thesis using assms off inside
      by (cases "ms_offset s + length bs < length (ms_original s)") (auto simp: defs add.commute)
  qed
qed

lemma seek_refines:
  assumes "memory_ok s" and "file_enabled (FSeek off a) (file_of (s, out))"
  shows "\<exists>s'. MemoryStream_seek off a s = Inr (int (ms_offset s'), s') \<and> memory_ok s' \<and> file_of (s', out) = file_op (FSeek off a) (file_of (s, out))"
proof -
  have B: "\<exists>s'. MemoryStream_seekBegin t s = Inr (int (ms_offset s'), s') \<and> memory_ok s' \<and>
      file_of (s', out) = (file_of (s, out))\<lparr>fl_pos := nat t, fl_stale := False\<rparr>"
    if "0 \<le> t" "t < int max_pos" for t
    using that assms(1) by (auto simp: MemoryStream_seekBegin_def memory_ok_def file_of_def npos_def min_def Let_def)
  have C: "\<exists>s'. MemoryStream_seekCurrent d s = Inr (int (ms_offset s'), s') \<and> memory_ok s' \<and>
      file_of (s', out) =
        (if d < 0 then (file_of (s, out))\<lparr>fl_pos := nat (int (ms_offset s) + d), fl_stale := False\<rparr>
         else if ms_offset s \<le> length (ms_original s) then (file_of (s, out))\<lparr>fl_pos := nat (int (ms_offset s) + d)\<rparr> else file_of (s, out))"
    if "0 \<le> int (ms_offset s) + d" "int (ms_offset s) + d < int max_pos" for d
  proof (cases "d < 0")
    case True
    have "s64 (int (ms_offset s) + d) = int (ms_offset s) + d" using that by simp
    then show ?thesis using B[OF that(1,2)] True by (simp add: MemoryStream_seekCurrent_def)
  next
    case False
    then obtain n where d: "d = int n" by (metis nat_0_le not_less)
    consider (gap) "ms_offset s > length (ms_original s)" | (at_end) "ms_offset s = length (ms_original s)" | (inside) "ms_offset s < length (ms_original s)"
      by linarith
    then show ?thesis
    proof cases
      case inside
      then have "ms_read s = drop (ms_offset s) (ms_original s)" using assms(1) by (auto simp: memory_ok_def)
      then show ?thesis using that assms(1) inside
        by (auto simp: d MemoryStream_seekCurrent_def memory_ok_def file_of_def npos_def Let_def nat_add_distrib min_def add.commute)
    qed (use that assms(1) in \<open>auto simp: d MemoryStream_seekCurrent_def memory_ok_def file_of_def npos_def Let_def nat_add_distrib min_def\<close>)
  qed
  have relative: "file_op (FSeek off a) (file_of (s, out)) =
      (if d < 0 then (file_of (s, out))\<lparr>fl_pos := nat (int (ms_offset s) + d), fl_stale := False\<rparr>
       else if ms_offset s \<le> length (ms_original s) then (file_of (s, out))\<lparr>fl_pos := nat (int (ms_offset s) + d)\<rparr> else file_of (s, out))"
    if "a \<noteq> BEGIN" "seek_target off a (file_of (s, out)) = int (ms_offset s) + d" for d
    using that by (simp add: file_of_def Let_def)
  show ?thesis
  proof (cases a)
    case BEGIN
    then show ?thesis using B[of off] assms(2) by (simp add: MemoryStream_seek_def seek_target_def Let_def)
  next
    case CURRENT
    then have t: "seek_target off a (file_of (s, out)) = int (ms_offset s) + off" by (simp add: seek_target_def file_of_def)
    have "MemoryStream_seek off a s = MemoryStream_seekCurrent off s" using CURRENT by (simp add: MemoryStream_seek_def)
    moreover have "0 \<le> int (ms_offset s) + off" "int (ms_offset s) + off < int max_pos" using assms(2) t by simp_all
    ultimately show ?thesis using C[of off] relative[OF _ t] CURRENT by simp
  next
    case END
    let ?d = "int (length (ms_original s)) + off - int (ms_offset s)"
    have t: "0 \<le> int (length (ms_original s)) + off" "int (length (ms_original s)) + off < int max_pos"
      using assms(2) END by (simp_all add: seek_target_def file_of_def)
    moreover have "int (ms_offset s) < int max_pos" using assms(1) unfolding memory_ok_def by linarith
    ultimately have "s64 ?d = ?d" by (intro s64_id) simp_all
    then have "MemoryStream_seek off a s = MemoryStream_seekCurrent ?d s" using END by (simp add: MemoryStream_seek_def)
    moreover have "seek_target off a (file_of (s, out)) = int (ms_offset s) + ?d" using END by (simp add: seek_target_def file_of_def)
    ultimately show ?thesis using C[of ?d] relative[of ?d] t END by simp
  qed
qed

interpretation memory: data_refinement file_exec "\<lambda>w. memory_ok (fst w)" file_of file_enabled file_op
proof
  fix a :: file_action and w :: "memory_stream \<times> byte list"
  assume ok: "memory_ok (fst w)" and en: "file_enabled a (file_of w)"
  obtain s out where w: "w = (s, out)" by (cases w)
  show "\<exists>w'. file_exec a w = Inr w' \<and> memory_ok (fst w') \<and> file_of w' = file_op a (file_of w)"
  proof (cases a)
    case (FRead n)
    then show ?thesis using read_refines[of s n out] ok en w by (simp add: file_of_def)
  next
    case (FWrite bs)
    then show ?thesis using write_refines[of s bs out] ok en w by simp
  next
    case (FSeek off an)
    then show ?thesis using seek_refines[of s off an out] ok en w by (auto simp: file_of_def)
  next
    case (FTruncate n)
    then show ?thesis using truncate_refines[of s n] ok en w by (auto simp: file_of_def)
  qed
qed

text \<open>As a source, the stream gives the bytes from the current position on.\<close>

interpretation memory_source: byte_source MemoryStream_read ms_read
  by unfold_locales (auto simp: MemoryStream_read_def MemoryStream_readInternal_def Let_def min_def split: if_splits)

section \<open>Properties\<close>



text \<open>
  A write that starts inside the data of a \<open>MemoryStream\<close> and reaches its end leaves the
  old bytes in the read buffer: the next read returns them although the position is at the end.
\<close>

lemma memory_stream_stale_read:
  "\<exists>s1 s2 bs. MemoryStream_write ''xyz'' (MemoryStream_ofBuffer ''abc'') = Inr (3, s1) \<and>
     MemoryStream_size s1 = 3 \<and> ms_offset s1 = 3 \<and>
     MemoryStream_read 3 s1 = (Inr bs, s2) \<and> bs = ''abc'' \<and> ms_offset s2 > length (ms_original s2)"
  by (simp add: MemoryStream_write_def MemoryStream_writeInternal_def MemoryStream_ofBuffer_def MemoryStream_size_def
      MemoryStream_read_def MemoryStream_readInternal_def)

end
