(* ===== verification/Buffered_Props.thy ===== *)
theory Buffered_Props
  imports Buffered_Stream Memory_Stream
begin

text \<open>
  The properties of \<open>BufferedStream\<close>: what it reads is what its parent holds, what is written
  to it reaches the parent exactly once and in order, also when the parent throws, and a
  delimiter is found where it is. A seek after a read and a write can fail.
\<close>

section \<open>Reading\<close>

lemma todo_bounds:
  fixes r b :: nat
  assumes "0 < r" and "0 < b"
  shows "r \<le> ((r - 1) div b + 1) * b" "((r - 1) div b + 1) * b \<le> r - 1 + b"
proof -
  have "(r - 1) div b * b + (r - 1) mod b = r - 1" by (rule div_mult_mod_eq)
  moreover have "(r - 1) mod b < b" using assms(2) by simp
  moreover have "((r - 1) div b + 1) * b = (r - 1) div b * b + b" by simp
  ultimately show "r \<le> ((r - 1) div b + 1) * b" "((r - 1) div b + 1) * b \<le> r - 1 + b"
    using assms(1) by linarith+
qed

text \<open>What a buffered stream holds for the reader.\<close>

definition ahead :: "('p \<Rightarrow> byte list) \<Rightarrow> 'p buffered \<Rightarrow> byte list" where
  "ahead rem s = bf_readBuffer s @ rem (bf_parent s)"

context byte_source
begin

lemma read_loop_ok:
  assumes P: "po_read P = read_from" and "0 < bf_bufferSize s" and "\<not> bf_allowPartialReads s"
    and "0 < r" and "r + bf_bufferSize s \<le> size_mod"
  shows "\<exists>s'. read_loop P len r acc s = (Inr (acc @ take r (ahead remaining s)), s') \<and>
    ahead remaining s' = drop r (ahead remaining s) \<and> bf_writeBuffer s' = bf_writeBuffer s"
  using assms(2-)
proof (induction r arbitrary: s acc rule: less_induct)
  case (less r)
  let ?todo = "((r - 1) div bf_bufferSize s + 1) * bf_bufferSize s"
  have b: "r \<le> ?todo" "?todo \<le> r - 1 + bf_bufferSize s" using todo_bounds less.prems by simp_all
  then have md: "?todo mod size_mod = ?todo" using less.prems by simp
  obtain got p where g: "read_from ?todo (bf_parent s) = (Inr got, p)" "remaining (bf_parent s) = got @ remaining p"
    "length got \<le> ?todo" "0 < ?todo \<Longrightarrow> got = [] \<Longrightarrow> remaining (bf_parent s) = []"
    using read_cases[of ?todo "bf_parent s"] by blast
  let ?rb = "bf_readBuffer s @ got"
  let ?s2 = "s\<lparr>bf_parent := p, bf_readBuffer := drop (min (length ?rb) r) ?rb\<rparr>"
  have step: "read_loop P len r acc s =
      (if r - min (length ?rb) r > 0 \<and> got \<noteq> []
       then read_loop P len (r - min (length ?rb) r) (acc @ take (min (length ?rb) r) ?rb) ?s2
       else (Inr (acc @ take (min (length ?rb) r) ?rb), ?s2))"
    using less.prems(1,2) g(1) md unfolding read_loop.simps[of P len r acc s]
    by (simp add: on_parent_def P Let_def)
  have ah: "ahead remaining s = ?rb @ remaining p" using g(2) by (simp add: ahead_def)
  show ?case
  proof (cases "r \<le> length ?rb")
    case True
    then show ?thesis unfolding step by (simp add: ah min_def) (simp add: ahead_def)
  next
    case False
    show ?thesis
    proof (cases "got = []")
      case True
      have "0 < ?todo" using less.prems(3) b(1) by (rule less_le_trans)
      then have "remaining (bf_parent s) = []" using g(4) True by blast
      then show ?thesis using True False g(2) unfolding step by (simp add: ahead_def min_def)
    next
      case gne: False
      let ?r = "r - length ?rb"
      have "\<exists>s'. read_loop P len ?r (acc @ ?rb) ?s2 = (Inr ((acc @ ?rb) @ take ?r (ahead remaining ?s2)), s') \<and>
          ahead remaining s' = drop ?r (ahead remaining ?s2) \<and> bf_writeBuffer s' = bf_writeBuffer ?s2"
        using False gne less.prems by (intro less.IH) auto
      moreover have "ahead remaining ?s2 = remaining p" using False by (simp add: ahead_def min_def)
      ultimately show ?thesis using False gne unfolding step ah by (simp add: min_def)
    qed
  qed
qed

lemma buffered_read_ok:
  assumes P: "po_read P = read_from" and "0 < bf_bufferSize s" and "\<not> bf_allowPartialReads s"
    and "len + bf_bufferSize s \<le> size_mod" and "po_supportsSeek P \<longrightarrow> bf_writeBuffer s = []"
  shows "\<exists>s'. BufferedStream_read P len s = (Inr (take len (ahead remaining s)), s') \<and>
    ahead remaining s' = drop len (ahead remaining s) \<and> bf_writeBuffer s' = bf_writeBuffer s"
proof -
  have fl: "(if po_supportsSeek P then BufferedStream_flush P False else io_return ()) s = (Inr (), s)"
    using assms(5) by (simp add: BufferedStream_flush_def io_defs flush_loop.simps)
  let ?n = "min (length (bf_readBuffer s)) len"
  let ?s = "s\<lparr>bf_readBuffer := drop ?n (bf_readBuffer s)\<rparr>"
  have st: "BufferedStream_read P len s =
      (if len - ?n = 0 then (Inr (take ?n (bf_readBuffer s)), ?s)
       else read_loop P len (len - ?n) (take ?n (bf_readBuffer s)) ?s)"
    using fl assms(3) by (simp add: BufferedStream_read_def BufferedStream_readInternal_def io_bind_def Let_def)
  show ?thesis
  proof (cases "len \<le> length (bf_readBuffer s)")
    case True
    then show ?thesis unfolding st by (simp add: ahead_def min_def)
  next
    case False
    have "\<exists>s'. read_loop P len (len - ?n) (take ?n (bf_readBuffer s)) ?s =
        (Inr (take ?n (bf_readBuffer s) @ take (len - ?n) (ahead remaining ?s)), s') \<and>
        ahead remaining s' = drop (len - ?n) (ahead remaining ?s) \<and> bf_writeBuffer s' = bf_writeBuffer ?s"
      using assms False by (intro read_loop_ok) auto
    then show ?thesis using False unfolding st by (auto simp: ahead_def min_def)
  qed
qed

text \<open>The search reads ahead until the delimiter is there, the limit is reached or the data ends.\<close>

lemma delim_loop_ok:
  assumes P: "po_read P = read_from" and "0 < bf_bufferSize s"
  shows "\<exists>s'. delim_loop P (\<lambda>n rb. index_of c (take n rb)) sanity thr s =
      (case index_of c (take sanity (ahead remaining s)) of
         Some i \<Rightarrow> Inr (int i)
       | None \<Rightarrow> if thr then Inl (if sanity \<le> length (ahead remaining s) then BufferOverflow else UnexpectedEof)
                 else Inr (- int (length (bf_readBuffer s')) - 1), s') \<and>
    ahead remaining s' = ahead remaining s"
  using assms(2)
proof (induction "sanity - length (bf_readBuffer s)" arbitrary: s rule: less_induct)
  case less
  let ?rb = "bf_readBuffer s" and ?f = "\<lambda>n rb. index_of c (take n rb)"
  have lk: "(if 0 < length ?rb then index_of c (take (min sanity (length ?rb)) ?rb) else None) = index_of c (take sanity ?rb)"
    by (cases ?rb) (auto simp: min_def)
  have tk: "take sanity (ahead remaining s) = take sanity ?rb @ take (sanity - length ?rb) (remaining (bf_parent s))"
    by (simp add: ahead_def)
  show ?case
  proof (cases "index_of c (take sanity ?rb)")
    case (Some i)
    then have "index_of c (take sanity (ahead remaining s)) = Some i" unfolding tk by (simp add: index_of_append)
    then show ?thesis using lk Some unfolding delim_loop.simps[of P ?f sanity thr s] by (simp add: Let_def)
  next
    case None
    show ?thesis
    proof (cases "sanity \<le> length ?rb")
      case True
      then have "index_of c (take sanity (ahead remaining s)) = None" using None unfolding tk by simp
      moreover have "sanity \<le> length (ahead remaining s)" using True by (simp add: ahead_def)
      ultimately show ?thesis using lk None True unfolding delim_loop.simps[of P ?f sanity thr s] by (simp add: Let_def)
    next
      case False
      obtain got p where g: "read_from (bf_bufferSize s) (bf_parent s) = (Inr got, p)"
        "remaining (bf_parent s) = got @ remaining p" "length got \<le> bf_bufferSize s" "0 < bf_bufferSize s \<Longrightarrow> got = [] \<Longrightarrow> remaining (bf_parent s) = []"
        using read_cases[of "bf_bufferSize s" "bf_parent s"] by blast
      let ?s = "s\<lparr>bf_parent := p, bf_readBuffer := ?rb @ got\<rparr>"
      have st: "delim_loop P ?f sanity thr s =
          (if got = [] then (if thr then Inl UnexpectedEof else Inr (- int (length ?rb) - 1), s\<lparr>bf_parent := p\<rparr>)
           else delim_loop P ?f sanity thr ?s)"
        using lk None False g(1) unfolding delim_loop.simps[of P ?f sanity thr s] by (simp add: Let_def on_parent_def P)
      show ?thesis
      proof (cases "got = []")
        case True
        then have e: "remaining (bf_parent s) = []" "remaining p = []" using g less.prems by simp_all
        then have "index_of c (take sanity (ahead remaining s)) = None" using None unfolding tk by simp
        then show ?thesis using True False e unfolding st by (simp add: ahead_def)
      next
        case ne: False
        have a: "ahead remaining ?s = ahead remaining s" using g(2) by (simp add: ahead_def)
        have "sanity - length (bf_readBuffer ?s) < sanity - length (bf_readBuffer s)" using ne False by (cases got) auto
        from less.hyps[OF this] less.prems show ?thesis unfolding st a using ne by simp
      qed
    qed
  qed
qed

end

section \<open>Writing\<close>

lemma append_take_suffix:
  assumes "xs @ ys = base @ zs" and "length zs \<le> length ys"
  shows "xs @ take (length ys - length zs) ys = base"
proof -
  have "length xs + length ys = length base + length zs" using arg_cong[OF assms(1), of length] by simp
  then have "length ys - length zs = length base - length xs" "length xs \<le> length base" using assms(2) by linarith+
  then have "xs @ take (length ys - length zs) ys = take (length base) (xs @ ys)" by simp
  then show ?thesis using assms(1) by simp
qed

text \<open>
  What has been written to the parent and what is still in the buffer, together: a pass of the
  loop keeps it or ends the loop, and an exception takes the current write out of it or counts
  as success.
\<close>

definition sent :: "('p \<Rightarrow> byte list) \<Rightarrow> 'p buffered \<Rightarrow> byte list" where
  "sent wr s = wr (bf_parent s) @ bf_writeBuffer s"

context byte_sink
begin

lemma catch_write_ok:
  assumes "sent written s = base @ bs" and "length bs = len"
  shows "\<exists>r s'. catch_write len e s = (Some r, s') \<and> bf_bufferSize s' = bf_bufferSize s \<and> bf_readBuffer s' = bf_readBuffer s \<and>
    (case r of Inl _ \<Rightarrow> sent written s' = base | Inr n \<Rightarrow> n = len \<and> sent written s' = base @ bs)"
  using append_take_suffix[of "written (bf_parent s)" "bf_writeBuffer s" base bs] assms
  by (auto simp: catch_write_def sent_def)

lemma flushWrite_ok:
  assumes P: "po_write P = write_to" and "0 < bf_bufferSize s" and "po_supportsSeek P \<longrightarrow> bf_readBuffer s = []"
    and "sent written s = base @ bs" and len: "length bs = len"
  shows "\<exists>r s'. flushWrite P len s = Some (r, s') \<and> bf_bufferSize s' = bf_bufferSize s \<and> bf_readBuffer s' = bf_readBuffer s \<and>
    (case r of Inl _ \<Rightarrow> sent written s' = base | Inr n \<Rightarrow> n = len \<and> sent written s' = base @ bs)"
  using assms(2-4)
proof (induction "length (bf_writeBuffer s)" arbitrary: s rule: less_induct)
  case less
  show ?case
  proof (cases "length (bf_writeBuffer s) < bf_bufferSize s")
    case True
    then show ?thesis using less.prems unfolding flushWrite.simps[of P len s] by simp
  next
    case False
    let ?wb = "bf_writeBuffer s"
    let ?n = "if bf_flushMultiplesOfBuffer s then length ?wb div bf_bufferSize s * bf_bufferSize s else length ?wb"
    have n: "0 < ?n" "?n \<le> length ?wb"
      using False less.prems(1) by (auto simp: div_greater_zero_iff)
    have d: "drop_read_ahead P s = (Inr (), s)" using less.prems(2) by (auto simp: drop_read_ahead_def)
    obtain r p where w: "write_to (take ?n ?wb) (bf_parent s) = (r, p)" by fastforce
    show ?thesis
    proof (cases r)
      case (Inl e)
      then have "flushWrite_step P len s = catch_write len e (s\<lparr>bf_parent := p\<rparr>)"
        using d w less.prems(1) by (simp add: flushWrite_step_def on_parent_def P Let_def)
      moreover have "sent written (s\<lparr>bf_parent := p\<rparr>) = base @ bs"
        using write_error[OF w[unfolded Inl]] less.prems(3) by (simp add: sent_def)
      then obtain r' s' where "catch_write len e (s\<lparr>bf_parent := p\<rparr>) = (Some r', s')" "bf_bufferSize s' = bf_bufferSize s \<and> bf_readBuffer s' = bf_readBuffer s"
        "case r' of Inl _ \<Rightarrow> sent written s' = base | Inr n \<Rightarrow> n = len \<and> sent written s' = base @ bs"
        using catch_write_ok[OF _ len, of "s\<lparr>bf_parent := p\<rparr>" base e] by auto
      ultimately show ?thesis using False unfolding flushWrite.simps[of P len s] by simp
    next
      case (Inr k)
      have ne: "take ?n ?wb \<noteq> []" using n by (metis length_greater_0_conv length_take min.absorb2)
      have k: "written p = written (bf_parent s) @ take k (take ?n ?wb)" "k \<le> length (take ?n ?wb)" "0 < k"
        using write_ok[OF w[unfolded Inr]] write_progress[OF ne w[unfolded Inr]] by auto
      let ?s = "s\<lparr>bf_parent := p, bf_writeBuffer := drop k ?wb\<rparr>"
      have kn: "k \<le> length ?wb" "k \<le> ?n" using k(2) n(2) by simp_all
      have st: "flushWrite_step P len s = (None, ?s)"
        using d w less.prems(1) Inr kn(1) by (simp add: flushWrite_step_def on_parent_def P Let_def)
      have sn: "sent written ?s = base @ bs"
        using k(1) kn less.prems(3) by (simp add: sent_def min_def)
      have "\<exists>r s'. flushWrite P len ?s = Some (r, s') \<and> bf_bufferSize s' = bf_bufferSize ?s \<and> bf_readBuffer s' = bf_readBuffer ?s \<and>
          (case r of Inl _ \<Rightarrow> sent written s' = base | Inr n \<Rightarrow> n = len \<and> sent written s' = base @ bs)"
        using k(3) kn(1) less.prems sn by (intro less.hyps) auto
      then show ?thesis using False st unfolding flushWrite.simps[of P len s] by simp
    qed
  qed
qed

text \<open>A flush that succeeds has handed everything to the parent.\<close>

lemma flush_loop_ok:
  assumes P: "po_write P = write_to" and "po_supportsSeek P \<longrightarrow> bf_readBuffer s = []" and "flush_loop P s = (Inr (), s')"
  shows "bf_writeBuffer s' = [] \<and> written (bf_parent s') = sent written s"
  using assms(2,3)
proof (induction "length (bf_writeBuffer s)" arbitrary: s rule: less_induct)
  case less
  show ?case
  proof (cases "bf_writeBuffer s = []")
    case True
    then show ?thesis using less.prems(2) by (simp add: flush_loop.simps sent_def)
  next
    case False
    let ?wb = "bf_writeBuffer s"
    have d: "drop_read_ahead P s = (Inr (), s)" using less.prems(1) by (auto simp: drop_read_ahead_def)
    obtain r p where w: "write_to ?wb (bf_parent s) = (r, p)" by fastforce
    then obtain n where n: "r = Inr n" "0 < n" "n \<le> length ?wb"
      and f: "flush_loop P (s\<lparr>bf_parent := p, bf_writeBuffer := drop n ?wb\<rparr>) = (Inr (), s')"
      using less.prems(2) False d unfolding flush_loop.simps[of P s]
      by (cases r) (auto simp: on_parent_def P split: if_splits)
    have "written p = written (bf_parent s) @ take n ?wb" using write_ok[OF w[unfolded n(1)]] by simp
    then show ?thesis using less.hyps[OF _ _ f] less.prems(1) n by (simp add: sent_def)
  qed
qed

end

section \<open>A buffered memory stream\<close>

text \<open>The parent operations of a \<open>MemoryStream\<close>; an operation that throws leaves it unchanged.\<close>

definition lift_memory :: "(memory_stream \<Rightarrow> ('a \<times> memory_stream) result) \<Rightarrow> (memory_stream, 'a) io" where
  "lift_memory f s = (case f s of Inl e \<Rightarrow> (Inl e, s) | Inr (x, s') \<Rightarrow> (Inr x, s'))"

definition memory_ops :: "memory_stream parent_ops" where
  "memory_ops = \<lparr>po_supportsSeek = True, po_supportsTell = True, po_supportsSize = True,
     po_read = MemoryStream_read, po_write = (\<lambda>bs. lift_memory (MemoryStream_write bs)),
     po_seek = (\<lambda>off a. lift_memory (MemoryStream_seek off a)),
     po_size = (\<lambda>s. (Inr (MemoryStream_size s), s)),
     po_truncate = (\<lambda>n. lift_memory (\<lambda>s. andThen (MemoryStream_truncate n s) (\<lambda>s'. Inr ((), s')))),
     po_flush = io_return (), po_close = (\<lambda>_. io_return ())\<rparr>"

text \<open>A sink that appends at most three bytes at a time and throws when it holds ten.\<close>

definition small_sink :: "byte list \<Rightarrow> (byte list, nat) io" where
  "small_sink bs p = (if length p \<ge> 10 then (Inl (ParentError 1), p) else (Inr (min 3 (length bs)), p @ take 3 bs))"

definition small_ops :: "byte list parent_ops" where
  "small_ops = \<lparr>po_supportsSeek = False, po_supportsTell = False, po_supportsSize = False,
     po_read = (\<lambda>n p. (Inr [], p)), po_write = small_sink, po_seek = (\<lambda>off a p. (Inl NotReached, p)),
     po_size = (\<lambda>p. (Inl NotReached, p)), po_truncate = (\<lambda>n p. (Inl NotReached, p)),
     po_flush = io_return (), po_close = (\<lambda>_. io_return ())\<rparr>"

lemma small_sink_ok: "byte_sink small_sink (\<lambda>p. p)"
  by unfold_locales (auto simp: small_sink_def min_def split: if_splits)

section \<open>Properties\<close>

text \<open>
  C24. A \<open>BufferedStream\<close> that does not allow partial reads is transparent: \<open>read\<close> returns, and
  gives exactly the next \<open>len\<close> bytes of what it has read ahead followed by what its parent
  still holds, or all of them if there are fewer, however the parent splits its data.
\<close>

theorem buffered_read_transparent:
  assumes "byte_source (po_read P) rem" and "0 < bf_bufferSize s" and "\<not> bf_allowPartialReads s"
    and "len + bf_bufferSize s \<le> size_mod" and "po_supportsSeek P \<longrightarrow> bf_writeBuffer s = []"
  shows "\<exists>s'. BufferedStream_read P len s = (Inr (take len (ahead rem s)), s') \<and>
    ahead rem s' = drop len (ahead rem s) \<and> bf_writeBuffer s' = bf_writeBuffer s"
  by (rule byte_source.buffered_read_ok[OF assms(1) refl assms(2-)])

theorem buffered_read_transparent_witness:
  "\<exists>s'. BufferedStream_read memory_ops 4 (BufferedStream_new 2 (MemoryStream_ofBuffer ''abcdefg'') True) = (Inr ''abcd'', s')"
proof -
  have "byte_source (po_read memory_ops) ms_read" by (simp add: memory_ops_def memory_source.byte_source_axioms)
  from buffered_read_transparent[OF this, of "BufferedStream_new 2 (MemoryStream_ofBuffer ''abcdefg'') True" 4]
  show ?thesis by (auto simp: BufferedStream_new_def MemoryStream_ofBuffer_def ahead_def)
qed

text \<open>
  C9. A write to a \<open>BufferedStream\<close> happens exactly once: it returns, and if it reports success
  the bytes follow all earlier ones in the parent and the buffer, while if it throws they are
  in neither, so the caller can repeat it. This holds also if the parent writes less than it is
  given or throws, as long as a parent that throws has written nothing.
\<close>

theorem buffered_write_exactly_once:
  assumes "byte_sink (po_write P) wr" and "0 < bf_bufferSize s" and "po_supportsSeek P \<longrightarrow> bf_readBuffer s = []"
  shows "\<exists>r s'. BufferedStream_write P bs s = Some (r, s') \<and>
    (case r of Inl _ \<Rightarrow> sent wr s' = sent wr s | Inr n \<Rightarrow> n = length bs \<and> sent wr s' = sent wr s @ bs)"
proof -
  let ?s = "s\<lparr>bf_writeBuffer := bf_writeBuffer s @ bs\<rparr>"
  have sn: "sent wr ?s = sent wr s @ bs" by (simp add: sent_def)
  obtain r s' where f: "flushWrite P (length bs) ?s = Some (r, s')"
    "case r of Inl _ \<Rightarrow> sent wr s' = sent wr s | Inr n \<Rightarrow> n = length bs \<and> sent wr s' = sent wr s @ bs"
    using byte_sink.flushWrite_ok[OF assms(1) refl, where s = ?s, OF _ _ sn refl] assms(2,3) by auto
  then show ?thesis by (cases r) (auto simp: BufferedStream_write_def)
qed

theorem buffered_write_exactly_once_witness:
  "\<exists>r s'. BufferedStream_write small_ops ''abcdefgh'' (BufferedStream_new 4 ''01234567'' True) = Some (r, s') \<and>
    sent (\<lambda>p. p) s' \<in> {''01234567'', ''01234567abcdefgh''}"
proof -
  have "byte_sink (po_write small_ops) (\<lambda>p. p)" by (simp add: small_ops_def small_sink_ok)
  moreover have "sent (\<lambda>p. p) (BufferedStream_new 4 ''01234567'' True) = ''01234567''"
    by (simp add: BufferedStream_new_def sent_def)
  moreover have "0 < bf_bufferSize (BufferedStream_new 4 ''01234567'' True)" "\<not> po_supportsSeek small_ops"
    by (simp_all add: BufferedStream_new_def small_ops_def)
  ultimately obtain r s' where
    "BufferedStream_write small_ops ''abcdefgh'' (BufferedStream_new 4 ''01234567'' True) = Some (r, s')"
    "case r of Inl _ \<Rightarrow> sent (\<lambda>p. p) s' = ''01234567''
     | Inr n \<Rightarrow> n = length ''abcdefgh'' \<and> sent (\<lambda>p. p) s' = ''01234567'' @ ''abcdefgh''"
    using buffered_write_exactly_once[of small_ops "\<lambda>p. p" "BufferedStream_new 4 ''01234567'' True" "''abcdefgh''"] by metis
  then show ?thesis by (cases r) auto
qed

text \<open>
  C35. \<open>find\<close> of a character on a \<open>BufferedStream\<close> returns the position of its first occurrence
  in the data ahead, if it is within the limit, and otherwise throws: the limit was reached, or
  the data ended before it. It consumes nothing, and with \<open>throwIfNotFound\<close> off it returns a
  negative number instead.
\<close>

theorem buffered_find_correct:
  assumes "byte_source (po_read P) rem" and "0 < bf_bufferSize s" and "2 * bf_bufferSize s + 1 < size_mod"
    and "sanity < size_mod" and "po_supportsSeek P \<longrightarrow> bf_writeBuffer s = []"
  defines "limit \<equiv> (if sanity = npos then 2 * bf_bufferSize s else sanity) + 1"
  shows "\<exists>s'. BufferedStream_find P c sanity thr s =
      (case index_of c (take limit (ahead rem s)) of
         Some i \<Rightarrow> Inr (int i)
       | None \<Rightarrow> if thr then Inl (if limit \<le> length (ahead rem s) then BufferOverflow else UnexpectedEof)
                 else Inr (- int (length (bf_readBuffer s')) - 1), s') \<and>
    ahead rem s' = ahead rem s"
proof -
  have fl: "(if po_supportsSeek P then BufferedStream_flush P False else io_return ()) s = (Inr (), s)"
    using assms(5) by (simp add: BufferedStream_flush_def io_defs flush_loop.simps)
  have "limit mod size_mod = limit" using assms(3,4) by (auto simp: limit_def npos_def)
  then have "BufferedStream_find P c sanity thr s = delim_loop P (\<lambda>n rb. index_of c (take n rb)) limit thr s"
    using fl by (simp add: BufferedStream_find_def find_with_def io_bind_def limit_def Let_def)
  then show ?thesis using byte_source.delim_loop_ok[OF assms(1) refl assms(2), of c limit thr] by simp
qed

theorem buffered_find_correct_witness:
  "\<exists>s'. BufferedStream_find memory_ops (CHR ''d'') npos True (BufferedStream_new 2 (MemoryStream_ofBuffer ''abcdefg'') True) = (Inr 3, s')"
proof -
  have "byte_source (po_read memory_ops) ms_read" by (simp add: memory_ops_def memory_source.byte_source_axioms)
  from buffered_find_correct[OF this, of "BufferedStream_new 2 (MemoryStream_ofBuffer ''abcdefg'') True" npos "CHR ''d''" True]
  show ?thesis by (auto simp: BufferedStream_new_def MemoryStream_ofBuffer_def ahead_def npos_def)
qed

lemmas buffered_eval = BufferedStream_new_def MemoryStream_ofBuffer_def memory_ops_def lift_memory_def on_parent_def
  io_defs clear_read_def consume_read_def drop_read_ahead_def BufferedStream_flush_def flush_loop.simps
  MemoryStream_read_def MemoryStream_readInternal_def MemoryStream_write_def MemoryStream_writeInternal_def
  MemoryStream_seek_def MemoryStream_seekCurrent_def MemoryStream_seekBegin_def MemoryStream_size_def npos_def s64_def

definition read_ahead_state :: "memory_stream buffered" where
  "read_ahead_state = \<lparr>bf_bufferSize = 8, bf_allowPartialReads = False, bf_flushMultiplesOfBuffer = False,
     bf_readBuffer = ''234567'', bf_writeBuffer = [],
     bf_parent = \<lparr>ms_read = ''89'', ms_original = ''0123456789'', ms_offset = 8\<rparr>, bf_own = True\<rparr>"

lemma flaw_read:
  "BufferedStream_read memory_ops 2 (BufferedStream_new 8 (MemoryStream_ofBuffer ''0123456789'') True) = (Inr ''01'', read_ahead_state)"
  by (simp add: buffered_eval BufferedStream_read_def BufferedStream_readInternal_def read_loop.simps read_ahead_state_def)

lemma flaw_write:
  "BufferedStream_write memory_ops ''x'' read_ahead_state = Some (Inr 1, read_ahead_state\<lparr>bf_writeBuffer := ''x''\<rparr>)"
  by (simp add: BufferedStream_write_def flushWrite.simps read_ahead_state_def)

lemma flaw_tell:
  "fst (BufferedStream_seek memory_ops 0 CURRENT (read_ahead_state\<lparr>bf_writeBuffer := ''x''\<rparr>)) = Inr 3"
  "fst (BufferedStream_seek memory_ops 0 CURRENT read_ahead_state) = Inr 2"
  by (simp_all add: BufferedStream_seek_def buffered_eval read_ahead_state_def)

lemma flaw_seek: "fst (BufferedStream_seek memory_ops 5 BEGIN (read_ahead_state\<lparr>bf_writeBuffer := ''x''\<rparr>)) = Inl Assertion"
  by (simp add: BufferedStream_seek_def seek_switch_def buffered_eval read_ahead_state_def)

lemma flaw_truncate:
  "fst (BufferedStream_seek memory_ops 0 CURRENT (snd (BufferedStream_truncate memory_ops 9 read_ahead_state))) = Inr 8"
  by (simp add: BufferedStream_seek_def BufferedStream_truncate_def MemoryStream_truncate_def buffered_eval read_ahead_state_def)

text \<open>
  A \<open>BufferedStream\<close> over a stream that can seek has two flaws. After a read and a short
  write, a seek to a position that was read ahead fails an assertion, because flushing the write
  discarded the data the seek wants to skip. And \<open>truncate\<close> discards the data read ahead without
  moving the parent back, so the position of the stream jumps forward.
\<close>

lemma buffered_seek_flaws:
  "let s0 = BufferedStream_new 8 (MemoryStream_ofBuffer ''0123456789'') True;
       s1 = snd (BufferedStream_read memory_ops 2 s0);
       s2 = snd (the (BufferedStream_write memory_ops ''x'' s1));
       s3 = snd (BufferedStream_truncate memory_ops 9 s1)
   in fst (BufferedStream_seek memory_ops 0 CURRENT s2) = Inr 3 \<and>
      fst (BufferedStream_seek memory_ops 5 BEGIN s2) = Inl Assertion \<and>
      fst (BufferedStream_seek memory_ops 0 CURRENT s1) = Inr 2 \<and>
      fst (BufferedStream_seek memory_ops 0 CURRENT s3) = Inr 8"
  using flaw_tell flaw_seek flaw_truncate by (simp add: flaw_read flaw_write)

end
