(* ===== verification/Filter_Streams.thy ===== *)
theory Filter_Streams
  imports Buffered_Props
begin

text \<open>
  Two streams that select from others: \<open>LimitedStream\<close> of limited.cpp gives a prefix of its
  parent, \<open>CatStream\<close> of cat.cpp gives several streams one after the other.
\<close>

section \<open>LimitedStream\<close>

record 'p limited =
  ls_pos :: int
  ls_size :: int
  ls_strict :: bool
  ls_parent :: 'p

definition LimitedStream_new :: "'p \<Rightarrow> int \<Rightarrow> 'p limited result" where
  "LimitedStream_new parent sz =
     ensure (sz \<ge> 0) (Inr \<lparr>ls_pos = 0, ls_size = sz, ls_strict = False, ls_parent = parent\<rparr>)"

definition LimitedStream_reset :: "int option \<Rightarrow> 'p limited \<Rightarrow> 'p limited" where
  "LimitedStream_reset newSize s =
     (case newSize of None \<Rightarrow> s\<lparr>ls_pos := 0\<rparr> | Some sz \<Rightarrow> s\<lparr>ls_pos := 0, ls_size := sz\<rparr>)"

text \<open>
  \<open>(size_t)std::min<long long>(len, m_size - m_pos)\<close>: the length is converted to a signed
  number for the comparison and the minimum back to an unsigned one.
\<close>

definition limited_len :: "nat \<Rightarrow> 'p limited \<Rightarrow> nat" where
  "limited_len len s = nat (min (s64 (int len)) (ls_size s - ls_pos s) mod 18446744073709551616)"

definition LimitedStream_read :: "'p parent_ops \<Rightarrow> nat \<Rightarrow> ('p limited, byte list) io" where
  "LimitedStream_read P len s =
     (if ls_pos s \<ge> ls_size s then (Inr [], s)
      else
        case po_read P (limited_len len s) (ls_parent s) of
          (Inl e, p) \<Rightarrow> (Inl e, s\<lparr>ls_parent := p\<rparr>)
        | (Inr bs, p) \<Rightarrow>
            if bs = [] \<and> ls_strict s then (Inl UnexpectedEof, s\<lparr>ls_parent := p\<rparr>)
            else (Inr bs, s\<lparr>ls_parent := p, ls_pos := ls_pos s + int (length bs)\<rparr>))"

definition LimitedStream_write :: "'p parent_ops \<Rightarrow> byte list \<Rightarrow> ('p limited, nat) io" where
  "LimitedStream_write P bs s =
     (if ls_pos s \<ge> ls_size s then (Inl WriteBeyondEof, s)
      else
        case po_write P (take (limited_len (length bs) s) bs) (ls_parent s) of
          (Inl e, p) \<Rightarrow> (Inl e, s\<lparr>ls_parent := p\<rparr>)
        | (Inr n, p) \<Rightarrow> (Inr n, s\<lparr>ls_parent := p, ls_pos := ls_pos s + int n\<rparr>))"

text \<open>\<open>runtime\<close> says which errors are a \<open>std::runtime_error\<close>.\<close>

definition LimitedStream_size :: "(error \<Rightarrow> bool) \<Rightarrow> 'p parent_ops \<Rightarrow> ('p limited, int) io" where
  "LimitedStream_size runtime P s =
     (if \<not> po_supportsSize P then (Inr (ls_size s), s)
      else
        case po_size P (ls_parent s) of
          (Inl e, p) \<Rightarrow> (if runtime e then Inr (ls_size s) else Inl e, s\<lparr>ls_parent := p\<rparr>)
        | (Inr n, p) \<Rightarrow> (Inr (min (ls_size s) n), s\<lparr>ls_parent := p\<rparr>))"

definition LimitedStream_seek ::
    "(error \<Rightarrow> bool) \<Rightarrow> 'p parent_ops \<Rightarrow> int \<Rightarrow> anchor \<Rightarrow> ('p limited, int) io" where
  "LimitedStream_seek runtime P offset anchor =
     io_bind
       (if anchor = END then io_bind (LimitedStream_size runtime P) (\<lambda>n. io_return (offset + n, BEGIN))
        else io_return (offset, anchor))
       (\<lambda>(offset1, anchor1) s.
          let (offset2, anchor2) = (if anchor1 = BEGIN \<and> offset1 = ls_pos s then (0, CURRENT) else (offset1, anchor1))
          in if \<not> po_supportsSeek P then
               (if anchor2 = CURRENT \<and> offset2 = 0 then (Inr (ls_pos s), s) else (Inl Assertion, s))
             else
               case po_seek P offset2 anchor2 (ls_parent s) of
                 (Inl e, p) \<Rightarrow> (Inl e, s\<lparr>ls_parent := p\<rparr>)
               | (Inr n, p) \<Rightarrow> (Inr n, s\<lparr>ls_parent := p, ls_pos := n\<rparr>))"

definition LimitedStream_truncate :: "int \<Rightarrow> ('p limited, unit) io" where
  "LimitedStream_truncate sz = io_fail NotReached"

text \<open>\<open>unread_to\<close> is \<open>unread\<close> of the parent.\<close>

definition LimitedStream_unread :: "(byte list \<Rightarrow> ('p, unit) io) \<Rightarrow> byte list \<Rightarrow> ('p limited, unit) io" where
  "LimitedStream_unread unread_to b s =
     (case unread_to b (ls_parent s) of
        (Inl e, p) \<Rightarrow> (Inl e, s\<lparr>ls_parent := p\<rparr>)
      | (Inr _, p) \<Rightarrow> (Inr (), s\<lparr>ls_parent := p, ls_pos := ls_pos s - int (length b)\<rparr>))"

section \<open>CatStream\<close>

text \<open>The streams with their operations; \<open>m_it\<close> is the index of the current one.\<close>

record 'p cat =
  ct_streams :: "('p parent_ops \<times> 'p) list"
  ct_it :: nat
  ct_seekable :: bool
  ct_size :: int
  ct_pos :: int

fun cat_scan :: "('p parent_ops \<times> 'p) list \<Rightarrow> bool \<Rightarrow> int \<Rightarrow> (bool \<times> int) result \<times> ('p parent_ops \<times> 'p) list" where
  "cat_scan [] seekable sz = (Inr (seekable, sz), [])"
| "cat_scan ((P, p) # rest) seekable sz =
     (let seekable1 = (seekable \<and> po_supportsSeek P)
      in if \<not> po_supportsSeek P \<and> sz = -1 then (Inr (seekable1, sz), (P, p) # rest)
         else if \<not> po_supportsSize P then (Inr (False, -1), (P, p) # rest)
         else
           case po_size P p of
             (Inl e, p') \<Rightarrow> (Inl e, (P, p') # rest)
           | (Inr n, p') \<Rightarrow> (case cat_scan rest seekable1 (sz + n) of (r, rest') \<Rightarrow> (r, (P, p') # rest')))"

definition CatStream_new :: "('p parent_ops \<times> 'p) list \<Rightarrow> 'p cat result" where
  "CatStream_new streams =
     (case cat_scan streams True 0 of
        (Inl e, _) \<Rightarrow> Inl e
      | (Inr (seekable, sz), streams') \<Rightarrow>
          Inr \<lparr>ct_streams = streams', ct_it = 0, ct_seekable = seekable, ct_size = sz, ct_pos = 0\<rparr>)"

definition put_member :: "nat \<Rightarrow> 'p \<Rightarrow> 'p cat \<Rightarrow> 'p cat" where
  "put_member i p s = s\<lparr>ct_streams := (ct_streams s)[i := (fst (ct_streams s ! i), p)]\<rparr>"

text \<open>An operation of member \<open>i\<close>.\<close>

definition on_member :: "nat \<Rightarrow> ('p parent_ops \<Rightarrow> ('p, 'a) io) \<Rightarrow> ('p cat, 'a) io" where
  "on_member i f s = (case f (fst (ct_streams s ! i)) (snd (ct_streams s ! i)) of (r, p) \<Rightarrow> (r, put_member i p s))"

lemma on_member_keeps:
  "on_member i f s = (r, s') \<Longrightarrow> length (ct_streams s') = length (ct_streams s) \<and> ct_it s' = ct_it s \<and> ct_pos s' = ct_pos s"
  by (auto simp: on_member_def put_member_def split: prod.splits)

text \<open>Moving to the next stream, which is rewound if it can seek.\<close>

definition rewind :: "nat \<Rightarrow> ('p cat, unit) io" where
  "rewind i s =
     (if po_supportsSeek (fst (ct_streams s ! i))
      then io_bind (on_member i (\<lambda>P. po_seek P 0 BEGIN)) (\<lambda>_. io_return ()) s
      else (Inr (), s))"

lemma rewind_keeps:
  "rewind i s = (r, s') \<Longrightarrow> length (ct_streams s') = length (ct_streams s) \<and> ct_it s' = ct_it s \<and> ct_pos s' = ct_pos s"
  by (auto simp: rewind_def io_defs dest!: on_member_keeps split: if_splits prod.splits sum.splits)

function cat_read_loop :: "nat \<Rightarrow> ('p cat, byte list) io" where
  "cat_read_loop len s =
     (case on_member (ct_it s) (\<lambda>P. po_read P len) s of
        (Inl e, s1) \<Rightarrow> (Inl e, s1)
      | (Inr bs, s1) \<Rightarrow>
          let s2 = s1\<lparr>ct_pos := ct_pos s1 + int (length bs)\<rparr>
          in if bs \<noteq> [] then (Inr bs, s2)
             else
               let s3 = s2\<lparr>ct_it := ct_it s2 + 1\<rparr>
               in if ct_it s3 \<ge> length (ct_streams s3) then (Inr [], s3)
                  else
                    case rewind (ct_it s3) s3 of
                      (Inl e, s4) \<Rightarrow> (Inl e, s4)
                    | (Inr _, s4) \<Rightarrow> cat_read_loop len s4)"
  by pat_completeness auto
termination
  by (relation "measure (\<lambda>(len, s). length (ct_streams s) - ct_it s)")
    (auto dest!: on_member_keeps[OF sym] rewind_keeps[OF sym])

declare cat_read_loop.simps [simp del]

definition CatStream_read :: "nat \<Rightarrow> ('p cat, byte list) io" where
  "CatStream_read len s =
     (if len = 0 then (Inl Assertion, s)
      else if ct_it s = length (ct_streams s) then (Inr [], s)
      else cat_read_loop len s)"

text \<open>The loop of \<open>seek\<close> over the streams, from index \<open>i\<close> on.\<close>

function cat_locate :: "nat \<Rightarrow> int \<Rightarrow> int \<Rightarrow> ('p cat, unit) io" where
  "cat_locate i cursor newPos s =
     (if i \<ge> length (ct_streams s) then (Inr (), s)
      else
        case on_member i po_size s of
          (Inl e, s1) \<Rightarrow> (Inl e, s1)
        | (Inr sz, s1) \<Rightarrow>
            if newPos < cursor + sz then
              (case on_member i (\<lambda>P. po_seek P (newPos - cursor) BEGIN) (s1\<lparr>ct_it := i\<rparr>) of
                 (Inl e, s2) \<Rightarrow> (Inl e, s2)
               | (Inr _, s2) \<Rightarrow> (Inr (), s2))
            else cat_locate (Suc i) (cursor + sz) newPos s1)"
  by pat_completeness auto
termination
  by (relation "measure (\<lambda>(i, c, n, s). length (ct_streams s) - i)") (auto dest!: on_member_keeps[OF sym])

declare cat_locate.simps [simp del]

definition CatStream_seek :: "int \<Rightarrow> anchor \<Rightarrow> ('p cat, int) io" where
  "CatStream_seek offset anchor s =
     (if offset = 0 \<and> anchor = CURRENT then (Inr (ct_pos s), s)
      else if \<not> ct_seekable s then (Inl Assertion, s)
      else
        let newPos = (case anchor of BEGIN \<Rightarrow> offset | CURRENT \<Rightarrow> ct_pos s + offset | END \<Rightarrow> ct_size s + offset)
        in if newPos < 0 then (Inl InvalidArgument, s)
           else if newPos \<ge> ct_size s then (Inl InvalidArgument, s)
           else
             case cat_locate 0 0 newPos s of
               (Inl e, s1) \<Rightarrow> (Inl e, s1)
             | (Inr _, s1) \<Rightarrow> (Inr newPos, s1\<lparr>ct_pos := newPos\<rparr>))"

definition CatStream_size :: "('p cat, int) io" where
  "CatStream_size s = (if ct_size s = -1 then (Inl Assertion, s) else (Inr (ct_size s), s))"

section \<open>A limited stream gives a prefix\<close>

definition limited_rest :: "('p \<Rightarrow> byte list) \<Rightarrow> 'p limited \<Rightarrow> byte list" where
  "limited_rest rem s = take (nat (ls_size s - ls_pos s)) (rem (ls_parent s))"

lemma limited_len_small:
  assumes "ls_pos s < ls_size s" "0 \<le> ls_pos s" "ls_size s < 9223372036854775808" "len < 9223372036854775808"
  shows "limited_len len s = min len (nat (ls_size s - ls_pos s))"
proof -
  have "s64 (int len) = int len" using assms by simp
  moreover have "min (int len) (ls_size s - ls_pos s) mod 18446744073709551616 = min (int len) (ls_size s - ls_pos s)"
    using assms by simp
  ultimately show ?thesis using assms by (simp add: limited_len_def min_def le_nat_iff)
qed

lemma limited_rest_advance:
  assumes "rem p = bs @ rem p'" "length bs \<le> nat (ls_size s - ls_pos s)" "ls_parent s = p"
  shows "limited_rest rem s = bs @ limited_rest rem (s\<lparr>ls_parent := p', ls_pos := ls_pos s + int (length bs)\<rparr>)"
proof -
  have "nat (ls_size s - (ls_pos s + int (length bs))) = nat (ls_size s - ls_pos s) - length bs" by linarith
  then show ?thesis using assms by (simp add: limited_rest_def)
qed

lemma limited_rest_empty: "rem (ls_parent s) = [] \<Longrightarrow> limited_rest rem s = []"
  by (simp add: limited_rest_def)

context byte_source
begin

lemma limited_read:
  assumes P: "po_read P = read_from"
    and s: "0 \<le> ls_pos s" "ls_size s < 9223372036854775808" "len < 9223372036854775808"
  obtains r s' where "LimitedStream_read P len s = (r, s')" "ls_size s' = ls_size s"
    "\<And>bs. r = Inr bs \<Longrightarrow> limited_rest remaining s = bs @ limited_rest remaining s' \<and> length bs \<le> len \<and>
       (bs = [] \<longrightarrow> limited_rest remaining s = [] \<or> len = 0) \<and> ls_pos s' = ls_pos s + int (length bs)"
    "\<And>e. r = Inl e \<Longrightarrow> e = UnexpectedEof \<and> ls_strict s \<and> ls_pos s < ls_size s \<and> (remaining (ls_parent s) = [] \<or> len = 0)"
proof (cases "ls_pos s \<ge> ls_size s")
  case True
  then show ?thesis by (intro that[of "Inr []" s]) (simp_all add: LimitedStream_read_def limited_rest_def)
next
  case False
  let ?n = "limited_len len s"
  have n: "?n = min len (nat (ls_size s - ls_pos s))" using False s limited_len_small[of s len] by simp
  obtain bs p' where r: "read_from ?n (ls_parent s) = (Inr bs, p')" "remaining (ls_parent s) = bs @ remaining p'"
      "length bs \<le> ?n" "0 < ?n \<Longrightarrow> bs = [] \<Longrightarrow> remaining (ls_parent s) = []"
    using read_cases[of ?n "ls_parent s"] by blast
  have eof: "bs = [] \<Longrightarrow> remaining (ls_parent s) = [] \<or> len = 0" using r(4) False n by auto
  show ?thesis
  proof (cases "bs = [] \<and> ls_strict s")
    case True
    then show ?thesis using False eof
      by (intro that[of "Inl UnexpectedEof" "s\<lparr>ls_parent := p'\<rparr>"]) (simp_all add: LimitedStream_read_def P r(1))
  next
    case ok: False
    have "limited_rest remaining s = bs @ limited_rest remaining (s\<lparr>ls_parent := p', ls_pos := ls_pos s + int (length bs)\<rparr>)"
      using limited_rest_advance[where rem = remaining, OF r(2) _ refl] r(3) n by simp
    moreover have "length bs \<le> len" using r(3) n by simp
    ultimately show ?thesis using False ok eof limited_rest_empty[of remaining s]
      by (intro that[of "Inr bs" "s\<lparr>ls_parent := p', ls_pos := ls_pos s + int (length bs)\<rparr>"])
        (auto simp: LimitedStream_read_def P r(1))
  qed
qed

end



text \<open>
  The limit is lost in two ways. A read of \<open>2\<^sup>6\<^sup>3\<close> bytes or more, such as the length \<open>~0\<close>, is
  not limited at all: the length becomes negative when it is compared with the limit, and large
  again when it is passed on. And \<open>tell\<close> on a limited stream whose parent does not start at
  position 0 sets the position of the limited stream to that of the parent, so that what is left
  below the limit can no longer be read.
\<close>

lemma limited_stream_flaws:
  "fst (LimitedStream_read memory_ops npos
     \<lparr>ls_pos = 0, ls_size = 3, ls_strict = False, ls_parent = MemoryStream_ofBuffer ''abcdef''\<rparr>) = Inr ''abcdef'' \<and>
   (let p = snd (MemoryStream_read 4 (MemoryStream_ofBuffer ''abcdef''));
       s = \<lparr>ls_pos = 0, ls_size = 2, ls_strict = False, ls_parent = p\<rparr>
   in fst (LimitedStream_read memory_ops 2 s) = Inr ''ef'' \<and>
      fst (LimitedStream_read memory_ops 2 (snd (LimitedStream_seek (\<lambda>_. False) memory_ops 0 CURRENT s))) = Inr [])"
  by (simp add: LimitedStream_read_def LimitedStream_seek_def limited_len_def buffered_eval)

section \<open>A cat stream gives the concatenation\<close>

text \<open>
  A member of a \<open>CatStream\<close>: a source of bytes that, if it can seek, is rewound to all of its data
  by a seek to 0.
\<close>

locale cat_member = byte_source "po_read P" remaining
  for P :: "'p parent_ops" and remaining :: "'p \<Rightarrow> byte list" +
  fixes full :: "'p \<Rightarrow> byte list"
  assumes rewound: "po_supportsSeek P \<Longrightarrow> \<exists>n p'. po_seek P 0 BEGIN p = (Inr n, p') \<and> remaining p' = full p"
    and not_rewound: "\<not> po_supportsSeek P \<Longrightarrow> full p = remaining p"

interpretation memory_member: cat_member memory_ops ms_read ms_original
  by unfold_locales
    (auto simp: memory_ops_def memory_source.read_prefix lift_memory_def MemoryStream_seek_def MemoryStream_seekBegin_def
      npos_def dest: memory_source.read_progress)

definition cat_rest :: "('p \<Rightarrow> byte list) \<Rightarrow> ('p \<Rightarrow> byte list) \<Rightarrow> 'p cat \<Rightarrow> byte list" where
  "cat_rest rem full s =
     (case drop (ct_it s) (ct_streams s) of [] \<Rightarrow> [] | (P, p) # later \<Rightarrow> rem p @ concat (map (\<lambda>(P, p). full p) later))"

lemma cat_rest_split:
  assumes "ct_streams s = pre @ (P, p) # later" "length pre = ct_it s"
  shows "cat_rest rem full s = rem p @ concat (map (\<lambda>(P, p). full p) later)"
  using assms(1) unfolding cat_rest_def assms(2)[symmetric] by simp

lemma cat_rest_end: "length (ct_streams s) \<le> ct_it s \<Longrightarrow> cat_rest rem full s = []"
  by (simp add: cat_rest_def)

lemma on_member_split:
  assumes "ct_streams s = pre @ (P, p) # later" "length pre = i" "f P p = (r, p')"
  shows "on_member i f s = (r, s\<lparr>ct_streams := pre @ (P, p') # later\<rparr>)"
  using assms by (auto simp: on_member_def put_member_def nth_append list_update_append)

lemma rewind_split:
  assumes "cat_member P rem full" "ct_streams s = pre @ (P, p) # later" "length pre = i"
  obtains p' where "rewind i s = (Inr (), s\<lparr>ct_streams := pre @ (P, p') # later\<rparr>)" "rem p' = full p"
proof -
  have P: "fst (ct_streams s ! i) = P" using assms(2,3) by (auto simp: nth_append)
  show ?thesis
  proof (cases "po_supportsSeek P")
    case True
    then obtain n p' where r: "po_seek P 0 BEGIN p = (Inr n, p')" "rem p' = full p"
      using cat_member.rewound[OF assms(1)] by blast
    have "on_member i (\<lambda>P. po_seek P 0 BEGIN) s = (Inr n, s\<lparr>ct_streams := pre @ (P, p') # later\<rparr>)"
      by (rule on_member_split[OF assms(2-)]) (rule r(1))
    then show ?thesis using that[of p'] r(2) True P by (simp add: rewind_def io_defs)
  next
    case False
    moreover have "s = s\<lparr>ct_streams := pre @ (P, p) # later\<rparr>" using assms(2) by simp
    ultimately show ?thesis using that[of p] P cat_member.not_rewound[OF assms(1) False, of p] by (simp add: rewind_def)
  qed
qed

lemma cat_loop_stop:
  assumes "on_member (ct_it s) (\<lambda>P. po_read P len) s = (Inr bs, s1)" "bs \<noteq> []"
  shows "cat_read_loop len s = (Inr bs, s1\<lparr>ct_pos := ct_pos s1 + int (length bs)\<rparr>)"
  using assms by (subst cat_read_loop.simps) simp

lemma cat_loop_end:
  assumes "on_member (ct_it s) (\<lambda>P. po_read P len) s = (Inr [], s1)" "ct_it s1 + 1 \<ge> length (ct_streams s1)"
  shows "cat_read_loop len s = (Inr [], s1\<lparr>ct_it := ct_it s1 + 1\<rparr>)"
  using assms by (subst cat_read_loop.simps) simp

lemma cat_loop_next:
  assumes "on_member (ct_it s) (\<lambda>P. po_read P len) s = (Inr [], s1)" "ct_it s1 + 1 < length (ct_streams s1)"
    and "rewind (ct_it s1 + 1) (s1\<lparr>ct_it := ct_it s1 + 1\<rparr>) = (Inr u, s2)"
  shows "cat_read_loop len s = cat_read_loop len s2"
  using assms by (subst cat_read_loop.simps) simp

lemma cat_read_loop_concat:
  assumes "\<forall>(P, p) \<in> set ((P, p) # later). cat_member P rem full" "0 < len"
    and "ct_streams s = pre @ (P, p) # later" "length pre = ct_it s"
  shows "\<exists>bs s'. cat_read_loop len s = (Inr bs, s') \<and> cat_rest rem full s = bs @ cat_rest rem full s' \<and> length bs \<le> len \<and>
    (bs = [] \<longrightarrow> cat_rest rem full s = []) \<and> ct_pos s' = ct_pos s + int (length bs)"
  using assms
proof (induction later arbitrary: P p pre s)
  case (Nil P p pre s)
  have src: "byte_source (po_read P) rem" using Nil.prems(1) by (simp add: cat_member_def)
  obtain bs p' where r: "po_read P len p = (Inr bs, p')" "rem p = bs @ rem p'" "length bs \<le> len" "bs = [] \<Longrightarrow> rem p = []"
    using byte_source.read_cases[OF src, of len p] Nil.prems(2) by blast
  note m = on_member_split[where f = "\<lambda>P. po_read P len", OF Nil.prems(3,4) r(1)]
  show ?case
  proof (cases "bs = []")
    case True
    have "cat_rest rem full (s\<lparr>ct_streams := pre @ [(P, p')], ct_it := ct_it s + 1\<rparr>) = []"
      by (rule cat_rest_end) (use Nil.prems(4) in simp)
    then show ?thesis using cat_loop_end[OF m[unfolded True]] Nil.prems(4) cat_rest_split[OF Nil.prems(3,4)] r True by simp
  next
    case False
    let ?s' = "s\<lparr>ct_streams := pre @ (P, p') # [], ct_pos := ct_pos s + int (length bs)\<rparr>"
    have "cat_rest rem full ?s' = rem p'" using cat_rest_split[of ?s' pre P p' "[]" rem full] Nil.prems(4) by simp
    then show ?thesis using cat_loop_stop[OF m False] cat_rest_split[OF Nil.prems(3,4)] r False by simp
  qed
next
  case (Cons m later P p pre s)
  obtain Q q where mq: "m = (Q, q)" by (cases m)
  have src: "byte_source (po_read P) rem" and Q: "cat_member Q rem full"
    and rest: "\<forall>(P, p) \<in> set ((Q, q') # later). cat_member P rem full" for q'
    using Cons.prems(1) by (auto simp: cat_member_def mq)
  obtain bs p' where r: "po_read P len p = (Inr bs, p')" "rem p = bs @ rem p'" "length bs \<le> len" "bs = [] \<Longrightarrow> rem p = []"
    using byte_source.read_cases[OF src, of len p] Cons.prems(2) by blast
  note mem = on_member_split[where f = "\<lambda>P. po_read P len", OF Cons.prems(3,4) r(1)]
  show ?case
  proof (cases "bs = []")
    case False
    let ?s' = "s\<lparr>ct_streams := pre @ (P, p') # m # later, ct_pos := ct_pos s + int (length bs)\<rparr>"
    have "cat_rest rem full ?s' = rem p' @ concat (map (\<lambda>(P, p). full p) (m # later))"
      by (rule cat_rest_split[where P = P and pre = pre]) (use Cons.prems(4) in simp_all)
    then show ?thesis using cat_loop_stop[OF mem False] cat_rest_split[OF Cons.prems(3,4)] r False by simp
  next
    case True
    let ?s1 = "s\<lparr>ct_streams := pre @ (P, p') # m # later, ct_it := ct_it s + 1\<rparr>"
    obtain q' where q': "rewind (ct_it s + 1) ?s1 = (Inr (), ?s1\<lparr>ct_streams := (pre @ [(P, p')]) @ (Q, q') # later\<rparr>)" "rem q' = full q"
      using rewind_split[OF Q, of ?s1 "pre @ [(P, p')]" q later "ct_it s + 1"] Cons.prems(4) by (auto simp: mq)
    let ?s2 = "?s1\<lparr>ct_streams := (pre @ [(P, p')]) @ (Q, q') # later\<rparr>"
    have "cat_read_loop len s = cat_read_loop len ?s2"
      using cat_loop_next[OF mem[unfolded True], of "()" ?s2] q'(1) Cons.prems(4) by simp
    moreover have "cat_rest rem full ?s2 = rem q' @ concat (map (\<lambda>(P, p). full p) later)"
      by (rule cat_rest_split[where P = Q and pre = "pre @ [(P, p')]"]) (use Cons.prems(4) in simp_all)
    then have "cat_rest rem full s = cat_rest rem full ?s2"
      using cat_rest_split[OF Cons.prems(3,4), of rem full] True r(4) q'(2) by (simp add: mq)
    ultimately show ?thesis using Cons.IH[OF rest Cons.prems(2), of ?s2 "pre @ [(P, p')]" q'] Cons.prems(4) by simp
  qed
qed

text \<open>
  C31. A \<open>CatStream\<close> is the concatenation of its members: for members that are sources of bytes,
  rewound when they can seek, a read takes the next bytes of what is left of the current member
  followed by all of the later ones. It returns, without an error, and gives nothing only at the
  end of the last member; the position moves by the number of bytes read.
\<close>

theorem cat_read_concatenates:
  assumes "\<forall>(P, p) \<in> set (ct_streams s). cat_member P rem full" "ct_it s \<le> length (ct_streams s)" "0 < len"
  shows "\<exists>bs s'. CatStream_read len s = (Inr bs, s') \<and> cat_rest rem full s = bs @ cat_rest rem full s' \<and> length bs \<le> len \<and>
    (bs = [] \<longrightarrow> cat_rest rem full s = []) \<and> ct_pos s' = ct_pos s + int (length bs)"
proof (cases "ct_it s = length (ct_streams s)")
  case True
  then show ?thesis using assms(3) by (simp add: CatStream_read_def cat_rest_def)
next
  case False
  then have i: "ct_it s < length (ct_streams s)" using assms(2) by simp
  obtain P p where m: "ct_streams s ! ct_it s = (P, p)" by (cases "ct_streams s ! ct_it s")
  have split: "ct_streams s = take (ct_it s) (ct_streams s) @ (P, p) # drop (Suc (ct_it s)) (ct_streams s)"
    using id_take_nth_drop[OF i] m by simp
  have "(P, p) \<in> set (ct_streams s)" using m i nth_mem by metis
  then have "\<forall>(P, p) \<in> set ((P, p) # drop (Suc (ct_it s)) (ct_streams s)). cat_member P rem full"
    using assms(1) by (auto dest!: in_set_dropD)
  from cat_read_loop_concat[OF this assms(3) split] i show ?thesis using assms(3) by (simp add: CatStream_read_def)
qed

theorem cat_read_concatenates_witness:
  "let s = \<lparr>ct_streams = [(memory_ops, MemoryStream_ofBuffer []), (memory_ops, MemoryStream_ofBuffer ''ab'')],
            ct_it = 0, ct_seekable = True, ct_size = 2, ct_pos = 0\<rparr>
   in \<exists>bs s'. CatStream_read 3 s = (Inr bs, s') \<and> ''ab'' = bs @ cat_rest ms_read ms_original s' \<and> bs \<noteq> []"
proof -
  let ?s = "\<lparr>ct_streams = [(memory_ops, MemoryStream_ofBuffer []), (memory_ops, MemoryStream_ofBuffer ''ab'')],
            ct_it = 0, ct_seekable = True, ct_size = 2, ct_pos = 0\<rparr>"
  have r: "cat_rest ms_read ms_original ?s = ''ab''" by (simp add: cat_rest_def MemoryStream_ofBuffer_def)
  have "\<forall>(P, p) \<in> set (ct_streams ?s). cat_member P ms_read ms_original" by (simp add: memory_member.cat_member_axioms)
  from cat_read_concatenates[OF this, of 3] show ?thesis unfolding r by (auto simp: Let_def)
qed

end
