(* ===== verification/Parallel.thy ===== *)
theory Parallel
  imports Prelude "HOL-Library.Multiset"
begin

text \<open>
  \<open>parallel_do\<close> of parallel.cpp and \<open>parallel_foreach\<close> of parallel.h: a caller starts fibers, each of
  which runs functors, and goes on when the last one is finished. The fibers are a state machine: a
  step runs one fiber up to its next action on what the fibers share. A functor is a function on the
  data the functors share that may throw.
\<close>

type_synonym 'd delegate = "'d \<Rightarrow> unit result \<times> 'd"

section \<open>parallel\_do\<close>

text \<open>Where a fiber is in \<open>parallel_do_impl\<close>.\<close>

datatype do_stage = DoWait | DoRun | DoNotify | DoCount | DoExit

record 'd do_state =
  pd_stage :: "do_stage list"
  pd_exceptions :: "error option list"
  pd_completed :: nat
  pd_total :: nat
  pd_sem :: "nat option"
  pd_caller :: nat
  pd_data :: 'd

definition set_stage :: "nat \<Rightarrow> do_stage \<Rightarrow> 'd do_state \<Rightarrow> 'd do_state" where
  "set_stage i st s = s\<lparr>pd_stage := (pd_stage s)[i := st]\<rparr>"

definition caught :: "nat \<Rightarrow> unit result \<Rightarrow> error option list \<Rightarrow> error option list" where
  "caught i r ex = (case r of Inl e \<Rightarrow> ex[i := Some e] | Inr _ \<Rightarrow> ex)"

text \<open>The next action of fiber \<open>i\<close>; it has none while it waits for the semaphore and when it has exited.\<close>

definition parallel_do_impl :: "'d delegate list \<Rightarrow> nat \<Rightarrow> 'd do_state \<Rightarrow> 'd do_state option" where
  "parallel_do_impl dgs i s =
     (case pd_stage s ! i of
        DoWait \<Rightarrow>
          (case pd_sem s of
             None \<Rightarrow> Some (set_stage i DoRun s)
           | Some k \<Rightarrow> if k = 0 then None else Some (set_stage i DoRun (s\<lparr>pd_sem := Some (k - 1)\<rparr>)))
      | DoRun \<Rightarrow>
          (case (dgs ! i) (pd_data s) of
             (r, d) \<Rightarrow> Some (set_stage i DoNotify (s\<lparr>pd_data := d, pd_exceptions := caught i r (pd_exceptions s)\<rparr>)))
      | DoNotify \<Rightarrow> Some (set_stage i DoCount (s\<lparr>pd_sem := map_option Suc (pd_sem s)\<rparr>))
      | DoCount \<Rightarrow>
          (let completed = pd_completed s + 1
           in Some (set_stage i DoExit (s\<lparr>pd_completed := completed,
                pd_caller := (if completed = pd_total s then pd_caller s + 1 else pd_caller s)\<rparr>)))
      | DoExit \<Rightarrow> None)"

text \<open>What the caller does before it yields.\<close>

definition parallel_do_start :: "int \<Rightarrow> 'd delegate list \<Rightarrow> 'd \<Rightarrow> 'd do_state result" where
  "parallel_do_start parallelism dgs d =
     ensure (parallelism \<noteq> 0)
       (Inr \<lparr>pd_stage = replicate (length dgs) DoWait, pd_exceptions = replicate (length dgs) None,
             pd_completed = 0, pd_total = length dgs,
             pd_sem = (if parallelism \<noteq> -1 then Some (nat (parallelism mod 18446744073709551616)) else None),
             pd_caller = 0, pd_data = d\<rparr>)"

text \<open>What it does when it is resumed: the first exception is passed along.\<close>

fun rethrow_first :: "error option list \<Rightarrow> unit result" where
  "rethrow_first [] = Inr ()"
| "rethrow_first (Some e # ex) = Inl e"
| "rethrow_first (None # ex) = rethrow_first ex"

text \<open>Without a scheduler, or for one functor, the functors run one after the other.\<close>

fun parallel_do_seq :: "'d delegate list \<Rightarrow> 'd delegate" where
  "parallel_do_seq [] d = (Inr (), d)"
| "parallel_do_seq (dg # dgs) d = (case dg d of (Inl e, d') \<Rightarrow> (Inl e, d') | (Inr _, d') \<Rightarrow> parallel_do_seq dgs d')"

text \<open>The runs of the fibers, with the number of steps.\<close>

inductive do_run :: "'d delegate list \<Rightarrow> 'd do_state \<Rightarrow> nat \<Rightarrow> 'd do_state \<Rightarrow> bool" for dgs s0 where
  start: "do_run dgs s0 0 s0"
| step: "do_run dgs s0 n s \<Longrightarrow> i < length dgs \<Longrightarrow> parallel_do_impl dgs i s = Some s' \<Longrightarrow> do_run dgs s0 (Suc n) s'"

section \<open>parallel\_foreach\<close>

text \<open>Where a fiber is in \<open>parallel_foreach_impl\<close>; the functor is called on, or threw for, an element.\<close>

datatype each_stage = EachLoop | EachCall nat | EachCatch error | EachBreak | EachExit

record 'd each_state =
  pe_stage :: "each_stage list"
  pe_begin :: nat
  pe_end :: nat
  pe_exception :: "error option"
  pe_count :: int
  pe_caller :: nat
  pe_data :: 'd

definition put_stage :: "nat \<Rightarrow> each_stage \<Rightarrow> 'd each_state \<Rightarrow> 'd each_state" where
  "put_stage i st s = s\<lparr>pe_stage := (pe_stage s)[i := st]\<rparr>"

definition parallel_foreach_impl :: "(nat \<Rightarrow> 'd delegate) \<Rightarrow> nat \<Rightarrow> 'd each_state \<Rightarrow> 'd each_state option" where
  "parallel_foreach_impl functr i s =
     (case pe_stage s ! i of
        EachLoop \<Rightarrow>
          if pe_begin s = pe_end s \<or> pe_exception s \<noteq> None then Some (put_stage i EachBreak s)
          else Some (put_stage i (EachCall (pe_begin s)) (s\<lparr>pe_begin := pe_begin s + 1\<rparr>))
      | EachCall j \<Rightarrow>
          (case functr j (pe_data s) of
             (Inl e, d) \<Rightarrow> Some (put_stage i (EachCatch e) (s\<lparr>pe_data := d\<rparr>))
           | (Inr _, d) \<Rightarrow> Some (put_stage i EachLoop (s\<lparr>pe_data := d\<rparr>)))
      | EachCatch e \<Rightarrow> Some (put_stage i EachBreak (s\<lparr>pe_exception := Some e\<rparr>))
      | EachBreak \<Rightarrow>
          (let count = pe_count s - 1
           in Some (put_stage i EachExit (s\<lparr>pe_count := count, pe_caller := (if count = 0 then pe_caller s + 1 else pe_caller s)\<rparr>)))
      | EachExit \<Rightarrow> None)"

text \<open>\<open>parallelism\<close> fibers over \<open>n\<close> elements; no fiber is started when the number is not positive.\<close>

definition parallel_foreach_start :: "int \<Rightarrow> nat \<Rightarrow> 'd \<Rightarrow> 'd each_state" where
  "parallel_foreach_start parallelism n d =
     (let fibers = (if parallelism = -1 then 4 else parallelism)
      in \<lparr>pe_stage = replicate (nat fibers) EachLoop, pe_begin = 0, pe_end = n, pe_exception = None,
          pe_count = fibers, pe_caller = 0, pe_data = d\<rparr>)"

definition parallel_foreach_result :: "'d each_state \<Rightarrow> unit result" where
  "parallel_foreach_result s = (case pe_exception s of None \<Rightarrow> Inr () | Some e \<Rightarrow> Inl e)"

text \<open>The branch without a scheduler, from element \<open>b\<close> on.\<close>

fun parallel_foreach_seq :: "(nat \<Rightarrow> 'd delegate) \<Rightarrow> nat list \<Rightarrow> 'd delegate" where
  "parallel_foreach_seq functr [] d = (Inr (), d)"
| "parallel_foreach_seq functr (j # js) d =
     (case functr j d of (Inl e, d') \<Rightarrow> (Inl e, d') | (Inr _, d') \<Rightarrow> parallel_foreach_seq functr js d')"

inductive each_run :: "(nat \<Rightarrow> 'd delegate) \<Rightarrow> 'd each_state \<Rightarrow> nat \<Rightarrow> 'd each_state \<Rightarrow> bool" for functr s0 where
  each_start: "each_run functr s0 0 s0"
| each_step: "each_run functr s0 n s \<Longrightarrow> i < length (pe_stage s) \<Longrightarrow> parallel_foreach_impl functr i s = Some s' \<Longrightarrow>
    each_run functr s0 (Suc n) s'"

section \<open>Every fiber runs once and the caller goes on once\<close>

fun do_rank :: "do_stage \<Rightarrow> nat" where
  "do_rank DoWait = 4" | "do_rank DoRun = 3" | "do_rank DoNotify = 2" | "do_rank DoCount = 1" | "do_rank DoExit = 0"

definition do_inside :: "do_stage \<Rightarrow> nat" where
  "do_inside st = (if st = DoRun \<or> st = DoNotify then 1 else 0)"

definition do_exited :: "do_stage \<Rightarrow> nat" where
  "do_exited st = (if st = DoExit then 1 else 0)"

text \<open>Running the functors in some order, catching what they throw.\<close>

definition run_in_order :: "'d delegate list \<Rightarrow> nat list \<Rightarrow> 'd \<Rightarrow> 'd \<times> error option list" where
  "run_in_order dgs order d =
     fold (\<lambda>i (d, ex). case (dgs ! i) d of (r, d') \<Rightarrow> (d', caught i r ex)) order (d, replicate (length dgs) None)"

definition do_counts :: "'d delegate list \<Rightarrow> nat option \<Rightarrow> nat \<Rightarrow> 'd do_state \<Rightarrow> bool" where
  "do_counts dgs permits n s \<longleftrightarrow>
     length (pd_stage s) = length dgs \<and> pd_total s = length dgs \<and>
     n + tally do_rank (pd_stage s) = 4 * length dgs \<and>
     pd_completed s = tally do_exited (pd_stage s) \<and>
     pd_caller s = (if pd_completed s = length dgs then 1 else 0) \<and>
     permits = map_option (\<lambda>j. j + tally do_inside (pd_stage s)) (pd_sem s)"

definition fibers_ran :: "'d do_state \<Rightarrow> nat set" where
  "fibers_ran s = {i. i < length (pd_stage s) \<and> pd_stage s ! i \<noteq> DoWait \<and> pd_stage s ! i \<noteq> DoRun}"

definition do_order :: "'d delegate list \<Rightarrow> 'd \<Rightarrow> 'd do_state \<Rightarrow> bool" where
  "do_order dgs d0 s \<longleftrightarrow>
     (\<exists>order. distinct order \<and> set order = fibers_ran s \<and> run_in_order dgs order d0 = (pd_data s, pd_exceptions s))"

lemma do_start:
  assumes "parallel_do_start parallelism dgs d = Inr s" "dgs \<noteq> []"
  shows "do_counts dgs (pd_sem s) 0 s" "do_order dgs d s"
proof -
  have s: "pd_stage s = replicate (length dgs) DoWait" "pd_completed s = 0" "pd_caller s = 0" "pd_total s = length dgs"
      "run_in_order dgs [] d = (pd_data s, pd_exceptions s)"
    using assms(1) by (auto simp: parallel_do_start_def ensure_def run_in_order_def split: if_splits)
  show "do_counts dgs (pd_sem s) 0 s"
    using s assms(2) by (simp add: do_counts_def do_exited_def do_inside_def option.map_ident)
  show "do_order dgs d s" unfolding do_order_def using s by (intro exI[of _ "[]"]) (simp add: fibers_ran_def)
qed

text \<open>The invariant after a step that takes fiber \<open>i\<close> to stage \<open>st\<close>, counted.\<close>

lemma do_tallies:
  assumes "i < length (pd_stage s)"
  shows "tally do_rank ((pd_stage s)[i := st]) + do_rank (pd_stage s ! i) = tally do_rank (pd_stage s) + do_rank st"
    "tally do_exited ((pd_stage s)[i := st]) + do_exited (pd_stage s ! i) = tally do_exited (pd_stage s) + do_exited st"
    "tally do_inside ((pd_stage s)[i := st]) + do_inside (pd_stage s ! i) = tally do_inside (pd_stage s) + do_inside st"
  using assms by (simp_all add: tally_update)

lemma exited_less:
  assumes "i < length st" "st ! i \<noteq> DoExit"
  shows "tally do_exited st < length st"
proof -
  have "tally do_exited (st[i := DoExit]) \<le> length st"
    using tally_mono[of "st[i := DoExit]" do_exited "\<lambda>_. 1"] tally_length[of "st[i := DoExit]"] by (simp add: do_exited_def)
  then show ?thesis using tally_update[OF assms(1), of do_exited DoExit] assms(2) by (simp add: do_exited_def)
qed

lemma ran_after:
  assumes "i < length (pd_stage s)" "pd_stage s' = (pd_stage s)[i := st]"
  shows "fibers_ran s' = (if st \<noteq> DoWait \<and> st \<noteq> DoRun then insert i (fibers_ran s) else fibers_ran s - {i})"
  using assms by (auto simp: fibers_ran_def nth_list_update split: if_splits)

text \<open>The cases of a step.\<close>

lemma do_step_cases:
  assumes "parallel_do_impl dgs i s = Some s'"
  obtains (wait) "pd_stage s ! i = DoWait" "s' = set_stage i DoRun (s\<lparr>pd_sem := map_option (\<lambda>k. k - 1) (pd_sem s)\<rparr>)" "pd_sem s \<noteq> Some 0"
  | (run) r d where "pd_stage s ! i = DoRun" "(dgs ! i) (pd_data s) = (r, d)"
      "s' = set_stage i DoNotify (s\<lparr>pd_data := d, pd_exceptions := caught i r (pd_exceptions s)\<rparr>)"
  | (notify) "pd_stage s ! i = DoNotify" "s' = set_stage i DoCount (s\<lparr>pd_sem := map_option Suc (pd_sem s)\<rparr>)"
  | (count) "pd_stage s ! i = DoCount" "s' = set_stage i DoExit (s\<lparr>pd_completed := pd_completed s + 1,
      pd_caller := (if pd_completed s + 1 = pd_total s then pd_caller s + 1 else pd_caller s)\<rparr>)"
proof (cases "pd_stage s ! i")
  case DoWait
  have "set_stage i DoRun (s\<lparr>pd_sem := map_option (\<lambda>k. k - 1) (pd_sem s)\<rparr>) = s'" "pd_sem s \<noteq> Some 0"
    using assms DoWait by (cases "pd_sem s"; auto simp: parallel_do_impl_def set_stage_def split: if_splits)+
  then show ?thesis using that(1)[OF DoWait] by simp
next
  case DoRun
  then show ?thesis using assms that(2) by (auto simp: parallel_do_impl_def split: prod.splits)
next
  case DoNotify
  then show ?thesis using assms that(3) by (auto simp: parallel_do_impl_def)
next
  case DoCount
  then show ?thesis using assms that(4) by (auto simp: parallel_do_impl_def Let_def)
next
  case DoExit
  then show ?thesis using assms by (simp add: parallel_do_impl_def)
qed

lemma do_counts_step:
  assumes inv: "do_counts dgs permits n s" and i: "i < length dgs" and step: "parallel_do_impl dgs i s = Some s'"
  shows "do_counts dgs permits (Suc n) s'"
proof -
  have len: "i < length (pd_stage s)" "length (pd_stage s) = length dgs" using inv i by (simp_all add: do_counts_def)
  note t = do_tallies[OF len(1)] and ex = exited_less[OF len(1)]
  from step show ?thesis
  proof (cases rule: do_step_cases)
    case wait
    then show ?thesis using inv t[of DoRun]
      by (cases "pd_sem s") (auto simp: do_counts_def set_stage_def do_exited_def do_inside_def)
  next
    case run
    then show ?thesis using inv t[of DoNotify]
      by (cases "pd_sem s") (auto simp: do_counts_def set_stage_def do_exited_def do_inside_def)
  next
    case notify
    then show ?thesis using inv t[of DoCount]
      by (cases "pd_sem s") (auto simp: do_counts_def set_stage_def do_exited_def do_inside_def)
  next
    case count
    then show ?thesis using inv t[of DoExit] ex
      by (cases "pd_sem s") (auto simp: do_counts_def set_stage_def do_exited_def do_inside_def)
  qed
qed

lemma do_order_step:
  assumes inv: "do_order dgs d0 s" and i: "i < length (pd_stage s)" and step: "parallel_do_impl dgs i s = Some s'"
  shows "do_order dgs d0 s'"
proof -
  obtain order where o: "distinct order" "set order = fibers_ran s" "run_in_order dgs order d0 = (pd_data s, pd_exceptions s)"
    using inv by (auto simp: do_order_def)
  have keep: "do_order dgs d0 s'" if "fibers_ran s' = fibers_ran s" "pd_data s' = pd_data s" "pd_exceptions s' = pd_exceptions s"
    using o that by (auto simp: do_order_def)
  have i': "i \<in> fibers_ran s \<longleftrightarrow> pd_stage s ! i \<noteq> DoWait \<and> pd_stage s ! i \<noteq> DoRun" using i by (simp add: fibers_ran_def)
  from step show ?thesis
  proof (cases rule: do_step_cases)
    case wait
    then show ?thesis using ran_after[OF i, of s' DoRun] i' by (intro keep) (auto simp: set_stage_def)
  next
    case (run r d)
    then have "set (order @ [i]) = fibers_ran s'" using o(2) ran_after[OF i, of s' DoNotify] by (simp add: set_stage_def)
    moreover have "distinct (order @ [i])" using o(1,2) run(1) i' by simp
    moreover have "run_in_order dgs (order @ [i]) d0 = (pd_data s', pd_exceptions s')"
      using o(3) run by (simp add: run_in_order_def set_stage_def)
    ultimately show ?thesis unfolding do_order_def by blast
  next
    case notify
    then show ?thesis using ran_after[OF i, of s' DoCount] i' by (intro keep) (auto simp: set_stage_def)
  next
    case count
    then show ?thesis using ran_after[OF i, of s' DoExit] i' by (intro keep) (auto simp: set_stage_def)
  qed
qed

lemma do_run_inv:
  assumes "do_run dgs s0 n s" "do_counts dgs permits 0 s0" "do_order dgs d0 s0"
  shows "do_counts dgs permits n s \<and> do_order dgs d0 s"
  using assms
proof (induction rule: do_run.induct)
  case (step n s i s')
  then have inv: "do_counts dgs permits n s" "do_order dgs d0 s" by simp_all
  then have "i < length (pd_stage s)" using step.hyps(2) by (simp add: do_counts_def)
  then show ?case using do_counts_step[OF inv(1) step.hyps(2,3)] do_order_step[OF inv(2) _ step.hyps(3)] by simp
qed simp

lemma do_progress:
  assumes inv: "do_counts dgs permits n s" and "permits \<noteq> Some 0" "\<exists>st \<in> set (pd_stage s). st \<noteq> DoExit"
  shows "\<exists>i s'. i < length dgs \<and> parallel_do_impl dgs i s = Some s'"
proof (cases "\<exists>i < length dgs. pd_stage s ! i \<noteq> DoExit \<and> pd_stage s ! i \<noteq> DoWait")
  case True
  then obtain i where "i < length dgs" "pd_stage s ! i \<noteq> DoExit" "pd_stage s ! i \<noteq> DoWait" by blast
  then show ?thesis
    by (intro exI[of _ i]) (cases "pd_stage s ! i"; cases "(dgs ! i) (pd_data s)"; simp add: parallel_do_impl_def Let_def)
next
  case False
  have len: "length (pd_stage s) = length dgs" using inv by (simp add: do_counts_def)
  obtain i where i: "i < length dgs" "pd_stage s ! i = DoWait" using False assms(3) len by (metis in_set_conv_nth)
  have "tally do_inside (pd_stage s) = 0" using False len by (fastforce simp: tally_zero do_inside_def in_set_conv_nth)
  then have "pd_sem s \<noteq> Some 0" using inv assms(2) by (cases "pd_sem s") (auto simp: do_counts_def)
  then show ?thesis using i by (intro exI[of _ i]) (auto simp: parallel_do_impl_def split: option.splits)
qed

text \<open>
  C29. \<open>parallel_do\<close> with several functors under a scheduler runs each functor once and always
  comes back, however the fibers are interleaved. At any time no more functors run than
  \<open>parallelism\<close> allows, the caller has been scheduled if and only if every fiber has finished, and
  then once, and as long as a fiber has not finished some fiber can go on; every run takes at most
  four steps per functor. When all have finished, the shared data and the exceptions are those of
  running all of the functors in some order.
\<close>

theorem parallel_do_completes:
  assumes "parallel_do_start parallelism dgs d = Inr s0" "1 < length dgs" "-1 \<le> parallelism" "parallelism < 2 ^ 31"
    and "do_run dgs s0 n s"
  shows "(parallelism \<noteq> -1 \<longrightarrow> int (tally do_inside (pd_stage s)) \<le> parallelism) \<and>
    pd_caller s = (if \<forall>st \<in> set (pd_stage s). st = DoExit then 1 else 0) \<and>
    ((\<exists>st \<in> set (pd_stage s). st \<noteq> DoExit) \<longrightarrow> (\<exists>i s'. i < length dgs \<and> parallel_do_impl dgs i s = Some s')) \<and>
    n \<le> 4 * length dgs \<and>
    ((\<forall>st \<in> set (pd_stage s). st = DoExit) \<longrightarrow>
      (\<exists>order. distinct order \<and> set order = {..<length dgs} \<and> run_in_order dgs order d = (pd_data s, pd_exceptions s)))"
proof -
  have ne: "dgs \<noteq> []" using assms(2) by auto
  have start: "parallelism \<noteq> 0" "pd_sem s0 = (if parallelism \<noteq> -1 then Some (nat (parallelism mod 18446744073709551616)) else None)"
    using assms(1) by (auto simp: parallel_do_start_def ensure_def split: if_splits)
  have sem0: "pd_sem s0 = (if parallelism \<noteq> -1 then Some (nat parallelism) else None)" "pd_sem s0 \<noteq> Some 0"
    using start assms(3,4) by auto
  have inv: "do_counts dgs (pd_sem s0) n s" "do_order dgs d s"
    using do_run_inv[OF assms(5) do_start[OF assms(1) ne]] by simp_all
  have len: "length (pd_stage s) = length dgs" using inv(1) by (simp add: do_counts_def)
  have all: "pd_completed s = length dgs \<longleftrightarrow> (\<forall>st \<in> set (pd_stage s). st = DoExit)"
  proof
    assume "pd_completed s = length dgs"
    then show "\<forall>st \<in> set (pd_stage s). st = DoExit"
      using exited_less[of _ "pd_stage s"] inv(1) len by (metis do_counts_def in_set_conv_nth less_irrefl)
  next
    assume "\<forall>st \<in> set (pd_stage s). st = DoExit"
    then have "pd_stage s = replicate (length dgs) DoExit" using len by (metis replicate_eqI)
    then show "pd_completed s = length dgs" using inv(1) by (simp add: do_counts_def do_exited_def)
  qed
  have "parallelism \<noteq> -1 \<longrightarrow> int (tally do_inside (pd_stage s)) \<le> parallelism"
    using inv(1) sem0(1) assms(3) by (cases "pd_sem s") (auto simp: do_counts_def split: if_splits)
  moreover have "pd_caller s = (if \<forall>st \<in> set (pd_stage s). st = DoExit then 1 else 0)"
    using inv(1) all by (simp add: do_counts_def)
  moreover have "(\<exists>st \<in> set (pd_stage s). st \<noteq> DoExit) \<longrightarrow> (\<exists>i s'. i < length dgs \<and> parallel_do_impl dgs i s = Some s')"
    using do_progress[OF inv(1) sem0(2)] by blast
  moreover have "n \<le> 4 * length dgs" using inv(1) by (simp add: do_counts_def)
  moreover have "fibers_ran s = {..<length dgs}" if "\<forall>st \<in> set (pd_stage s). st = DoExit"
    using that len nth_mem[of _ "pd_stage s"] by (fastforce simp: fibers_ran_def)
  ultimately show ?thesis using inv(2) unfolding do_order_def by (intro conjI impI) auto
qed

theorem parallel_do_completes_witness:
  "\<exists>s0 s. parallel_do_start 1 [\<lambda>d. (Inr (), d + 1), \<lambda>d. (Inl UB, d * 2)] (5::int) = Inr s0 \<and>
     parallel_do_impl [\<lambda>d. (Inr (), d + 1), \<lambda>d. (Inl UB, d * 2)] 1 s0 = Some s \<and>
     int (tally do_inside (pd_stage s)) \<le> 1 \<and> pd_caller s = 0"
proof -
  let ?dgs = "[\<lambda>d. (Inr (), d + 1), \<lambda>d. (Inl UB, d * 2)] :: int delegate list"
  obtain s0 where s0: "parallel_do_start 1 ?dgs 5 = Inr s0" by (simp add: parallel_do_start_def ensure_def)
  then have st: "pd_stage s0 = [DoWait, DoWait]" "pd_sem s0 = Some 1"
    by (auto simp: parallel_do_start_def ensure_def numeral_2_eq_2)
  obtain s where s: "parallel_do_impl ?dgs 1 s0 = Some s" "pd_stage s = [DoWait, DoRun]"
    using st by (simp add: parallel_do_impl_def set_stage_def)
  have "do_run ?dgs s0 (Suc 0) s" by (rule do_run.step[OF do_run.start _ s(1)]) simp
  from parallel_do_completes[OF s0 _ _ _ this] s show ?thesis using s0 by auto
qed

section \<open>Every element is visited once\<close>

fun each_rank :: "each_stage \<Rightarrow> nat" where
  "each_rank EachLoop = 2" | "each_rank (EachCall j) = 3" | "each_rank (EachCatch e) = 2"
| "each_rank EachBreak = 1" | "each_rank EachExit = 0"

definition each_busy :: "each_stage \<Rightarrow> nat" where
  "each_busy st = (if st = EachExit then 0 else 1)"

fun each_pending :: "each_stage \<Rightarrow> nat multiset" where
  "each_pending (EachCall j) = {#j#}"
| "each_pending _ = {#}"

text \<open>Calling the functor on elements in some order, with the exceptions it throws.\<close>

definition visit :: "(nat \<Rightarrow> 'd delegate) \<Rightarrow> nat list \<Rightarrow> 'd \<Rightarrow> 'd \<times> error list" where
  "visit functr order d =
     fold (\<lambda>j (d, errs). case functr j d of (Inl e, d') \<Rightarrow> (d', e # errs) | (Inr _, d') \<Rightarrow> (d', errs)) order (d, [])"

lemma visit_snoc:
  "visit functr (order @ [j]) d =
     (case visit functr order d of (d1, errs) \<Rightarrow> case functr j d1 of (Inl e, d') \<Rightarrow> (d', e # errs) | (Inr _, d') \<Rightarrow> (d', errs))"
  by (simp add: visit_def)

definition each_counts :: "nat \<Rightarrow> nat \<Rightarrow> nat \<Rightarrow> 'd each_state \<Rightarrow> bool" where
  "each_counts k n m s \<longleftrightarrow>
     length (pe_stage s) = k \<and> pe_end s = n \<and> pe_begin s \<le> n \<and>
     m + (2 * (n - pe_begin s) + tally each_rank (pe_stage s)) \<le> 2 * n + 2 * k \<and>
     pe_count s = int (tally each_busy (pe_stage s)) \<and>
     pe_caller s = (if pe_count s = 0 then 1 else 0)"

definition each_visits :: "(nat \<Rightarrow> 'd delegate) \<Rightarrow> 'd \<Rightarrow> 'd each_state \<Rightarrow> bool" where
  "each_visits functr d0 s \<longleftrightarrow>
     (\<exists>order errs. visit functr order d0 = (pe_data s, errs) \<and>
        mset order + tally each_pending (pe_stage s) = mset [0..<pe_begin s] \<and>
        set errs \<supseteq> {e. pe_exception s = Some e \<or> EachCatch e \<in> set (pe_stage s)} \<and>
        (errs \<noteq> [] \<longrightarrow> pe_exception s \<noteq> None \<or> (\<exists>e. EachCatch e \<in> set (pe_stage s))) \<and>
        (EachBreak \<in> set (pe_stage s) \<or> EachExit \<in> set (pe_stage s) \<longrightarrow> pe_begin s = pe_end s \<or> pe_exception s \<noteq> None))"

lemma each_step_cases:
  assumes "parallel_foreach_impl functr i s = Some s'"
  obtains (leave) "pe_stage s ! i = EachLoop" "pe_begin s = pe_end s \<or> pe_exception s \<noteq> None" "s' = put_stage i EachBreak s"
  | (take) "pe_stage s ! i = EachLoop" "pe_begin s \<noteq> pe_end s" "pe_exception s = None"
      "s' = put_stage i (EachCall (pe_begin s)) (s\<lparr>pe_begin := pe_begin s + 1\<rparr>)"
  | (throw) j e d where "pe_stage s ! i = EachCall j" "functr j (pe_data s) = (Inl e, d)"
      "s' = put_stage i (EachCatch e) (s\<lparr>pe_data := d\<rparr>)"
  | (return) j u d where "pe_stage s ! i = EachCall j" "functr j (pe_data s) = (Inr u, d)" "s' = put_stage i EachLoop (s\<lparr>pe_data := d\<rparr>)"
  | (catch) e where "pe_stage s ! i = EachCatch e" "s' = put_stage i EachBreak (s\<lparr>pe_exception := Some e\<rparr>)"
  | (count) "pe_stage s ! i = EachBreak" "s' = put_stage i EachExit (s\<lparr>pe_count := pe_count s - 1,
      pe_caller := (if pe_count s - 1 = 0 then pe_caller s + 1 else pe_caller s)\<rparr>)"
proof (cases "pe_stage s ! i")
  case EachLoop
  then show ?thesis using assms that(1,2) by (auto simp: parallel_foreach_impl_def split: if_splits)
next
  case (EachCall j)
  then show ?thesis using assms that(3,4) by (auto simp: parallel_foreach_impl_def split: prod.splits sum.splits)
next
  case (EachCatch e)
  then show ?thesis using assms that(5) by (auto simp: parallel_foreach_impl_def)
next
  case EachBreak
  then show ?thesis using assms that(6) by (simp add: parallel_foreach_impl_def Let_def)
next
  case EachExit
  then show ?thesis using assms by (simp add: parallel_foreach_impl_def)
qed

lemma each_counts_step:
  assumes inv: "each_counts k n m s" and i: "i < k" and step: "parallel_foreach_impl functr i s = Some s'"
  shows "each_counts k n (Suc m) s'"
proof -
  have len: "i < length (pe_stage s)" using inv i by (simp add: each_counts_def)
  note t = tally_update[OF len, of each_rank] tally_update[OF len, of each_busy]
  have pos: "0 < tally each_busy (pe_stage s)" if "pe_stage s ! i \<noteq> EachExit"
    using that tally_zero[of each_busy "pe_stage s"] nth_mem[OF len] by (auto simp: each_busy_def split: if_splits)
  from step show ?thesis
  proof (cases rule: each_step_cases)
    case leave
    then show ?thesis using inv t[of EachBreak] by (auto simp: each_counts_def put_stage_def each_busy_def)
  next
    case take
    then show ?thesis using inv t[of "EachCall (pe_begin s)"] by (auto simp: each_counts_def put_stage_def each_busy_def)
  next
    case (throw j e d)
    then show ?thesis using inv t[of "EachCatch e"] by (auto simp: each_counts_def put_stage_def each_busy_def)
  next
    case (return j u d)
    then show ?thesis using inv t[of EachLoop] by (auto simp: each_counts_def put_stage_def each_busy_def)
  next
    case (catch e)
    then show ?thesis using inv t[of EachBreak] by (auto simp: each_counts_def put_stage_def each_busy_def)
  next
    case count
    then show ?thesis using inv t[of EachExit] pos by (auto simp: each_counts_def put_stage_def each_busy_def)
  qed
qed

lemma catching_after:
  "i < length st \<Longrightarrow> st ! i = EachCatch e \<or> EachCatch e \<in> set (st[i := y]) \<or> EachCatch e \<notin> set st"
  by (metis in_set_conv_nth length_list_update nth_list_update_neq)

lemma each_visitsI:
  assumes "visit functr order d0 = (pe_data s, errs)" "mset order + tally each_pending (pe_stage s) = mset [0..<pe_begin s]"
    and "\<And>e. pe_exception s = Some e \<or> EachCatch e \<in> set (pe_stage s) \<Longrightarrow> e \<in> set errs"
    and "errs \<noteq> [] \<Longrightarrow> pe_exception s \<noteq> None \<or> (\<exists>e. EachCatch e \<in> set (pe_stage s))"
    and "EachBreak \<in> set (pe_stage s) \<or> EachExit \<in> set (pe_stage s) \<Longrightarrow> pe_begin s = pe_end s \<or> pe_exception s \<noteq> None"
  shows "each_visits functr d0 s"
  using assms unfolding each_visits_def by blast

lemma each_visits_step:
  assumes inv: "each_visits functr d0 s" and i: "i < length (pe_stage s)" and step: "parallel_foreach_impl functr i s = Some s'"
  shows "each_visits functr d0 s'"
proof -
  obtain order errs where o: "visit functr order d0 = (pe_data s, errs)"
      "mset order + tally each_pending (pe_stage s) = mset [0..<pe_begin s]"
      "\<And>e. pe_exception s = Some e \<or> EachCatch e \<in> set (pe_stage s) \<Longrightarrow> e \<in> set errs"
      "errs \<noteq> [] \<Longrightarrow> pe_exception s \<noteq> None \<or> (\<exists>e. EachCatch e \<in> set (pe_stage s))"
      "EachBreak \<in> set (pe_stage s) \<or> EachExit \<in> set (pe_stage s) \<Longrightarrow> pe_begin s = pe_end s \<or> pe_exception s \<noteq> None"
    using inv unfolding each_visits_def by blast
  note t = tally_update[OF i, of each_pending]
  have sub: "set ((pe_stage s)[i := y]) \<subseteq> insert y (set (pe_stage s))" for y by (rule set_update_subset_insert)
  have new: "y \<in> set ((pe_stage s)[i := y])" for y using i by (rule set_update_memI)
  have old: "pe_stage s ! i \<in> set (pe_stage s)" using i by simp
  have catching: "EachCatch e \<in> set ((pe_stage s)[i := y]) \<longleftrightarrow> y = EachCatch e \<or> EachCatch e \<in> set (pe_stage s)"
    if "\<And>e. pe_stage s ! i \<noteq> EachCatch e" for y e using sub[of y] new[of y] catching_after[OF i, of e y] that by auto
  have leaving: "EachBreak \<in> set ((pe_stage s)[i := y]) \<or> EachExit \<in> set ((pe_stage s)[i := y]) \<Longrightarrow>
      y = EachBreak \<or> y = EachExit \<or> pe_begin s = pe_end s \<or> pe_exception s \<noteq> None" for y using sub[of y] o(5) by blast
  from step show ?thesis
  proof (cases rule: each_step_cases)
    case leave
    then have c: "EachCatch e \<in> set (pe_stage s') \<longleftrightarrow> EachCatch e \<in> set (pe_stage s)" for e
      using catching[of e EachBreak] by (simp add: put_stage_def)
    show ?thesis
    proof (rule each_visitsI[of functr order d0 s' errs])
      show "mset order + tally each_pending (pe_stage s') = mset [0..<pe_begin s']"
        using t[of EachBreak] o(2) leave by (simp add: put_stage_def)
    qed (use leave o c in \<open>simp_all add: put_stage_def\<close>)
  next
    case take
    then have c: "EachCatch e \<in> set (pe_stage s') \<longleftrightarrow> EachCatch e \<in> set (pe_stage s)" for e
      using catching[of e "EachCall (pe_begin s)"] by (simp add: put_stage_def)
    show ?thesis
    proof (rule each_visitsI[of functr order d0 s' errs])
      show "mset order + tally each_pending (pe_stage s') = mset [0..<pe_begin s']"
        using t[of "EachCall (pe_begin s)"] o(2) take by (simp add: put_stage_def)
      show "pe_begin s' = pe_end s' \<or> pe_exception s' \<noteq> None" if "EachBreak \<in> set (pe_stage s') \<or> EachExit \<in> set (pe_stage s')"
        using leaving[of "EachCall (pe_begin s)"] that take by (simp add: put_stage_def)
    qed (use take o(1,3,4) c in \<open>simp_all add: put_stage_def\<close>)
  next
    case (throw j e d)
    then have c: "EachCatch e' \<in> set (pe_stage s') \<longleftrightarrow> e' = e \<or> EachCatch e' \<in> set (pe_stage s)" for e'
      using catching[of e' "EachCatch e"] by (auto simp: put_stage_def)
    show ?thesis
    proof (rule each_visitsI[of functr "order @ [j]" d0 s' "e # errs"])
      show "visit functr (order @ [j]) d0 = (pe_data s', e # errs)" using throw o(1) by (simp add: visit_snoc put_stage_def)
      show "mset (order @ [j]) + tally each_pending (pe_stage s') = mset [0..<pe_begin s']"
        using t[of "EachCatch e", symmetric] o(2) throw by (simp add: put_stage_def)
      show "pe_exception s' \<noteq> None \<or> (\<exists>e. EachCatch e \<in> set (pe_stage s'))" using c by blast
      show "e' \<in> set (e # errs)" if "pe_exception s' = Some e' \<or> EachCatch e' \<in> set (pe_stage s')" for e'
        using that o(3)[of e'] c throw(3) by (auto simp: put_stage_def)
      show "pe_begin s' = pe_end s' \<or> pe_exception s' \<noteq> None" if "EachBreak \<in> set (pe_stage s') \<or> EachExit \<in> set (pe_stage s')"
        using leaving[of "EachCatch e"] that throw by (simp add: put_stage_def)
    qed
  next
    case (return j u d)
    then have c: "EachCatch e \<in> set (pe_stage s') \<longleftrightarrow> EachCatch e \<in> set (pe_stage s)" for e
      using catching[of e EachLoop] by (simp add: put_stage_def)
    show ?thesis
    proof (rule each_visitsI[of functr "order @ [j]" d0 s' errs])
      show "visit functr (order @ [j]) d0 = (pe_data s', errs)" using return o(1) by (simp add: visit_snoc put_stage_def)
      show "mset (order @ [j]) + tally each_pending (pe_stage s') = mset [0..<pe_begin s']"
        using t[of EachLoop, symmetric] o(2) return by (simp add: put_stage_def)
      show "pe_begin s' = pe_end s' \<or> pe_exception s' \<noteq> None" if "EachBreak \<in> set (pe_stage s') \<or> EachExit \<in> set (pe_stage s')"
        using leaving[of EachLoop] that return by (simp add: put_stage_def)
    qed (use return o(3,4) c in \<open>simp_all add: put_stage_def\<close>)
  next
    case (catch e)
    show ?thesis
    proof (rule each_visitsI[of functr order d0 s' errs])
      show "mset order + tally each_pending (pe_stage s') = mset [0..<pe_begin s']"
        using t[of EachBreak] o(2) catch by (simp add: put_stage_def)
    qed (use catch o sub[of EachBreak] old in \<open>auto simp: put_stage_def\<close>)
  next
    case count
    then have c: "EachCatch e \<in> set (pe_stage s') \<longleftrightarrow> EachCatch e \<in> set (pe_stage s)" for e
      using catching[of e EachExit] by (simp add: put_stage_def)
    show ?thesis
    proof (rule each_visitsI[of functr order d0 s' errs])
      show "mset order + tally each_pending (pe_stage s') = mset [0..<pe_begin s']"
        using t[of EachExit] o(2) count by (simp add: put_stage_def)
    qed (use count o c old in \<open>simp_all add: put_stage_def\<close>)
  qed
qed

lemma each_run_inv:
  assumes "each_run functr s0 m s" "each_counts k n 0 s0" "each_visits functr d0 s0"
  shows "each_counts k n m s \<and> each_visits functr d0 s"
  using assms
proof (induction rule: each_run.induct)
  case (each_step m s i s')
  then have inv: "each_counts k n m s" "each_visits functr d0 s" by simp_all
  then have "i < k" using each_step.hyps(2) by (simp add: each_counts_def)
  then show ?case using each_counts_step[OF inv(1) _ each_step.hyps(3)] each_visits_step[OF inv(2) each_step.hyps(2,3)] by simp
qed simp

lemma each_start_inv:
  assumes "0 < k"
  shows "each_counts k n 0 (parallel_foreach_start (int k) n d)" "each_visits functr d (parallel_foreach_start (int k) n d)"
proof -
  have "tally each_pending (replicate k EachLoop) = {#}" by (induction k) (auto simp: tally_def)
  then show "each_visits functr d (parallel_foreach_start (int k) n d)"
    by (intro each_visitsI[of functr "[]" d _ "[]"]) (auto simp: parallel_foreach_start_def visit_def)
  show "each_counts k n 0 (parallel_foreach_start (int k) n d)"
    using assms by (simp add: each_counts_def parallel_foreach_start_def each_busy_def)
qed

lemma each_progress:
  assumes "pe_stage s ! i \<noteq> EachExit"
  shows "\<exists>s'. parallel_foreach_impl functr i s = Some s'"
proof (cases "pe_stage s ! i")
  case (EachCall j)
  then show ?thesis by (cases "functr j (pe_data s)"; cases "fst (functr j (pe_data s))") (auto simp: parallel_foreach_impl_def)
qed (use assms in \<open>auto simp: parallel_foreach_impl_def Let_def\<close>)

text \<open>
  C30. \<open>parallel_foreach\<close> with \<open>k\<close> fibers over \<open>n\<close> elements calls the functor at most once per
  element and always comes back, however the fibers are interleaved: a fiber that has not finished
  can go on, a run has at most \<open>2 n + 2 k\<close> steps, and the caller has been scheduled, once, if and
  only if every fiber has finished. Then either nothing was thrown, and the calls made are one for
  each element, in some order; or the exception passed along is one that a call threw.
\<close>

theorem parallel_foreach_visits_once:
  assumes "0 < k" "each_run functr (parallel_foreach_start (int k) n d) m s"
  shows "m \<le> 2 * n + 2 * k \<and>
    (\<forall>i < length (pe_stage s). pe_stage s ! i \<noteq> EachExit \<longrightarrow> (\<exists>s'. parallel_foreach_impl functr i s = Some s')) \<and>
    pe_caller s = (if \<forall>st \<in> set (pe_stage s). st = EachExit then 1 else 0) \<and>
    ((\<forall>st \<in> set (pe_stage s). st = EachExit) \<longrightarrow>
      (\<exists>order errs. visit functr order d = (pe_data s, errs) \<and> distinct order \<and> set order \<subseteq> {..<n} \<and>
        (case parallel_foreach_result s of Inr _ \<Rightarrow> set order = {..<n} \<and> errs = [] | Inl e \<Rightarrow> e \<in> set errs)))"
proof -
  have inv: "each_counts k n m s" "each_visits functr d s"
    using each_run_inv[OF assms(2) each_start_inv[OF assms(1)]] by simp_all
  have len: "length (pe_stage s) = k" using inv(1) by (simp add: each_counts_def)
  have all: "tally each_busy (pe_stage s) = 0 \<longleftrightarrow> (\<forall>st \<in> set (pe_stage s). st = EachExit)"
    by (auto simp: tally_zero each_busy_def split: if_splits)
  have "\<exists>order errs. visit functr order d = (pe_data s, errs) \<and> distinct order \<and> set order \<subseteq> {..<n} \<and>
        (case parallel_foreach_result s of Inr _ \<Rightarrow> set order = {..<n} \<and> errs = [] | Inl e \<Rightarrow> e \<in> set errs)"
    if fin: "\<forall>st \<in> set (pe_stage s). st = EachExit"
  proof -
    obtain order errs where o: "visit functr order d = (pe_data s, errs)"
        "mset order + tally each_pending (pe_stage s) = mset [0..<pe_begin s]"
        "\<And>e. pe_exception s = Some e \<Longrightarrow> e \<in> set errs"
        "errs \<noteq> [] \<Longrightarrow> pe_exception s \<noteq> None \<or> (\<exists>e. EachCatch e \<in> set (pe_stage s))"
        "EachExit \<in> set (pe_stage s) \<Longrightarrow> pe_begin s = pe_end s \<or> pe_exception s \<noteq> None"
      using inv(2) unfolding each_visits_def by blast
    have st: "pe_stage s = replicate k EachExit" using fin len by (metis replicate_eqI)
    have "tally each_pending (pe_stage s) = {#}" unfolding st by (induction k) (auto simp: tally_def)
    then have m: "mset order = mset [0..<pe_begin s]" using o(2) by (simp del: mset_upt)
    then have "distinct order" "set order = {..<pe_begin s}"
      by (metis distinct_upt mset_eq_imp_distinct_iff) (metis m atLeast_upt set_mset_mset)
    moreover have "pe_begin s \<le> n" "pe_end s = n" using inv(1) by (simp_all add: each_counts_def)
    ultimately show ?thesis using o(1,3,4,5) assms(1) fin
      by (intro exI[of _ order] exI[of _ errs]) (auto simp: parallel_foreach_result_def st split: option.splits)
  qed
  moreover have "m \<le> 2 * n + 2 * k" using inv(1) by (simp add: each_counts_def)
  moreover have "pe_caller s = (if \<forall>st \<in> set (pe_stage s). st = EachExit then 1 else 0)"
    using inv(1) all by (simp add: each_counts_def)
  moreover have "\<forall>i < length (pe_stage s). pe_stage s ! i \<noteq> EachExit \<longrightarrow> (\<exists>s'. parallel_foreach_impl functr i s = Some s')"
    using each_progress by blast
  ultimately show ?thesis by blast
qed

theorem parallel_foreach_visits_once_witness:
  "\<exists>s. parallel_foreach_impl (\<lambda>j d. (Inr (), d + j)) 1 (parallel_foreach_start 2 3 (0::nat)) = Some s \<and> pe_caller s = 0"
proof -
  let ?s0 = "parallel_foreach_start (int 2) 3 (0::nat)"
  have st: "pe_stage ?s0 = [EachLoop, EachLoop]" by (simp add: parallel_foreach_start_def numeral_2_eq_2)
  obtain s where s: "parallel_foreach_impl (\<lambda>j d. (Inr (), d + j)) 1 ?s0 = Some s" "EachLoop \<in> set (pe_stage s)"
    by (simp add: parallel_foreach_impl_def put_stage_def parallel_foreach_start_def numeral_2_eq_2)
  have "each_run (\<lambda>j d. (Inr (), d + j)) ?s0 (Suc 0) s" by (rule each_run.each_step[OF each_run.each_start _ s(1)]) (use st in simp)
  from parallel_foreach_visits_once[OF _ this] s show ?thesis by auto
qed

text \<open>With a number of fibers that is not positive the caller yields and nothing will resume it.\<close>

lemma parallel_foreach_hangs:
  assumes "parallelism \<le> 0" "parallelism \<noteq> -1" "each_run functr (parallel_foreach_start parallelism n d) m s"
  shows "pe_caller s = 0 \<and> pe_stage s = []"
  using assms(3)
proof (induction rule: each_run.induct)
  case each_start
  then show ?case using assms(1,2) by (simp add: parallel_foreach_start_def)
qed simp

end
