(* ===== verification/Line_Stream.thy ===== *)
theory Line_Stream
  imports Buffered_Props
begin

text \<open>
  \<open>Stream::getDelimited\<close> of stream.cpp, the contract of a stream that is read by lines, and two
  streams in memory that keep the contracts: one that is read by lines, one that is appended to.
\<close>

section \<open>getDelimited\<close>

text \<open>
  \<open>find_in\<close> and \<open>read_from\<close> are \<open>find\<close> and \<open>read\<close> of the stream. A negative result of \<open>find\<close> says how
  many bytes there are before the end of the stream.
\<close>

definition Stream_getDelimited ::
    "(byte \<Rightarrow> nat \<Rightarrow> bool \<Rightarrow> ('p, int) io) \<Rightarrow> (nat \<Rightarrow> ('p, byte list) io) \<Rightarrow> byte \<Rightarrow> bool \<Rightarrow> bool \<Rightarrow> ('p, byte list) io" where
  "Stream_getDelimited find_in read_from delim eofIsDelimiter includeDelimiter =
     io_bind (find_in delim npos (\<not> eofIsDelimiter)) (\<lambda>offset.
       let atEof = (offset < 0);
           n = nat (if offset < 0 then - offset - 1 else offset) + (if atEof then 0 else 1)
       in io_bind (read_from n) (\<lambda>result.
            if length result \<noteq> n then io_fail Assertion
            else if \<not> atEof \<and> \<not> includeDelimiter then io_return (take (n - 1) result)
            else io_return result))"

definition Stream_getDelimitedString ::
    "(byte list \<Rightarrow> nat \<Rightarrow> bool \<Rightarrow> ('p, int) io) \<Rightarrow> (nat \<Rightarrow> ('p, byte list) io) \<Rightarrow> byte list \<Rightarrow> bool \<Rightarrow> bool \<Rightarrow> ('p, byte list) io" where
  "Stream_getDelimitedString find_in read_from delim eofIsDelimiter includeDelimiter =
     io_bind (find_in delim npos (\<not> eofIsDelimiter)) (\<lambda>offset.
       let atEof = (offset < 0);
           n = nat (if offset < 0 then - offset - 1 else offset) + (if atEof then 0 else length delim)
       in io_bind (read_from n) (\<lambda>result.
            if length result \<noteq> n then io_fail Assertion
            else if \<not> atEof \<and> \<not> includeDelimiter then io_return (take (n - length delim) result)
            else io_return result))"

section \<open>Streams of lines\<close>

text \<open>
  A source with lines: \<open>get_line\<close> takes the bytes up to and including the next newline, or throws an
  unexpected end of file and takes nothing.
\<close>

locale line_source = byte_source +
  fixes get_line :: "('p, byte list) io"
  assumes line_found: "length (remaining p) < size_mod \<Longrightarrow> remaining p = l @ CHR 0x0A # rest \<Longrightarrow> CHR 0x0A \<notin> set l \<Longrightarrow>
      \<exists>p'. get_line p = (Inr (l @ [CHR 0x0A]), p') \<and> remaining p' = rest"
    and line_missing: "length (remaining p) < size_mod \<Longrightarrow> CHR 0x0A \<notin> set (remaining p) \<Longrightarrow>
      \<exists>p'. get_line p = (Inl UnexpectedEof, p') \<and> remaining p' = remaining p"

definition memory_find :: "byte \<Rightarrow> nat \<Rightarrow> bool \<Rightarrow> (memory_stream, int) io" where
  "memory_find delim sanitySize throwIfNotFound s = (MemoryStream_find delim sanitySize throwIfNotFound s, s)"

definition memory_line :: "(memory_stream, byte list) io" where
  "memory_line = Stream_getDelimited memory_find MemoryStream_read (CHR 0x0A) False True"

lemma index_of_split: "c \<notin> set l \<Longrightarrow> index_of c (l @ c # rest) = Some (length l)"
  by (induction l) auto

interpretation memory_lines: line_source MemoryStream_read ms_read memory_line
proof unfold_locales
  fix p :: memory_stream and l rest :: "byte list"
  assume a: "length (ms_read p) < size_mod" "ms_read p = l @ CHR 0x0A # rest" "CHR 0x0A \<notin> set l"
  have "take (min npos (length (ms_read p))) (ms_read p) = ms_read p" using a(1) by (simp add: npos_def)
  then have f: "MemoryStream_find (CHR 0x0A) npos True p = Inr (int (length l))"
    unfolding MemoryStream_find_def using a(2) index_of_split[OF a(3), of rest] by simp
  have t: "take (Suc (length l)) (ms_read p) = l @ [CHR 0x0A]" "drop (Suc (length l)) (ms_read p) = rest"
      "min (Suc (length l)) (length (ms_read p)) = Suc (length l)"
    using a(2) by simp_all
  show "\<exists>p'. memory_line p = (Inr (l @ [CHR 0x0A]), p') \<and> ms_read p' = rest"
    unfolding memory_line_def Stream_getDelimited_def io_bind_def memory_find_def
    by (simp add: f MemoryStream_read_def MemoryStream_readInternal_def t io_return_def Let_def)
next
  fix p :: memory_stream
  assume a: "length (ms_read p) < size_mod" "CHR 0x0A \<notin> set (ms_read p)"
  have "index_of (CHR 0x0A) (take (min npos (length (ms_read p))) (ms_read p)) = None"
    unfolding index_of_None using a(2) by (meson in_set_takeD)
  then show "\<exists>p'. memory_line p = (Inl UnexpectedEof, p') \<and> ms_read p' = ms_read p"
    by (simp add: memory_line_def Stream_getDelimited_def io_bind_def memory_find_def MemoryStream_find_def)
qed

section \<open>A memory stream that is appended to\<close>

text \<open>
  The memory streams whose position is the end. A write that would exceed the range of the address
  type throws, as the allocation of its memory does.
\<close>

typedef append_stream = "{s :: memory_stream. ms_offset s = length (ms_original s) \<and> length (ms_original s) < size_mod}"
  morphisms memory_of append_of
  by (rule exI[of _ MemoryStream_new]) (simp add: MemoryStream_new_def)

setup_lifting type_definition_append_stream

lemma append_write:
  assumes "ms_offset s = length (ms_original s)" "length (ms_original s) + length bs < size_mod"
  shows "lift_memory (MemoryStream_write bs) s =
    (Inr (length bs), s\<lparr>ms_original := ms_original s @ bs, ms_offset := length (ms_original s) + length bs\<rparr>)"
  using assms by (simp add: lift_memory_def MemoryStream_write_def MemoryStream_writeInternal_def Let_def)

lift_definition appended :: "append_stream \<Rightarrow> byte list" is ms_original .

definition append_to :: "byte list \<Rightarrow> (append_stream, nat) io" where
  "append_to bs s =
     (if length (appended s) + length bs < size_mod
      then (case lift_memory (MemoryStream_write bs) (memory_of s) of (r, s') \<Rightarrow> (r, append_of s'))
      else (Inl OutOfRange, s))"

definition empty_append :: append_stream where
  "empty_append = append_of MemoryStream_new"

lemma appended_empty [simp]: "appended empty_append = []"
  by (simp add: appended_def empty_append_def append_of_inverse MemoryStream_new_def)

lemma append_to_fits:
  assumes "length (appended s) + length bs < size_mod"
  shows "\<exists>s'. append_to bs s = (Inr (length bs), s') \<and> appended s' = appended s @ bs"
proof -
  let ?m = "memory_of s"
  have m: "ms_offset ?m = length (ms_original ?m)" "length (ms_original ?m) + length bs < size_mod"
    using memory_of[of s] assms by (simp_all add: appended_def)
  let ?m' = "?m\<lparr>ms_original := ms_original ?m @ bs, ms_offset := length (ms_original ?m) + length bs\<rparr>"
  have "ms_original (memory_of (append_of ?m')) = ms_original ?m @ bs" using m by (subst append_of_inverse) simp_all
  then show ?thesis using append_write[OF m] assms by (simp add: append_to_def appended_def)
qed

text \<open>
  A sink that writes all of the data whenever it does not throw, and nothing otherwise, in the states that are \<open>ready\<close>. A stream need
  not do that (\<open>write\<close> may return less than it was given); a stream of memory does, and a \<open>BufferedStream\<close> does over any parent.
\<close>

locale full_sink =
  fixes write_to :: "byte list \<Rightarrow> ('p, nat) io" and written :: "'p \<Rightarrow> byte list" and ready :: "'p \<Rightarrow> bool"
  assumes write_full: "ready p \<Longrightarrow> write_to bs p = (r, p') \<Longrightarrow>
    ready p' \<and> (case r of Inl _ \<Rightarrow> written p' = written p | Inr n \<Rightarrow> n = length bs \<and> written p' = written p @ bs)"

interpretation append_sink: full_sink append_to appended "\<lambda>_. True"
proof unfold_locales
  fix bs p r p' assume w: "append_to bs p = (r, p')"
  then show "True \<and> (case r of Inl _ \<Rightarrow> appended p' = appended p | Inr n \<Rightarrow> n = length bs \<and> appended p' = appended p @ bs)"
    using append_to_fits[of p bs] by (cases "length (appended p) + length bs < size_mod") (auto simp: append_to_def)
qed

text \<open>Writing to a \<open>BufferedStream\<close>, as a sink.\<close>

definition buffered_write :: "'p parent_ops \<Rightarrow> byte list \<Rightarrow> ('p buffered, nat) io" where
  "buffered_write P bs s = (case BufferedStream_write P bs s of None \<Rightarrow> (Inl Loops, s) | Some (r, s') \<Rightarrow> (r, s'))"

definition buffered_ready :: "'p parent_ops \<Rightarrow> 'p buffered \<Rightarrow> bool" where
  "buffered_ready P s \<longleftrightarrow> 0 < bf_bufferSize s \<and> (po_supportsSeek P \<longrightarrow> bf_readBuffer s = [])"

locale parent_sink = byte_sink "po_write P" written
  for P :: "'p parent_ops" and written :: "'p \<Rightarrow> byte list"

sublocale parent_sink \<subseteq> buffering: full_sink "buffered_write P" "sent written" "buffered_ready P"
proof unfold_locales
  fix bs s r s' assume a: "buffered_ready P s" "buffered_write P bs s = (r, s')"
  let ?s = "s\<lparr>bf_writeBuffer := bf_writeBuffer s @ bs\<rparr>"
  have "sent written ?s = sent written s @ bs" by (simp add: sent_def)
  then obtain r1 s1 where f: "flushWrite P (length bs) ?s = Some (r1, s1)" "bf_bufferSize s1 = bf_bufferSize s" "bf_readBuffer s1 = bf_readBuffer s"
    "case r1 of Inl _ \<Rightarrow> sent written s1 = sent written s | Inr n \<Rightarrow> n = length bs \<and> sent written s1 = sent written s @ bs"
    using flushWrite_ok[OF refl, of ?s "sent written s" bs "length bs"] a(1) by (auto simp: buffered_ready_def)
  then have "r = r1 \<and> s' = s1" using a(2) by (cases r1) (auto simp: buffered_write_def BufferedStream_write_def)
  then show "buffered_ready P s' \<and> (case r of Inl _ \<Rightarrow> sent written s' = sent written s | Inr n \<Rightarrow> n = length bs \<and> sent written s' = sent written s @ bs)"
    using f a(1) by (auto simp: buffered_ready_def split: sum.splits)
qed

context parent_sink
begin

lemma buffered_full: "full_sink (buffered_write P) (sent written) (buffered_ready P)"
  by (rule buffering.full_sink_axioms)

end

text \<open>The operations of a stream of memory that is written at its end, as a parent.\<close>

definition append_ops :: "append_stream parent_ops" where
  "append_ops = \<lparr>po_supportsSeek = False, po_supportsTell = False, po_supportsSize = False,
     po_read = (\<lambda>n p. (Inr [], p)), po_write = append_to, po_seek = (\<lambda>off a p. (Inl NotReached, p)),
     po_size = (\<lambda>p. (Inl NotReached, p)), po_truncate = (\<lambda>n p. (Inl NotReached, p)),
     po_flush = io_return (), po_close = (\<lambda>_. io_return ())\<rparr>"

interpretation buffered_append: parent_sink append_ops appended
proof unfold_locales
  fix bs p n p' assume "po_write append_ops bs p = (Inr n, p')"
  then show "appended p' = appended p @ take n bs \<and> n \<le> length bs" using append_sink.write_full[of bs p "Inr n" p'] by (simp add: append_ops_def)
next
  fix bs p n p' assume "bs \<noteq> []" "po_write append_ops bs p = (Inr n, p')"
  then show "0 < n" using append_sink.write_full[of bs p "Inr n" p'] by (simp add: append_ops_def)
next
  fix bs p e p' assume "po_write append_ops bs p = (Inl e, p')"
  then show "appended p' = appended p" using append_sink.write_full[of bs p "Inl e" p'] by (simp add: append_ops_def)
qed

end
