(* ===== verification/Transfer_Stream.thy ===== *)
theory Transfer_Stream
  imports Buffered_Props
begin

text \<open>
  \<open>transferStream\<close> of transfer.cpp: copying from one stream to another with two buffers, one
  being read into while the other is written out.
\<close>

section \<open>Operations\<close>

datatype ExactLength = INFER | EXACT | UNTILEOF

definition readOne :: "(nat \<Rightarrow> ('s, byte list) io) \<Rightarrow> byte list \<Rightarrow> nat \<Rightarrow> 's \<Rightarrow> nat result \<times> byte list \<times> 's" where
  "readOne rd buffer len src =
     (case rd len src of
        (Inl e, src') \<Rightarrow> (Inl e, buffer, src')
      | (Inr bs, src') \<Rightarrow> (Inr (length bs), buffer @ bs, src'))"

partial_function (option) writeOne ::
    "(byte list \<Rightarrow> ('d, nat) io) \<Rightarrow> byte list \<Rightarrow> 'd \<Rightarrow> (unit result \<times> byte list \<times> 'd) option" where
  "writeOne wr buffer dst =
     (if length buffer > 0 then
        case wr buffer dst of
          (Inl e, dst') \<Rightarrow> Some (Inl e, buffer, dst')
        | (Inr n, dst') \<Rightarrow>
            if n > length buffer then Some (Inl Assertion, buffer, dst')
            else writeOne wr (drop n buffer) dst'
      else Some (Inr (), buffer, dst))"

text \<open>\<open>toTransfer - totalRead\<close> on \<open>unsigned long long\<close>, and the size of the next chunk.\<close>

definition next_todo :: "nat \<Rightarrow> nat \<Rightarrow> nat \<Rightarrow> nat" where
  "next_todo chunkSize toTransfer totalRead =
     (let left = (toTransfer + size_mod - totalRead) mod size_mod
      in if left < chunkSize then left else chunkSize)"

text \<open>
  \<open>parallel_do\<close> of the read and the write, which work on different streams and buffers. Under a
  scheduler both run and the exception of the read is preferred; without one the read comes first
  and its exception skips the write.
\<close>

definition transfer_both ::
    "bool \<Rightarrow> (nat \<Rightarrow> ('s, byte list) io) \<Rightarrow> (byte list \<Rightarrow> ('d, nat) io) \<Rightarrow> nat \<Rightarrow> byte list \<Rightarrow> byte list \<Rightarrow> 's \<Rightarrow> 'd \<Rightarrow>
     (nat result \<times> byte list \<times> byte list \<times> 's \<times> 'd) option" where
  "transfer_both scheduler rd wr todo readBuffer writeBuffer src dst =
     (case readOne rd readBuffer todo src of
        (Inl e, readBuffer', src') \<Rightarrow>
          if \<not> scheduler then Some (Inl e, readBuffer', writeBuffer, src', dst)
          else
            (case writeOne wr writeBuffer dst of
               None \<Rightarrow> None
             | Some (_, writeBuffer', dst') \<Rightarrow> Some (Inl e, readBuffer', writeBuffer', src', dst'))
      | (Inr readResult, readBuffer', src') \<Rightarrow>
          (case writeOne wr writeBuffer dst of
             None \<Rightarrow> None
           | Some (Inl e, writeBuffer', dst') \<Rightarrow> Some (Inl e, readBuffer', writeBuffer', src', dst')
           | Some (Inr _, writeBuffer', dst') \<Rightarrow> Some (Inr readResult, readBuffer', writeBuffer', src', dst')))"

text \<open>The loop for a \<open>NullStream\<close>: the data read is dropped.\<close>

partial_function (option) null_loop ::
    "(nat \<Rightarrow> ('s, byte list) io) \<Rightarrow> nat \<Rightarrow> nat \<Rightarrow> bool \<Rightarrow> nat \<Rightarrow> 's \<Rightarrow> (nat result \<times> 's) option" where
  "null_loop rd chunkSize toTransfer exact totalRead src =
     (let todo = next_todo chunkSize toTransfer totalRead
      in if todo = 0 then Some (Inr totalRead, src)
         else
           case readOne rd [] todo src of
             (Inl e, _, src') \<Rightarrow> Some (Inl e, src')
           | (Inr readResult, _, src') \<Rightarrow>
               let totalRead' = (totalRead + readResult) mod size_mod
               in if readResult = 0 \<and> exact then Some (Inl UnexpectedEof, src')
                  else if readResult = 0 then Some (Inr totalRead', src')
                  else null_loop rd chunkSize toTransfer exact totalRead' src')"

text \<open>
  The main loop; \<open>readBuffer\<close> holds what was read last and \<open>other\<close> is the other one of the two
  buffers. The loop ends with the buffers and the number of bytes read, or returns from the function.
\<close>

partial_function (option) transfer_loop ::
    "bool \<Rightarrow> (nat \<Rightarrow> ('s, byte list) io) \<Rightarrow> (byte list \<Rightarrow> ('d, nat) io) \<Rightarrow> nat \<Rightarrow> nat \<Rightarrow> bool \<Rightarrow>
     nat \<Rightarrow> byte list \<Rightarrow> byte list \<Rightarrow> 's \<Rightarrow> 'd \<Rightarrow> (nat result \<times> 's \<times> 'd) option" where
  "transfer_loop scheduler rd wr chunkSize toTransfer exact totalRead readBuffer other src dst =
     (if totalRead < toTransfer then
        case transfer_both scheduler rd wr (next_todo chunkSize toTransfer totalRead) other readBuffer src dst of
          None \<Rightarrow> None
        | Some (Inl e, _, _, src', dst') \<Rightarrow> Some (Inl e, src', dst')
        | Some (Inr readResult, readBuffer', writeBuffer', src', dst') \<Rightarrow>
            let totalRead' = (totalRead + readResult) mod size_mod
            in if readResult = 0 \<and> exact \<and> totalRead' < toTransfer then Some (Inl UnexpectedEof, src', dst')
               else if readResult = 0 then Some (Inr totalRead', src', dst')
               else transfer_loop scheduler rd wr chunkSize toTransfer exact totalRead' readBuffer' writeBuffer' src' dst'
      else
        case writeOne wr readBuffer dst of
          None \<Rightarrow> None
        | Some (Inl e, _, dst') \<Rightarrow> Some (Inl e, src, dst')
        | Some (Inr _, _, dst') \<Rightarrow> Some (Inr totalRead, src, dst'))"

definition transferStream ::
    "bool \<Rightarrow> bool \<Rightarrow> bool \<Rightarrow> bool \<Rightarrow> nat \<Rightarrow> (nat \<Rightarrow> ('s, byte list) io) \<Rightarrow> (byte list \<Rightarrow> ('d, nat) io) \<Rightarrow>
     nat \<Rightarrow> ExactLength \<Rightarrow> 's \<Rightarrow> 'd \<Rightarrow> (nat result \<times> 's \<times> 'd) option" where
  "transferStream supportsRead supportsWrite isNull scheduler chunkSize rd wr toTransfer exactLength src dst =
     (if \<not> supportsRead \<or> \<not> supportsWrite then Some (Inl Assertion, src, dst)
      else if toTransfer = 0 then Some (Inr 0, src, dst)
      else
        let exactLength' = (if exactLength = INFER then (if toTransfer = 18446744073709551615 then UNTILEOF else EXACT) else exactLength);
            exact = (exactLength' = EXACT)
        in case readOne rd [] (next_todo chunkSize toTransfer 0) src of
             (Inl e, _, src') \<Rightarrow> Some (Inl e, src', dst)
           | (Inr readResult, readBuffer, src') \<Rightarrow>
               if readResult = 0 \<and> exact then Some (Inl UnexpectedEof, src', dst)
               else if readResult = 0 then Some (Inr 0, src', dst)
               else if isNull then
                 (case null_loop rd chunkSize toTransfer exact readResult src' of
                    None \<Rightarrow> None
                  | Some (r, src'') \<Rightarrow> Some (r, src'', dst))
               else transfer_loop scheduler rd wr chunkSize toTransfer exact readResult readBuffer [] src' dst)"

section \<open>What is transferred\<close>

definition sink_throws :: "(byte list \<Rightarrow> ('d, nat) io) \<Rightarrow> error \<Rightarrow> bool" where
  "sink_throws wr e \<longleftrightarrow> (\<exists>bs d d'. wr bs d = (Inl e, d'))"

lemma next_todo_simp:
  "totalRead \<le> toTransfer \<Longrightarrow> toTransfer < size_mod \<Longrightarrow> next_todo chunk toTransfer totalRead = min (toTransfer - totalRead) chunk"
proof -
  assume a: "totalRead \<le> toTransfer" "toTransfer < size_mod"
  then have "toTransfer + size_mod - totalRead = (toTransfer - totalRead) + size_mod" by simp
  then have "(toTransfer + size_mod - totalRead) mod size_mod = toTransfer - totalRead"
    using a(2) by (metis mod_add_self2 mod_less less_imp_diff_less)
  then show ?thesis unfolding next_todo_def Let_def by simp
qed

context byte_sink
begin

lemma writeOne_cases:
  obtains (drained) d' where "writeOne write_to buffer d = Some (Inr (), [], d')" "written d' = written d @ buffer"
  | (failed) e left d' k where "writeOne write_to buffer d = Some (Inl e, left, d')" "sink_throws write_to e"
      "k \<le> length buffer" "written d' = written d @ take k buffer"
proof -
  have "(\<exists>d'. writeOne write_to buffer d = Some (Inr (), [], d') \<and> written d' = written d @ buffer) \<or>
    (\<exists>e left d' k. writeOne write_to buffer d = Some (Inl e, left, d') \<and> sink_throws write_to e \<and>
       k \<le> length buffer \<and> written d' = written d @ take k buffer)"
  proof (induction "length buffer" arbitrary: buffer d rule: less_induct)
    case less
    show ?case
    proof (cases "buffer = []")
      case True
      then show ?thesis by (subst (1 2) writeOne.simps) simp
    next
      case False
      obtain r d1 where w: "write_to buffer d = (r, d1)" by fastforce
      show ?thesis
      proof (cases r)
        case (Inl e)
        have "writeOne write_to buffer d = Some (Inl e, buffer, d1)" using False w Inl by (subst writeOne.simps) simp
        moreover have "written d1 = written d @ take 0 buffer" using w Inl write_error[of buffer d e d1] by simp
        ultimately show ?thesis using w Inl unfolding sink_throws_def by blast
      next
        case (Inr n)
        have n: "0 < n" "n \<le> length buffer" "written d1 = written d @ take n buffer"
          using write_progress[OF False] write_ok w Inr by auto
        have step: "writeOne write_to buffer d = writeOne write_to (drop n buffer) d1"
          using False w Inr n by (subst writeOne.simps) simp
        have "length (drop n buffer) < length buffer" using n by simp
        from less[OF this, of d1] show ?thesis
        proof (elim disjE exE conjE)
          fix d' assume "writeOne write_to (drop n buffer) d1 = Some (Inr (), [], d')" "written d' = written d1 @ drop n buffer"
          then show ?thesis using step n(3) by simp
        next
          fix e left d' k
          assume a: "writeOne write_to (drop n buffer) d1 = Some (Inl e, left, d')" "sink_throws write_to e"
            "k \<le> length (drop n buffer)" "written d' = written d1 @ take k (drop n buffer)"
          then have "n + k \<le> length buffer" "written d' = written d @ take (n + k) buffer" using n by (simp_all add: take_add)
          then show ?thesis using step a(1,2) by metis
        qed
      qed
    qed
  qed
  then show ?thesis using that by blast
qed

end

text \<open>
  The outcome of a transfer of at most \<open>m\<close> bytes of \<open>data\<close>: all of it, or a prefix of it was written
  when the destination threw.
\<close>

definition transfer_outcome ::
    "(byte list \<Rightarrow> ('d, nat) io) \<Rightarrow> ('s \<Rightarrow> byte list) \<Rightarrow> ('d \<Rightarrow> byte list) \<Rightarrow> byte list \<Rightarrow> nat result \<Rightarrow> byte list \<Rightarrow> byte list \<Rightarrow>
     nat result \<Rightarrow> 's \<Rightarrow> 'd \<Rightarrow> bool" where
  "transfer_outcome wr rem written before expected out rest r src' dst' \<longleftrightarrow>
     r = expected \<and> rem src' = rest \<and> written dst' = before @ out \<or>
     (\<exists>e k. r = Inl e \<and> sink_throws wr e \<and> k \<le> length out \<and> written dst' = before @ take k out)"

lemma transfer_outcome_before:
  assumes "transfer_outcome wr rem written (before @ xs) expected out rest r s d"
  shows "transfer_outcome wr rem written before expected (xs @ out) rest r s d"
proof -
  have "length xs + k \<le> length (xs @ out) \<and> before @ take (length xs + k) (xs @ out) = (before @ xs) @ take k out"
    if "k \<le> length out" for k using that by simp
  then show ?thesis using assms unfolding transfer_outcome_def by (metis append.assoc)
qed

lemma transfer_loop_outcome:
  assumes src: "byte_source rd rem" and dst: "byte_sink wr written"
    and "0 < chunk" "got \<le> want" "want < size_mod"
  shows "\<exists>r s' d'. transfer_loop sched rd wr chunk want exact got rb [] s d = Some (r, s', d') \<and>
    transfer_outcome wr rem written (written d)
      (if exact \<and> length (rem s) < want - got then Inl UnexpectedEof else Inr (got + min (want - got) (length (rem s))))
      (rb @ take (want - got) (rem s)) (drop (want - got) (rem s)) r s' d'"
  using assms(3-)
proof (induction "length (rem s)" arbitrary: s d rb got rule: less_induct)
  case (less s d rb got)
  show ?case
  proof (cases "got < want")
    case False
    then have [simp]: "want - got = 0" "want = got" using less.prems by auto
    show ?thesis
    proof (cases rule: byte_sink.writeOne_cases[OF dst, of rb d, case_names drained failed])
      case drained
      then show ?thesis by (subst transfer_loop.simps) (simp add: transfer_outcome_def)
    next
      case failed
      then show ?thesis by (subst transfer_loop.simps) (auto simp: transfer_outcome_def)
    qed
  next
    case True
    define todo where "todo = next_todo chunk want got"
    have todo: "0 < todo" "todo \<le> want - got" using True less.prems next_todo_simp[of got want chunk] by (auto simp: todo_def)
    obtain bs s1 where rd: "rd todo s = (Inr bs, s1)" "rem s = bs @ rem s1" "length bs \<le> todo" "bs = [] \<Longrightarrow> rem s = []"
      using byte_source.read_cases[OF src, of todo s] todo(1) by blast
    have wrap: "(got + length bs) mod size_mod = got + length bs" using rd(3) todo(2) less.prems by simp
    show ?thesis
    proof (cases rule: byte_sink.writeOne_cases[OF dst, of rb d, case_names drained failed])
      case (failed e left d' k)
      then have "transfer_loop sched rd wr chunk want exact got rb [] s d = Some (Inl e, s1, d')"
        using True rd(1) by (subst transfer_loop.simps) (simp add: transfer_both_def readOne_def flip: todo_def)
      moreover have "take k (rb @ take (want - got) (rem s)) = take k rb" using failed(3) by simp
      ultimately show ?thesis using failed unfolding transfer_outcome_def by (smt (verit) length_append trans_le_add1)
    next
      case (drained d')
      show ?thesis
      proof (cases "bs = []")
        case True2: True
        then have "transfer_loop sched rd wr chunk want exact got rb [] s d = Some (if exact then Inl UnexpectedEof else Inr got, s1, d')"
          using True rd(1) drained(1) less.prems by (subst transfer_loop.simps) (simp add: transfer_both_def readOne_def flip: todo_def)
        then show ?thesis using True rd(2,4) True2 drained(2) by (simp add: transfer_outcome_def)
      next
        case False
        have step: "transfer_loop sched rd wr chunk want exact got rb [] s d =
            transfer_loop sched rd wr chunk want exact (got + length bs) bs [] s1 d'"
          using True False rd(1) drained(1) wrap by (subst transfer_loop.simps) (simp add: transfer_both_def readOne_def flip: todo_def)
        have "length (rem s1) < length (rem s)" "got + length bs \<le> want" using rd(2,3) False todo by simp_all
        from less.hyps[OF this(1) less.prems(1) this(2) less.prems(3), of bs d'] obtain r s2 d2 where
          ih: "transfer_loop sched rd wr chunk want exact (got + length bs) bs [] s1 d' = Some (r, s2, d2)"
            "transfer_outcome wr rem written (written d')
              (if exact \<and> length (rem s1) < want - (got + length bs) then Inl UnexpectedEof
               else Inr (got + length bs + min (want - (got + length bs)) (length (rem s1))))
              (bs @ take (want - (got + length bs)) (rem s1)) (drop (want - (got + length bs)) (rem s1)) r s2 d2"
          by blast
        have out: "rb @ take (want - got) (rem s) = rb @ (bs @ take (want - (got + length bs)) (rem s1))"
            "drop (want - got) (rem s) = drop (want - (got + length bs)) (rem s1)"
            "length (rem s) < want - got \<longleftrightarrow> length (rem s1) < want - (got + length bs)"
            "got + min (want - got) (length (rem s)) = got + length bs + min (want - (got + length bs)) (length (rem s1))"
          using rd(2,3) todo(2) by auto
        show ?thesis unfolding step ih(1) out using transfer_outcome_before[OF ih(2)[unfolded drained(2)]] by blast
      qed
    qed
  qed
qed

lemma null_loop_outcome:
  assumes src: "byte_source rd rem" and "0 < chunk" "got \<le> want" "want < size_mod"
  shows "\<exists>s'. null_loop rd chunk want exact got s =
      Some (if exact \<and> length (rem s) < want - got then Inl UnexpectedEof else Inr (got + min (want - got) (length (rem s))), s') \<and>
    rem s' = drop (want - got) (rem s)"
  using assms(2-)
proof (induction "length (rem s)" arbitrary: s got rule: less_induct)
  case (less s got)
  define todo where "todo = next_todo chunk want got"
  have todo: "todo \<le> want - got" "todo = 0 \<longleftrightarrow> want = got"
    using less.prems next_todo_simp[of got want chunk] by (auto simp: todo_def)
  show ?case
  proof (cases "todo = 0")
    case True
    then have "null_loop rd chunk want exact got s = Some (Inr got, s)" by (subst null_loop.simps) (simp flip: todo_def)
    then show ?thesis using True todo(2) by simp
  next
    case False
    obtain bs s1 where rd: "rd todo s = (Inr bs, s1)" "rem s = bs @ rem s1" "length bs \<le> todo" "bs = [] \<Longrightarrow> rem s = []"
      using byte_source.read_cases[OF src, of todo s] False by blast
    have wrap: "(got + length bs) mod size_mod = got + length bs" using rd(3) todo(1) less.prems by simp
    show ?thesis
    proof (cases "bs = []")
      case True
      have "null_loop rd chunk want exact got s = Some (if exact then Inl UnexpectedEof else Inr got, s1)"
        using True False rd(1) less.prems by (subst null_loop.simps) (simp add: readOne_def flip: todo_def)
      then show ?thesis using True rd(2,4) False todo less.prems by simp
    next
      case ne: False
      have step: "null_loop rd chunk want exact got s = null_loop rd chunk want exact (got + length bs) s1"
        using ne False rd(1) wrap by (subst null_loop.simps) (simp add: readOne_def flip: todo_def)
      have "length (rem s1) < length (rem s)" "got + length bs \<le> want" using rd(2,3) ne todo less.prems by simp_all
      note ih = less.hyps[OF this(1) less.prems(1) this(2) less.prems(3)]
      have out: "drop (want - got) (rem s) = drop (want - (got + length bs)) (rem s1)"
          "length (rem s) < want - got \<longleftrightarrow> length (rem s1) < want - (got + length bs)"
          "got + min (want - got) (length (rem s)) = got + length bs + min (want - (got + length bs)) (length (rem s1))"
        using rd(2,3) todo(1) by auto
      show ?thesis unfolding step out by (rule ih)
    qed
  qed
qed

text \<open>
  C8. \<open>transferStream\<close> copies exactly what was asked for. For any source of bytes, read in pieces
  of any size, and any destination that accepts part of each write, the call returns; the bytes
  written are the first \<open>toTransfer\<close> bytes of the source, in order, and no byte more has been read
  from it. The result is their number, or an unexpected end of file when the length was exact (given
  exactly, or inferred from a length other than \<open>~0\<close>) and the source is shorter. The only other
  outcome is an error of the destination, after a prefix of these bytes was written. A
  \<open>NullStream\<close> as destination gets no byte and gives the same result.
\<close>

theorem transfer_copies_exactly:
  assumes "byte_source rd rem" "byte_sink wr written" "0 < chunk" "want < size_mod"
  shows "\<exists>r s' d'. transferStream True True isNull sched chunk rd wr want mode s d = Some (r, s', d') \<and>
    transfer_outcome wr rem written (written d)
      (if (mode = EXACT \<or> mode = INFER \<and> want \<noteq> 2 ^ 64 - 1) \<and> length (rem s) < want then Inl UnexpectedEof
       else Inr (min want (length (rem s))))
      (if isNull then [] else take want (rem s)) (drop want (rem s)) r s' d'"
proof (cases "want = 0")
  case True
  then show ?thesis by (simp add: transferStream_def transfer_outcome_def)
next
  case False
  define ex where "ex = ((if mode = INFER then if want = 18446744073709551615 then UNTILEOF else EXACT else mode) = EXACT)"
  have ex: "ex \<longleftrightarrow> mode = EXACT \<or> mode = INFER \<and> want \<noteq> 2 ^ 64 - 1" by (simp add: ex_def)
  define todo where "todo = next_todo chunk want 0"
  have todo: "0 < todo" "todo \<le> want" using False assms(3,4) next_todo_simp[of 0 want chunk] by (auto simp: todo_def)
  obtain bs s1 where rd: "rd todo s = (Inr bs, s1)" "rem s = bs @ rem s1" "length bs \<le> todo" "bs = [] \<Longrightarrow> rem s = []"
    using byte_source.read_cases[OF assms(1), of todo s] todo by blast
  have out: "length (rem s) < want \<longleftrightarrow> length (rem s1) < want - length bs" "take want (rem s) = bs @ take (want - length bs) (rem s1)"
      "min want (length (rem s)) = length bs + min (want - length bs) (length (rem s1))" "drop want (rem s) = drop (want - length bs) (rem s1)"
    using rd(2,3) todo(2) by auto
  have le: "length bs \<le> want" using rd(3) todo(2) by simp
  show ?thesis
  proof (cases "bs = []")
    case True
    then show ?thesis using False rd unfolding ex[symmetric]
      by (simp add: transferStream_def transfer_outcome_def readOne_def flip: todo_def ex_def)
  next
    case ne: False
    have call: "transferStream True True isNull sched chunk rd wr want mode s d =
        (if isNull then (case null_loop rd chunk want ex (length bs) s1 of None \<Rightarrow> None | Some (r, s2) \<Rightarrow> Some (r, s2, d))
         else transfer_loop sched rd wr chunk want ex (length bs) bs [] s1 d)"
      using ne False rd(1) by (simp add: transferStream_def readOne_def flip: todo_def ex_def)
    show ?thesis
    proof (cases isNull)
      case True
      then show ?thesis using null_loop_outcome[OF assms(1,3) le assms(4), of ex s1]
        unfolding ex[symmetric] call out transfer_outcome_def by (elim exE conjE) simp
    next
      case False
      then show ?thesis using transfer_loop_outcome[OF assms(1,2,3) le assms(4), of sched ex bs s1 d]
        unfolding ex[symmetric] call out by simp
    qed
  qed
qed

theorem transfer_copies_exactly_witness:
  "\<exists>r s' d'. transferStream True True False True 2 MemoryStream_read (po_write small_ops) 4 INFER (MemoryStream_ofBuffer ''abcdef'') [] =
     Some (r, s', d') \<and> transfer_outcome (po_write small_ops) ms_read (\<lambda>d. d) [] (Inr 4) ''abcd'' ''ef'' r s' d'"
proof -
  have "byte_sink (po_write small_ops) (\<lambda>p. p)" by (simp add: small_ops_def small_sink_ok)
  moreover have "min 4 (length (ms_read (MemoryStream_ofBuffer ''abcdef''))) = 4"
    "take 4 (ms_read (MemoryStream_ofBuffer ''abcdef'')) = ''abcd''" "drop 4 (ms_read (MemoryStream_ofBuffer ''abcdef'')) = ''ef''"
    "\<not> length (ms_read (MemoryStream_ofBuffer ''abcdef'')) < 4"
    by (simp_all add: MemoryStream_ofBuffer_def)
  ultimately show ?thesis
    using transfer_copies_exactly[OF memory_source.byte_source_axioms, of "po_write small_ops" "\<lambda>d. d" 2 4 False True INFER "MemoryStream_ofBuffer ''abcdef''" "[]"]
    by simp
qed

end
