(* ===== verification/Chunked.thy ===== *)
theory Chunked
  imports Line_Stream Transfer_Stream Strings_Coding
begin

text \<open>
  \<open>ChunkedStream\<close> of http/chunked.cpp, the chunked transfer coding of HTTP: data is written in
  chunks with their length in hexadecimal, and read back by lines.
\<close>

section \<open>Numbers\<close>

text \<open>What \<open>operator<<\<close> with \<open>std::hex\<close> prints.\<close>

function hex_string :: "nat \<Rightarrow> byte list" where
  "hex_string n = (if n < 16 then [hex_digit n] else hex_string (n div 16) @ [hex_digit (n mod 16)])"
  by pat_completeness auto
termination
  by (relation "measure id") auto

declare hex_string.simps [simp del]

text \<open>
  \<open>strtoull\<close> in base 16: white space, a sign, an optional \<open>0x\<close> before a digit, and digits. The result
  saturates at \<open>ULLONG_MAX\<close>; with a minus sign it is negated as an unsigned number. \<open>None\<close> says that there
  are no digits (\<open>end\<close> is the start of the string).
\<close>

definition c_isspace :: "byte \<Rightarrow> bool" where
  "c_isspace c \<longleftrightarrow> c = CHR '' '' \<or> c = CHR 0x09 \<or> c = CHR 0x0A \<or> c = CHR 0x0B \<or> c = CHR 0x0C \<or> c = CHR 0x0D"

fun hex_prefix :: "byte list \<Rightarrow> nat list" where
  "hex_prefix [] = []"
| "hex_prefix (c # cs) = (case hex_value c of None \<Rightarrow> [] | Some v \<Rightarrow> v # hex_prefix cs)"

definition digits_value :: "nat list \<Rightarrow> nat" where
  "digits_value = foldl (\<lambda>a v. 16 * a + v) 0"

definition skip_0x :: "byte list \<Rightarrow> byte list" where
  "skip_0x s =
     (case s of
        z # x # c # rest \<Rightarrow>
          if z = CHR ''0'' \<and> (x = CHR ''x'' \<or> x = CHR ''X'') \<and> hex_value c \<noteq> None then c # rest else s
      | _ \<Rightarrow> s)"

definition strtoull16 :: "byte list \<Rightarrow> nat option" where
  "strtoull16 str =
     (let s = dropWhile c_isspace str;
          negative = (s \<noteq> [] \<and> hd s = CHR ''-'');
          s1 = (if s \<noteq> [] \<and> (hd s = CHR ''-'' \<or> hd s = CHR ''+'') then tl s else s);
          ds = hex_prefix (skip_0x s1)
      in if ds = [] then None
         else if digits_value ds \<ge> size_mod then Some npos
         else if negative then Some ((size_mod - digits_value ds) mod size_mod)
         else Some (digits_value ds))"

section \<open>Operations\<close>

record 'p chunked =
  ck_nextChunk :: nat
  ck_parent :: 'p

text \<open>The two values of \<open>m_nextChunk\<close> that are no length: \<open>~0ull\<close> and \<open>~0ull - 1\<close>.\<close>

abbreviation atHeader :: nat where
  "atHeader \<equiv> 18446744073709551615"

abbreviation atFooter :: nat where
  "atFooter \<equiv> 18446744073709551614"

definition ChunkedStream_new :: "bool \<Rightarrow> bool \<Rightarrow> 'p \<Rightarrow> 'p chunked result" where
  "ChunkedStream_new supportsRead supportsFind parent =
     (if supportsRead \<and> \<not> supportsFind then Inl Assertion
      else Inr \<lparr>ck_nextChunk = atHeader, ck_parent = parent\<rparr>)"

definition on_chunked :: "('p, 'a) io \<Rightarrow> ('p chunked, 'a) io" where
  "on_chunked f s = (case f (ck_parent s) of (r, p) \<Rightarrow> (r, s\<lparr>ck_parent := p\<rparr>))"

text \<open>The line without its newline and without a carriage return before that.\<close>

definition chunk_line :: "byte list \<Rightarrow> byte list" where
  "chunk_line l =
     (let chunk = butlast l in if chunk \<noteq> [] \<and> last chunk = CHR 0x0D then butlast chunk else chunk)"

text \<open>The steps of \<open>read\<close>: the end of the last chunk, the header of the next one, its data.\<close>

definition read_footer :: "('p, byte list) io \<Rightarrow> ('p chunked, unit) io" where
  "read_footer getLine s =
     (if ck_nextChunk s = atFooter then
        io_bind (on_chunked getLine) (\<lambda>l.
          if l = [] then io_fail Assertion
          else if chunk_line l \<noteq> [] then io_fail InvalidChunkFooter
          else (\<lambda>s1. (Inr (), s1\<lparr>ck_nextChunk := atHeader\<rparr>))) s
      else (Inr (), s))"

definition read_header :: "('p, byte list) io \<Rightarrow> ('p chunked, unit) io" where
  "read_header getLine s =
     (if ck_nextChunk s = atHeader then
        io_bind (on_chunked getLine) (\<lambda>l.
          if l = [] then io_fail Assertion
          else
            case strtoull16 (chunk_line l) of
              None \<Rightarrow> (\<lambda>s1. (Inl InvalidChunkHeader, s1\<lparr>ck_nextChunk := 0\<rparr>))
            | Some n \<Rightarrow> (\<lambda>s1. (Inr (), s1\<lparr>ck_nextChunk := n\<rparr>))) s
      else (Inr (), s))"

definition read_body :: "(nat \<Rightarrow> ('p, byte list) io) \<Rightarrow> nat \<Rightarrow> ('p chunked, byte list) io" where
  "read_body rd len s =
     (if ck_nextChunk s = 0 then (Inr [], s)
      else
        io_bind (on_chunked (rd (min len (ck_nextChunk s)))) (\<lambda>bs s1.
          let left = (ck_nextChunk s1 + size_mod - length bs) mod size_mod
          in (Inr bs, s1\<lparr>ck_nextChunk := (if left = 0 then atFooter else left)\<rparr>)) s)"

definition ChunkedStream_read :: "(nat \<Rightarrow> ('p, byte list) io) \<Rightarrow> ('p, byte list) io \<Rightarrow> nat \<Rightarrow> ('p chunked, byte list) io" where
  "ChunkedStream_read rd getLine len =
     io_bind (read_footer getLine) (\<lambda>_. io_bind (read_header getLine) (\<lambda>_. read_body rd len))"

text \<open>The loop that writes a chunk is the loop of \<open>writeOne\<close>; the results of the other writes are not looked at.\<close>

definition ChunkedStream_write :: "(byte list \<Rightarrow> ('p, nat) io) \<Rightarrow> byte list \<Rightarrow> 'p \<Rightarrow> (nat result \<times> 'p) option" where
  "ChunkedStream_write wr bs p =
     (case wr (hex_string (length bs) @ [CHR 0x0D, CHR 0x0A]) p of
        (Inl e, p1) \<Rightarrow> Some (Inl e, p1)
      | (Inr _, p1) \<Rightarrow>
          (case writeOne wr bs p1 of
             None \<Rightarrow> None
           | Some (Inl e, _, p2) \<Rightarrow> Some (Inl e, p2)
           | Some (Inr _, _, p2) \<Rightarrow>
               (case wr [CHR 0x0D, CHR 0x0A] p2 of
                  (Inl e, p3) \<Rightarrow> Some (Inl e, p3)
                | (Inr _, p3) \<Rightarrow> Some (Inr (length bs), p3))))"

text \<open>\<open>close_parent\<close> is \<open>close\<close> of the parent.\<close>

definition ChunkedStream_close ::
    "bool \<Rightarrow> bool \<Rightarrow> (byte list \<Rightarrow> ('p, nat) io) \<Rightarrow> (close_type \<Rightarrow> ('p, unit) io) \<Rightarrow> close_type \<Rightarrow> ('p, unit) io" where
  "ChunkedStream_close supportsWrite own wr close_parent type =
     io_bind (if supportsWrite \<and> closes_write type
              then io_bind (wr [CHR ''0'', CHR 0x0D, CHR 0x0A]) (\<lambda>_. io_return ()) else io_return ())
       (\<lambda>_. if own then close_parent type else io_return ())"

section \<open>A printed number is read back\<close>

lemma hex_prefix_digits: "hex_prefix (map hex_digit ds @ rest) = ds @ hex_prefix rest" if "\<forall>v \<in> set ds. v < 16"
  using that by (induction ds) (auto simp: hex_digit_value)

fun hex_list :: "nat \<Rightarrow> nat list" where
  "hex_list n = (if n < 16 then [n] else hex_list (n div 16) @ [n mod 16])"

declare hex_list.simps [simp del]

lemma hex_string_list: "hex_string n = map hex_digit (hex_list n)"
  by (induction n rule: hex_list.induct) (subst hex_string.simps, subst hex_list.simps, simp)

lemma hex_list_small: "v \<in> set (hex_list n) \<Longrightarrow> v < 16"
  by (induction n rule: hex_list.induct) (subst (asm) hex_list.simps, auto split: if_splits)

lemma hex_list_value: "digits_value (hex_list n) = n"
  by (induction n rule: hex_list.induct) (subst hex_list.simps, auto simp: digits_value_def)

lemma hex_list_nonempty: "hex_list n \<noteq> []"
  by (subst hex_list.simps) simp

lemma hex_digit_plain:
  assumes "v < 16"
  shows "\<not> c_isspace (hex_digit v) \<and> hex_digit v \<noteq> CHR ''-'' \<and> hex_digit v \<noteq> CHR ''+'' \<and>
    hex_digit v \<noteq> CHR ''x'' \<and> hex_digit v \<noteq> CHR ''X'' \<and> hex_digit v \<noteq> CHR 0x0A \<and> hex_digit v \<noteq> CHR 0x0D"
  using assms hex_digit_code[OF assms] unfolding c_isspace_def char_eq_code by (auto split: if_splits)

lemma skip_0x_digits: "\<forall>v \<in> set ds. v < 16 \<Longrightarrow> skip_0x (map hex_digit ds) = map hex_digit ds"
  by (auto simp: skip_0x_def hex_digit_plain map_eq_Cons_conv split: list.splits)

lemma strtoull_hex_string:
  assumes "n < size_mod"
  shows "strtoull16 (hex_string n) = Some n"
proof -
  obtain v ds where l: "hex_list n = v # ds" using hex_list_nonempty[of n] by (cases "hex_list n") auto
  have small: "\<forall>v \<in> set (v # ds). v < 16" using hex_list_small[of _ n] l by auto
  then have "\<not> c_isspace (hex_digit v)" "hex_digit v \<noteq> CHR ''-''" "hex_digit v \<noteq> CHR ''+''" using hex_digit_plain[of v] by auto
  moreover have "hex_prefix (map hex_digit (v # ds)) = v # ds" using hex_prefix_digits[OF small, of "[]"] by simp
  ultimately show ?thesis using assms hex_list_value[of n] skip_0x_digits[OF small]
    by (simp add: strtoull16_def hex_string_list l Let_def)
qed

section \<open>What is written is read back\<close>

definition chunk_encode :: "byte list \<Rightarrow> byte list" where
  "chunk_encode bs = hex_string (length bs) @ [CHR 0x0D, CHR 0x0A] @ bs @ [CHR 0x0D, CHR 0x0A]"

definition chunks_encode :: "byte list list \<Rightarrow> byte list \<Rightarrow> byte list" where
  "chunks_encode cs rest = concat (map chunk_encode cs) @ [CHR ''0'', CHR 0x0D, CHR 0x0A] @ rest"

lemma hex_digit_0: "hex_digit 0 = CHR ''0''"
  unfolding char_eq_code by (simp add: hex_digit_code)

lemma chunks_encode_simps:
  "chunks_encode [] rest = hex_string 0 @ [CHR 0x0D, CHR 0x0A] @ rest"
  "chunks_encode (b # cs) rest =
     hex_string (length b) @ [CHR 0x0D, CHR 0x0A] @ b @ [CHR 0x0D, CHR 0x0A] @ chunks_encode cs rest"
  by (simp_all add: chunks_encode_def chunk_encode_def hex_string.simps hex_digit_0)

lemma header_line:
  "CHR 0x0A \<notin> set (hex_string n @ [CHR 0x0D])" "chunk_line (hex_string n @ [CHR 0x0D, CHR 0x0A]) = hex_string n"
  "chunk_line [CHR 0x0D, CHR 0x0A] = []"
  using hex_digit_plain[OF hex_list_small[of _ n]]
  by (fastforce simp: hex_string_list chunk_line_def butlast_append)+

text \<open>
  What a stream has still to deliver: \<open>data\<close>, after which the parent is at \<open>rest\<close>.
\<close>

definition chunks_pending :: "('p \<Rightarrow> byte list) \<Rightarrow> 'p chunked \<Rightarrow> byte list \<Rightarrow> byte list \<Rightarrow> bool" where
  "chunks_pending rem s data rest \<longleftrightarrow>
     length (rem (ck_parent s)) < size_mod \<and>
     ((\<exists>cs. ck_nextChunk s = atHeader \<and> [] \<notin> set cs \<and> rem (ck_parent s) = chunks_encode cs rest \<and> data = concat cs) \<or>
      (\<exists>cs. ck_nextChunk s = atFooter \<and> [] \<notin> set cs \<and> data = concat cs \<and>
         rem (ck_parent s) = [CHR 0x0D, CHR 0x0A] @ chunks_encode cs rest) \<or>
      (\<exists>b cs. ck_nextChunk s = length b \<and> b \<noteq> [] \<and> [] \<notin> set cs \<and> data = b @ concat cs \<and>
         rem (ck_parent s) = b @ [CHR 0x0D, CHR 0x0A] @ chunks_encode cs rest) \<or>
      (ck_nextChunk s = 0 \<and> rem (ck_parent s) = rest \<and> data = []))"

lemma pending_left:
  assumes "length (rem p) < size_mod" "[] \<notin> set cs" "rem p = b @ [CHR 0x0D, CHR 0x0A] @ chunks_encode cs rest"
  shows "chunks_pending rem (s\<lparr>ck_parent := p, ck_nextChunk := (if b = [] then atFooter else length b)\<rparr>) (b @ concat cs) rest"
proof (cases "b = []")
  case True
  then show ?thesis using assms unfolding chunks_pending_def by (intro conjI disjI2 disjI1 exI[of _ cs]) simp_all
next
  case False
  then show ?thesis using assms unfolding chunks_pending_def
    by (intro conjI) (simp, intro disjI2 disjI1 exI[of _ b] exI[of _ cs], simp)
qed

lemma append_split:
  assumes "b @ x = bs @ y" "length bs \<le> length b"
  shows "b = bs @ drop (length bs) b" "y = drop (length bs) b @ x"
proof -
  have "take (length bs) (b @ x) = bs" "drop (length bs) (b @ x) = y" using assms(1) by simp_all
  then show "b = bs @ drop (length bs) b" "y = drop (length bs) b @ x"
    using assms(2) append_take_drop_id[of "length bs" b] by auto
qed

context line_source
begin

lemma read_footer_ok:
  assumes "chunks_pending remaining s data rest"
  obtains s' where "read_footer get_line s = (Inr (), s')" "chunks_pending remaining s' data rest" "ck_nextChunk s' \<noteq> atFooter"
proof (cases "ck_nextChunk s = atFooter")
  case False
  then show ?thesis using that[of s] assms by (simp add: read_footer_def)
next
  case True
  have len: "length (remaining (ck_parent s)) < size_mod" using assms by (simp add: chunks_pending_def)
  obtain cs where cs: "[] \<notin> set cs" "remaining (ck_parent s) = [CHR 0x0D, CHR 0x0A] @ chunks_encode cs rest" "data = concat cs"
    using assms True len by (auto simp: chunks_pending_def)
  then obtain p' where p': "get_line (ck_parent s) = (Inr [CHR 0x0D, CHR 0x0A], p')" "remaining p' = chunks_encode cs rest"
    using line_found[OF len, of "[CHR 0x0D]" "chunks_encode cs rest"] by auto
  let ?s = "\<lparr>ck_nextChunk = atHeader, ck_parent = p'\<rparr>"
  have "read_footer get_line s = (Inr (), s\<lparr>ck_parent := p', ck_nextChunk := atHeader\<rparr>)"
    using True p'(1) by (simp add: read_footer_def io_bind_def on_chunked_def header_line)
  moreover have "length (remaining p') < size_mod" using len cs(2) p'(2) by simp
  ultimately show ?thesis using that[of "s\<lparr>ck_parent := p', ck_nextChunk := atHeader\<rparr>"] cs p'(2)
    by (auto simp: chunks_pending_def)
qed

lemma read_header_ok:
  assumes "chunks_pending remaining s data rest" "ck_nextChunk s \<noteq> atFooter"
  obtains s' where "read_header get_line s = (Inr (), s')" "length (remaining (ck_parent s')) < size_mod"
    "(ck_nextChunk s' = 0 \<and> remaining (ck_parent s') = rest \<and> data = []) \<or>
     (\<exists>b cs. ck_nextChunk s' = length b \<and> b \<noteq> [] \<and> [] \<notin> set cs \<and> data = b @ concat cs \<and>
         remaining (ck_parent s') = b @ [CHR 0x0D, CHR 0x0A] @ chunks_encode cs rest)"
proof (cases "ck_nextChunk s = atHeader")
  case False
  then show ?thesis using that[of s] assms by (auto simp: chunks_pending_def read_header_def)
next
  case True
  have len: "length (remaining (ck_parent s)) < size_mod" using assms by (simp add: chunks_pending_def)
  obtain cs where cs: "[] \<notin> set cs" "remaining (ck_parent s) = chunks_encode cs rest" "data = concat cs"
    using assms True len by (auto simp: chunks_pending_def)
  obtain n tail where split: "remaining (ck_parent s) = hex_string n @ [CHR 0x0D, CHR 0x0A] @ tail"
      "n < size_mod" "n = 0 \<and> tail = rest \<and> cs = [] \<or>
       (\<exists>b cs'. n = length b \<and> cs = b # cs' \<and> tail = b @ [CHR 0x0D, CHR 0x0A] @ chunks_encode cs' rest)"
  proof (cases cs)
    case Nil
    then show ?thesis using that[of 0 rest] cs(2) by (simp add: chunks_encode_simps)
  next
    case (Cons b cs')
    then show ?thesis
      using that[of "length b" "b @ [CHR 0x0D, CHR 0x0A] @ chunks_encode cs' rest"] cs(2) len by (simp add: chunks_encode_simps)
  qed
  obtain p' where p': "get_line (ck_parent s) = (Inr (hex_string n @ [CHR 0x0D, CHR 0x0A]), p')" "remaining p' = tail"
    using line_found[OF len, of "hex_string n @ [CHR 0x0D]" tail] split(1) header_line(1) by auto
  have "read_header get_line s = (Inr (), s\<lparr>ck_parent := p', ck_nextChunk := n\<rparr>)"
    using True p'(1) strtoull_hex_string[OF split(2)] by (simp add: read_header_def io_bind_def on_chunked_def header_line)
  moreover have "length (remaining p') < size_mod" using len split(1) p'(2) by simp
  moreover have "(n = 0 \<and> tail = rest \<and> data = []) \<or>
     (\<exists>b cs. n = length b \<and> b \<noteq> [] \<and> [] \<notin> set cs \<and> data = b @ concat cs \<and>
       tail = b @ [CHR 0x0D, CHR 0x0A] @ chunks_encode cs rest)"
    using split(3)
  proof (elim disjE exE conjE)
    fix b cs' assume "n = length b" "cs = b # cs'" "tail = b @ [CHR 0x0D, CHR 0x0A] @ chunks_encode cs' rest"
    then show ?thesis using cs(1,3) by (intro disjI2 exI[of _ b] exI[of _ cs']) auto
  qed (use cs(3) in simp)
  ultimately show ?thesis using that[of "s\<lparr>ck_parent := p', ck_nextChunk := n\<rparr>"] p'(2) by simp
qed

lemma chunked_read_ok:
  assumes "chunks_pending remaining s data rest" "0 < len"
  obtains bs s' where "ChunkedStream_read read_from get_line len s = (Inr bs, s')" "length bs \<le> len"
    "data = bs @ drop (length bs) data" "chunks_pending remaining s' (drop (length bs) data) rest"
    "bs = [] \<Longrightarrow> data = [] \<and> ck_nextChunk s' = 0 \<and> remaining (ck_parent s') = rest"
proof -
  obtain s1 where s1: "read_footer get_line s = (Inr (), s1)" "chunks_pending remaining s1 data rest" "ck_nextChunk s1 \<noteq> atFooter"
    using read_footer_ok[OF assms(1)] by blast
  obtain s2 where s2: "read_header get_line s1 = (Inr (), s2)" "length (remaining (ck_parent s2)) < size_mod"
    "(ck_nextChunk s2 = 0 \<and> remaining (ck_parent s2) = rest \<and> data = []) \<or>
     (\<exists>b cs. ck_nextChunk s2 = length b \<and> b \<noteq> [] \<and> [] \<notin> set cs \<and> data = b @ concat cs \<and>
         remaining (ck_parent s2) = b @ [CHR 0x0D, CHR 0x0A] @ chunks_encode cs rest)"
    using read_header_ok[OF s1(2,3)] by blast
  have call: "ChunkedStream_read read_from get_line len s = read_body read_from len s2"
    using s1(1) s2(1) by (simp add: ChunkedStream_read_def io_bind_def)
  from s2(3) show ?thesis
  proof (elim disjE exE conjE)
    assume a: "ck_nextChunk s2 = 0" "remaining (ck_parent s2) = rest" "data = []"
    then show ?thesis using that[of "[]" s2] call s2(2) by (simp add: read_body_def chunks_pending_def)
  next
    fix b cs assume a: "ck_nextChunk s2 = length b" "b \<noteq> []" "[] \<notin> set cs" "data = b @ concat cs"
      "remaining (ck_parent s2) = b @ [CHR 0x0D, CHR 0x0A] @ chunks_encode cs rest"
    define n where "n = min len (length b)"
    have n: "0 < n" "n \<le> len" "n \<le> length b" using assms(2) a(2) by (simp_all add: n_def)
    obtain bs p' where r: "read_from n (ck_parent s2) = (Inr bs, p')" "remaining (ck_parent s2) = bs @ remaining p'"
        "length bs \<le> n" "bs = [] \<Longrightarrow> remaining (ck_parent s2) = []"
      using read_cases[of n "ck_parent s2"] n(1) by blast
    have "bs \<noteq> []" using r(4) a(5) by auto
    moreover have "length bs \<le> length b" using r(3) n(3) by simp
    ultimately have bs: "bs \<noteq> []" "b = bs @ drop (length bs) b" "remaining p' = drop (length bs) b @ [CHR 0x0D, CHR 0x0A] @ chunks_encode cs rest"
      using append_split[OF trans[OF a(5)[symmetric] r(2)]] by simp_all
    have wrap: "(length b + size_mod - length bs) mod size_mod = length (drop (length bs) b)"
    proof -
      have "length b < size_mod" using s2(2) a(5) by simp
      moreover have "length b + size_mod - length bs = (length b - length bs) + size_mod" using r(3) n(3) by simp
      ultimately show ?thesis by (metis length_drop less_imp_diff_less mod_add_self2 mod_less)
    qed
    let ?s = "s2\<lparr>ck_parent := p', ck_nextChunk := (if drop (length bs) b = [] then atFooter else length (drop (length bs) b))\<rparr>"
    have body: "read_body read_from len s2 = (Inr bs, ?s)"
      using a(1,2) r(1) wrap by (simp add: read_body_def io_bind_def on_chunked_def Let_def flip: n_def)
    have "length (remaining p') < size_mod" using s2(2) r(2) by simp
    then have "chunks_pending remaining ?s (drop (length bs) b @ concat cs) rest"
      using bs(3) a(3) by (intro pending_left)
    moreover have "data = bs @ (drop (length bs) b @ concat cs)" using bs(2) a(4) by simp
    ultimately show ?thesis using that[of bs ?s] call body r(3) n(2) bs(1) by simp
  qed
qed

end

context full_sink
begin

lemma write_cases:
  assumes "ready p"
  obtains (complete) p' where "write_to bs p = (Inr (length bs), p')" "written p' = written p @ bs" "ready p'"
  | (thrown) e p' where "write_to bs p = (Inl e, p')"
proof -
  obtain r p' where w: "write_to bs p = (r, p')" by fastforce
  then show ?thesis using write_full[OF assms w] that by (cases r) auto
qed

lemma writeOne_full:
  assumes "ready p"
  obtains (complete) p' where "writeOne write_to bs p = Some (Inr (), [], p')" "written p' = written p @ bs" "ready p'"
  | (thrown) e left p' where "writeOne write_to bs p = Some (Inl e, left, p')"
proof (cases "bs = []")
  case True
  then show ?thesis using that(1)[of p] assms by (simp add: writeOne.simps)
next
  case False
  show ?thesis
  proof (cases rule: write_cases[OF assms, of bs, case_names full thrown])
    case (full p')
    then have "writeOne write_to bs p = Some (Inr (), [], p')" using False by (subst writeOne.simps, simp, subst writeOne.simps, simp)
    then show ?thesis using that(1) full by blast
  next
    case (thrown e p')
    then have "\<exists>left p2. writeOne write_to bs p = Some (Inl e, left, p2)" using False by (subst writeOne.simps) simp
    then show ?thesis using that(2) by blast
  qed
qed

lemma chunked_write_ok:
  assumes "ready p"
  obtains (written) p' where "ChunkedStream_write write_to bs p = Some (Inr (length bs), p')" "written p' = written p @ chunk_encode bs" "ready p'"
  | (thrown) e p' where "ChunkedStream_write write_to bs p = Some (Inl e, p')"
proof (cases rule: write_cases[OF assms, of "hex_string (length bs) @ [CHR 0x0D, CHR 0x0A]", case_names header failed])
  case (failed e p1)
  then show ?thesis using thrown by (simp add: ChunkedStream_write_def)
next
  case (header p1)
  show ?thesis
  proof (cases rule: writeOne_full[OF header(3), of bs, case_names data failed])
    case (failed e left p2)
    then show ?thesis using thrown header by (simp add: ChunkedStream_write_def)
  next
    case (data p2)
    show ?thesis
    proof (cases rule: write_cases[OF data(3), of "[CHR 0x0D, CHR 0x0A]", case_names footer failed])
      case (failed e p3)
      then show ?thesis using thrown header data by (simp add: ChunkedStream_write_def)
    next
      case (footer p3)
      then show ?thesis using written[of p3] header data by (simp add: ChunkedStream_write_def chunk_encode_def)
    qed
  qed
qed

end

text \<open>Writing several chunks, and reading until the end of the stream with at most \<open>fuel\<close> reads.\<close>

fun write_chunks :: "(byte list \<Rightarrow> ('p, nat) io) \<Rightarrow> byte list list \<Rightarrow> 'p \<Rightarrow> (unit result \<times> 'p) option" where
  "write_chunks wr [] p = Some (Inr (), p)"
| "write_chunks wr (c # cs) p =
     (case ChunkedStream_write wr c p of
        None \<Rightarrow> None
      | Some (Inl e, p1) \<Rightarrow> Some (Inl e, p1)
      | Some (Inr _, p1) \<Rightarrow> write_chunks wr cs p1)"

fun read_all :: "(nat \<Rightarrow> ('s, byte list) io) \<Rightarrow> nat \<Rightarrow> nat \<Rightarrow> ('s, byte list) io" where
  "read_all rd 0 len = io_fail Loops"
| "read_all rd (Suc fuel) len =
     io_bind (rd len) (\<lambda>bs. if bs = [] then io_return [] else io_bind (read_all rd fuel len) (\<lambda>more. io_return (bs @ more)))"

lemma write_chunks_written:
  assumes "full_sink wr wrtn ready" "ready p" "write_chunks wr cs p = Some (Inr (), p')"
  shows "wrtn p' = wrtn p @ concat (map chunk_encode cs) \<and> ready p'"
  using assms(2,3)
proof (induction cs arbitrary: p)
  case (Cons c cs)
  show ?case
  proof (cases rule: full_sink.chunked_write_ok[OF assms(1) Cons.prems(1), of c, case_names written thrown])
    case (written p1)
    then show ?thesis using Cons.IH[of p1] Cons.prems by simp
  next
    case (thrown e p1)
    then show ?thesis using Cons.prems by simp
  qed
qed simp

lemma read_all_chunks:
  assumes "line_source rd rem gl" "chunks_pending rem s data rest" "0 < len" "length data < fuel"
  shows "\<exists>s'. read_all (ChunkedStream_read rd gl) fuel len s = (Inr data, s') \<and> rem (ck_parent s') = rest"
  using assms(2,4)
proof (induction fuel arbitrary: s data)
  case (Suc fuel)
  obtain bs s' where r: "ChunkedStream_read rd gl len s = (Inr bs, s')" "data = bs @ drop (length bs) data"
      "chunks_pending rem s' (drop (length bs) data) rest" "bs = [] \<Longrightarrow> data = [] \<and> rem (ck_parent s') = rest"
    using line_source.chunked_read_ok[OF assms(1) Suc.prems(1) assms(3)] by blast
  show ?case
  proof (cases "bs = []")
    case True
    then show ?thesis using r by (simp add: io_defs)
  next
    case False
    obtain k where k: "length bs = Suc k" using False by (cases bs) auto
    have "length bs \<le> length data" using r(2) by (metis le_add1 length_append)
    then have "length (drop (length bs) data) < fuel" using Suc.prems(2) k by simp
    from Suc.IH[OF r(3) this] obtain s2 where
      "read_all (ChunkedStream_read rd gl) fuel len s' = (Inr (drop (length bs) data), s2)" "rem (ck_parent s2) = rest" by blast
    then have "read_all (ChunkedStream_read rd gl) (Suc fuel) len s = (Inr (bs @ drop (length bs) data), s2)"
      using r(1) False by (simp add: io_defs)
    then show ?thesis using \<open>rem (ck_parent s2) = rest\<close> unfolding r(2)[symmetric] by blast
  qed
qed simp

lemma chunks_written:
  assumes sink: "full_sink wr wrtn ready" and "ready d" "wrtn d = []" "write_chunks wr cs d = Some (Inr (), d1)"
    and "ChunkedStream_close True False wr closeParent CloseWrite d1 = (Inr (), d2)"
  shows "wrtn d2 @ rest = chunks_encode cs rest" "ready d2"
proof -
  obtain n where w: "wr [CHR ''0'', CHR 0x0D, CHR 0x0A] d1 = (Inr n, d2)"
    using assms(5) by (auto simp: ChunkedStream_close_def closes_write_def io_defs split: prod.splits sum.splits)
  note d1 = write_chunks_written[OF sink assms(2,4)]
  have "wrtn d2 = wrtn d1 @ [CHR ''0'', CHR 0x0D, CHR 0x0A] \<and> ready d2" using full_sink.write_full[OF sink _ w] d1 by simp
  then show "wrtn d2 @ rest = chunks_encode cs rest" "ready d2" using d1 assms(3) by (simp_all add: chunks_encode_def)
qed


lemma buffered_chunk:
  assumes "length (bf_writeBuffer s) + length (chunk_encode bs) < bf_bufferSize s" "bs \<noteq> []"
  shows "ChunkedStream_write (buffered_write P) bs s = Some (Inr (length bs), s\<lparr>bf_writeBuffer := bf_writeBuffer s @ chunk_encode bs\<rparr>)"
proof -
  have w: "buffered_write P b t = (Inr (length b), t\<lparr>bf_writeBuffer := bf_writeBuffer t @ b\<rparr>)"
    if "length (bf_writeBuffer t) + length b < bf_bufferSize t" for b :: "byte list" and t :: "'a buffered"
    using that by (simp add: buffered_write_def BufferedStream_write_def flushWrite.simps)
  have "writeOne (buffered_write P) bs t = Some (Inr (), [], t\<lparr>bf_writeBuffer := bf_writeBuffer t @ bs\<rparr>)"
    if "length (bf_writeBuffer t) + length bs < bf_bufferSize t" for t :: "'a buffered"
    using assms(2) w[OF that] by (subst writeOne.simps, simp, subst writeOne.simps, simp)
  then show ?thesis using assms(1) by (simp add: ChunkedStream_write_def w chunk_encode_def)
qed


section \<open>Errors\<close>

text \<open>
  C34. What a \<open>ChunkedStream\<close> makes of a malformed stream. A header line without a hexadecimal
  number throws an invalid header, and the stream then claims to be at its end; a line that is not
  empty after the data of a chunk throws an invalid footer; a stream that ends where a line is
  expected throws an unexpected end of file. But a stream that ends within the data of a
  chunk is taken for a complete one: the read gives no byte and no error.
\<close>

theorem chunked_read_errors:
  assumes "line_source rd rem gl" "length (rem (ck_parent s)) < size_mod"
  shows "(ck_nextChunk s = atHeader \<and> rem (ck_parent s) = l @ CHR 0x0A # rest \<and> CHR 0x0A \<notin> set l \<and>
       strtoull16 (chunk_line (l @ [CHR 0x0A])) = None \<longrightarrow>
       (\<exists>s'. ChunkedStream_read rd gl len s = (Inl InvalidChunkHeader, s') \<and> ChunkedStream_read rd gl len s' = (Inr [], s'))) \<and>
    (ck_nextChunk s = atFooter \<and> rem (ck_parent s) = l @ CHR 0x0A # rest \<and> CHR 0x0A \<notin> set l \<and>
       chunk_line (l @ [CHR 0x0A]) \<noteq> [] \<longrightarrow> (\<exists>s'. ChunkedStream_read rd gl len s = (Inl InvalidChunkFooter, s'))) \<and>
    ((ck_nextChunk s = atHeader \<or> ck_nextChunk s = atFooter) \<and> CHR 0x0A \<notin> set (rem (ck_parent s)) \<longrightarrow>
       (\<exists>s'. ChunkedStream_read rd gl len s = (Inl UnexpectedEof, s'))) \<and>
    (0 < ck_nextChunk s \<and> ck_nextChunk s < atFooter \<and> rem (ck_parent s) = [] \<longrightarrow>
       (\<exists>s'. ChunkedStream_read rd gl len s = (Inr [], s')))"
proof (intro conjI impI; elim conjE)
  assume a: "ck_nextChunk s = atHeader" "rem (ck_parent s) = l @ CHR 0x0A # rest" "CHR 0x0A \<notin> set l"
    "strtoull16 (chunk_line (l @ [CHR 0x0A])) = None"
  obtain p' where "gl (ck_parent s) = (Inr (l @ [CHR 0x0A]), p')" using line_source.line_found[OF assms a(2,3)] by blast
  then show "\<exists>s'. ChunkedStream_read rd gl len s = (Inl InvalidChunkHeader, s') \<and> ChunkedStream_read rd gl len s' = (Inr [], s')"
    using a(1,4) by (simp add: ChunkedStream_read_def read_footer_def read_header_def read_body_def io_bind_def on_chunked_def)
next
  assume a: "ck_nextChunk s = atFooter" "rem (ck_parent s) = l @ CHR 0x0A # rest" "CHR 0x0A \<notin> set l"
    "chunk_line (l @ [CHR 0x0A]) \<noteq> []"
  obtain p' where "gl (ck_parent s) = (Inr (l @ [CHR 0x0A]), p')" using line_source.line_found[OF assms a(2,3)] by blast
  then show "\<exists>s'. ChunkedStream_read rd gl len s = (Inl InvalidChunkFooter, s')"
    using a(1,4) by (simp add: ChunkedStream_read_def read_footer_def io_defs on_chunked_def)
next
  assume a: "ck_nextChunk s = atHeader \<or> ck_nextChunk s = atFooter" "CHR 0x0A \<notin> set (rem (ck_parent s))"
  obtain p' where "gl (ck_parent s) = (Inl UnexpectedEof, p')" using line_source.line_missing[OF assms a(2)] by blast
  then show "\<exists>s'. ChunkedStream_read rd gl len s = (Inl UnexpectedEof, s')"
    using a(1) by (auto simp: ChunkedStream_read_def read_footer_def read_header_def io_bind_def on_chunked_def)
next
  assume a: "0 < ck_nextChunk s" "ck_nextChunk s < atFooter" "rem (ck_parent s) = []"
  have src: "byte_source rd rem" using assms(1) by (simp add: line_source_def)
  obtain p' where "rd (min len (ck_nextChunk s)) (ck_parent s) = (Inr [], p')"
    using byte_source.read_prefix[OF src, of "min len (ck_nextChunk s)" "ck_parent s"] a(3) by auto
  then show "\<exists>s'. ChunkedStream_read rd gl len s = (Inr [], s')"
    using a(1,2) by (simp add: ChunkedStream_read_def read_footer_def read_header_def read_body_def io_bind_def on_chunked_def Let_def)
qed

theorem chunked_read_errors_witness:
  "\<exists>s'. ChunkedStream_read MemoryStream_read memory_line 5
     \<lparr>ck_nextChunk = atHeader, ck_parent = MemoryStream_ofBuffer (''zz'' @ [CHR 0x0A])\<rparr> = (Inl InvalidChunkHeader, s')"
proof -
  have "strtoull16 (chunk_line (''zz'' @ [CHR 0x0A])) = None"
    by (simp add: chunk_line_def strtoull16_def c_isspace_def skip_0x_def hex_value_def)
  then show ?thesis
    using chunked_read_errors[OF memory_lines.line_source_axioms,
      of "\<lparr>ck_nextChunk = atHeader, ck_parent = MemoryStream_ofBuffer (''zz'' @ [CHR 0x0A])\<rparr>" "''zz''" "[]" 5]
    by (auto simp: MemoryStream_ofBuffer_def)
qed

text \<open>
  Two flaws of \<open>write\<close>. A write of no bytes gives the chunk that ends the stream. And the results of the
  writes of the header are ignored: over a sink that takes three bytes at a time the header of a
  chunk of 16 bytes loses its newline.
\<close>

lemma chunked_write_flaws:
  "chunk_encode [] = [CHR ''0'', CHR 0x0D, CHR 0x0A, CHR 0x0D, CHR 0x0A]"
  "fst (small_sink (hex_string 16 @ [CHR 0x0D, CHR 0x0A]) []) = Inr 3"
  "snd (small_sink (hex_string 16 @ [CHR 0x0D, CHR 0x0A]) []) = [CHR ''1'', CHR ''0'', CHR 0x0D]"
proof -
  have "hex_digit 1 = CHR ''1''" unfolding char_eq_code by (simp add: hex_digit_code)
  then show "snd (small_sink (hex_string 16 @ [CHR 0x0D, CHR 0x0A]) []) = [CHR ''1'', CHR ''0'', CHR 0x0D]"
    by (simp add: small_sink_def hex_string.simps hex_digit_0)
qed (simp_all add: chunk_encode_def small_sink_def hex_string.simps hex_digit_0)

end
