(* ===== verification/Pipe.thy ===== *)
theory Pipe
  imports Streams
begin

text \<open>
  \<open>PipeStream\<close> of pipe.cpp: two ends, each with the buffer the other end writes into and with the
  fibers of the other end that wait for it. An operation is what the code does under the common
  mutex; an operation that waits gives \<open>None\<close> and is run again when its fiber was scheduled.
\<close>

section \<open>The two ends\<close>

datatype side = First | Second

fun other :: "side \<Rightarrow> side" where
  "other First = Second"
| "other Second = First"

lemma other_other [simp]: "other (other x) = x"
  by (cases x) simp_all

lemma other_neq [simp]: "other x \<noteq> x" "x \<noteq> other x"
  by (cases x; simp)+

lemma side_eq: "y \<noteq> x \<longleftrightarrow> y = other x"
  by (cases x; cases y) simp_all

text \<open>The fiber that reads from, or that writes to or flushes, an end.\<close>

datatype pipe_fiber = Reader side | Writer side

record pipe_end =
  pi_alive :: bool
  pi_readBuffer :: "byte list"
  pi_bufferSize :: nat
  pi_cancelledRead :: bool
  pi_cancelledWrite :: bool
  pi_closed :: close_type
  pi_otherClosed :: close_type
  pi_pendingWriter :: "pipe_fiber option"
  pi_pendingReader :: "pipe_fiber option"
  pi_onRemoteClose :: nat

type_synonym pipe = "side \<Rightarrow> pipe_end"

text \<open>The result or error of an operation, the pipe, and the fibers it scheduled.\<close>

type_synonym 'a pipe_op = "pipe \<Rightarrow> 'a result \<times> pipe \<times> pipe_fiber list"

definition close_flags :: "bool \<Rightarrow> bool \<Rightarrow> close_type" where
  "close_flags r w = (if r then (if w then CloseBoth else CloseRead) else (if w then CloseWrite else CloseNone))"

definition close_or :: "close_type \<Rightarrow> close_type \<Rightarrow> close_type" where
  "close_or a b = close_flags (closes_read a \<or> closes_read b) (closes_write a \<or> closes_write b)"

definition PipeStream_new :: "nat \<Rightarrow> pipe_end" where
  "PipeStream_new bufferSize =
     \<lparr>pi_alive = True, pi_readBuffer = [], pi_bufferSize = bufferSize, pi_cancelledRead = False, pi_cancelledWrite = False,
      pi_closed = CloseNone, pi_otherClosed = CloseNone, pi_pendingWriter = None, pi_pendingReader = None, pi_onRemoteClose = 0\<rparr>"

text \<open>The size is compared with \<open>~0u\<close>, an \<open>unsigned int\<close>.\<close>

definition pipeStream :: "nat \<Rightarrow> pipe" where
  "pipeStream bufferSize = (\<lambda>_. PipeStream_new (if bufferSize = 4294967295 then 65536 else bufferSize))"

text \<open>The code that schedules a waiting fiber, if there is one and the condition holds.\<close>

definition wake_reader :: "side \<Rightarrow> bool \<Rightarrow> pipe \<Rightarrow> pipe \<times> pipe_fiber list" where
  "wake_reader x c p =
     (case pi_pendingReader (p x) of
        Some f \<Rightarrow> if c then (p(x := (p x)\<lparr>pi_pendingReader := None\<rparr>), [f]) else (p, [])
      | None \<Rightarrow> (p, []))"

definition wake_writer :: "side \<Rightarrow> bool \<Rightarrow> pipe \<Rightarrow> pipe \<times> pipe_fiber list" where
  "wake_writer x c p =
     (case pi_pendingWriter (p x) of
        Some f \<Rightarrow> if c then (p(x := (p x)\<lparr>pi_pendingWriter := None\<rparr>), [f]) else (p, [])
      | None \<Rightarrow> (p, []))"

section \<open>Operations\<close>

text \<open>A stream that is being destroyed can no longer be reached through the pointer of the other end.\<close>

definition PipeStream_destroy :: "side \<Rightarrow> unit pipe_op" where
  "PipeStream_destroy x p =
     (if pi_alive (p (other x)) \<and> (pi_pendingReader (p (other x)) \<noteq> None \<or> pi_pendingWriter (p (other x)) \<noteq> None)
      then (Inl Assertion, p, [])
      else
        let p1 = p(x := (p x)\<lparr>pi_alive := False\<rparr>);
            o1 = p1 (other x);
            p2 = (if pi_alive o1
                  then p1(other x := o1\<lparr>pi_otherClosed := close_flags (pi_readBuffer (p1 x) = []) (closes_write (pi_otherClosed o1)),
                                       pi_onRemoteClose := pi_onRemoteClose o1 + 1\<rparr>)
                  else p1);
            (p3, fs) = wake_reader x True p2;
            (p4, gs) = wake_writer x True p3
        in (Inr (), p4, fs @ gs))"

definition PipeStream_close :: "side \<Rightarrow> close_type \<Rightarrow> unit pipe_op" where
  "PipeStream_close x type p =
     (let closeWriteFirstTime = (\<not> closes_write (pi_closed (p x)) \<and> closes_write type);
          closed = close_or (pi_closed (p x)) type;
          p1 = p(x := (p x)\<lparr>pi_closed := closed\<rparr>);
          o1 = p1 (other x);
          p2 = (if pi_alive o1
                then p1(other x := o1\<lparr>pi_otherClosed := closed,
                                     pi_onRemoteClose := pi_onRemoteClose o1 + (if closeWriteFirstTime then 1 else 0)\<rparr>)
                else p1);
          (p3, fs) = wake_reader x (closes_write closed) p2;
          (p4, gs) = wake_writer x (closes_read closed) p3
      in (Inr (), p4, fs @ gs))"

text \<open>One turn of the loop of \<open>read\<close>.\<close>

definition PipeStream_read :: "side \<Rightarrow> nat \<Rightarrow> byte list option pipe_op" where
  "PipeStream_read x len p =
     (if len = 0 then (Inl Assertion, p, [])
      else if closes_read (pi_closed (p x)) then (Inl BrokenPipe, p, [])
      else if \<not> pi_alive (p (other x)) \<and> \<not> closes_write (pi_otherClosed (p x)) then (Inl BrokenPipe, p, [])
      else
        let avail = length (pi_readBuffer (p x))
        in if avail > 0 then
             let todo = min len avail;
                 (p1, fs) = wake_writer x True (p(x := (p x)\<lparr>pi_readBuffer := drop todo (pi_readBuffer (p x))\<rparr>))
             in (Inr (Some (take todo (pi_readBuffer (p x)))), p1, fs)
           else if closes_write (pi_otherClosed (p x)) then (Inr (Some []), p, [])
           else if pi_cancelledRead (p x) then (Inl OperationAborted, p, [])
           else if pi_pendingReader (p (other x)) \<noteq> None then (Inl Assertion, p, [])
           else (Inr None, p(other x := (p (other x))\<lparr>pi_pendingReader := Some (Reader x)\<rparr>), []))"

text \<open>The handler around the wait, when an exception ends it.\<close>

definition PipeStream_read_unwind :: "side \<Rightarrow> unit pipe_op" where
  "PipeStream_read_unwind x p =
     (if pi_alive (p (other x)) \<and> pi_pendingReader (p (other x)) = Some (Reader x)
      then (Inr (), p(other x := (p (other x))\<lparr>pi_pendingReader := None\<rparr>), []) else (Inr (), p, []))"

definition PipeStream_cancelRead :: "side \<Rightarrow> unit pipe_op" where
  "PipeStream_cancelRead x p =
     (case wake_reader (other x) (pi_alive (p (other x))) (p(x := (p x)\<lparr>pi_cancelledRead := True\<rparr>)) of (p1, fs) \<Rightarrow> (Inr (), p1, fs))"

definition PipeStream_write :: "side \<Rightarrow> byte list \<Rightarrow> nat option pipe_op" where
  "PipeStream_write x bs p =
     (if length bs = 0 then (Inl Assertion, p, [])
      else if closes_write (pi_closed (p x)) then (Inl BrokenPipe, p, [])
      else if \<not> pi_alive (p (other x)) \<or> closes_read (pi_closed (p (other x))) then (Inl BrokenPipe, p, [])
      else
        let available = length (pi_readBuffer (p (other x)));
            todo = min ((pi_bufferSize (p x) + size_mod - available) mod size_mod) (length bs)
        in if todo \<noteq> 0 then
             let (p1, fs) = wake_reader x True
                   (p(other x := (p (other x))\<lparr>pi_readBuffer := pi_readBuffer (p (other x)) @ take todo bs\<rparr>))
             in (Inr (Some todo), p1, fs)
           else if pi_cancelledWrite (p x) then (Inl OperationAborted, p, [])
           else if pi_pendingWriter (p (other x)) \<noteq> None then (Inl Assertion, p, [])
           else (Inr None, p(other x := (p (other x))\<lparr>pi_pendingWriter := Some (Writer x)\<rparr>), []))"

definition PipeStream_write_unwind :: "side \<Rightarrow> unit pipe_op" where
  "PipeStream_write_unwind x p =
     (if pi_alive (p (other x)) \<and> pi_pendingWriter (p (other x)) = Some (Writer x)
      then (Inr (), p(other x := (p (other x))\<lparr>pi_pendingWriter := None\<rparr>), []) else (Inr (), p, []))"

definition PipeStream_cancelWrite :: "side \<Rightarrow> unit pipe_op" where
  "PipeStream_cancelWrite x p =
     (case wake_writer (other x) (pi_alive (p (other x))) (p(x := (p x)\<lparr>pi_cancelledWrite := True\<rparr>)) of (p1, fs) \<Rightarrow> (Inr (), p1, fs))"

definition PipeStream_flush :: "side \<Rightarrow> unit option pipe_op" where
  "PipeStream_flush x p =
     (if pi_cancelledWrite (p x) then (Inl OperationAborted, p, [])
      else if \<not> pi_alive (p (other x)) then
        (if closes_read (pi_otherClosed (p x)) then (Inr (Some ()), p, []) else (Inl BrokenPipe, p, []))
      else if length (pi_readBuffer (p (other x))) = 0 then (Inr (Some ()), p, [])
      else if closes_read (pi_closed (p (other x))) then (Inl BrokenPipe, p, [])
      else if pi_pendingWriter (p (other x)) \<noteq> None then (Inl Assertion, p, [])
      else (Inr None, p(other x := (p (other x))\<lparr>pi_pendingWriter := Some (Writer x)\<rparr>), []))"

section \<open>Fibers using a pipe\<close>

text \<open>
  At each end at most one fiber reads and at most one writes or flushes. A fiber is idle, about to run its
  operation, or waiting. The bytes that reads returned and that writes accepted are recorded, and
  whether an assertion failed.
\<close>

datatype reader_state = RIdle | RRun nat | RWait nat

datatype writer_state = WIdle | WRun "byte list" | WWait "byte list" | FRun | FWait

record pipe_world =
  pw_pipe :: pipe
  pw_reader :: "side \<Rightarrow> reader_state"
  pw_writer :: "side \<Rightarrow> writer_state"
  pw_read :: "side \<Rightarrow> byte list"
  pw_written :: "side \<Rightarrow> byte list"
  pw_failed :: bool

fun resume :: "pipe_fiber \<Rightarrow> pipe_world \<Rightarrow> pipe_world" where
  "resume (Reader x) w = w\<lparr>pw_reader := (pw_reader w)(x := (case pw_reader w x of RWait n \<Rightarrow> RRun n | st \<Rightarrow> st))\<rparr>"
| "resume (Writer x) w = w\<lparr>pw_writer := (pw_writer w)(x := (case pw_writer w x of WWait bs \<Rightarrow> WRun bs | FWait \<Rightarrow> FRun | st \<Rightarrow> st))\<rparr>"

text \<open>The world after an operation: the pipe, the scheduled fibers, a failed assertion.\<close>

definition settle :: "'a result \<times> pipe \<times> pipe_fiber list \<Rightarrow> pipe_world \<Rightarrow> pipe_world" where
  "settle res w =
     (case res of (r, p, fs) \<Rightarrow>
        fold resume fs (w\<lparr>pw_pipe := p, pw_failed := (pw_failed w \<or> (case r of Inl e \<Rightarrow> e = Assertion | Inr _ \<Rightarrow> False))\<rparr>))"

datatype pipe_action =
    StartRead side nat | RunRead side | UnwindRead side
  | StartWrite side "byte list" | RunWrite side | StartFlush side | RunFlush side | UnwindWrite side
  | Close side close_type | CancelRead side | CancelWrite side | Destroy side

fun pipe_enabled :: "pipe_action \<Rightarrow> pipe_world \<Rightarrow> bool" where
  "pipe_enabled (StartRead x n) w \<longleftrightarrow> pi_alive (pw_pipe w x) \<and> pw_reader w x = RIdle \<and> 0 < n"
| "pipe_enabled (RunRead x) w \<longleftrightarrow> (\<exists>n. pw_reader w x = RRun n)"
| "pipe_enabled (UnwindRead x) w \<longleftrightarrow> pw_reader w x \<noteq> RIdle"
| "pipe_enabled (StartWrite x bs) w \<longleftrightarrow> pi_alive (pw_pipe w x) \<and> pw_writer w x = WIdle \<and> bs \<noteq> []"
| "pipe_enabled (RunWrite x) w \<longleftrightarrow> (\<exists>bs. pw_writer w x = WRun bs)"
| "pipe_enabled (StartFlush x) w \<longleftrightarrow> pi_alive (pw_pipe w x) \<and> pw_writer w x = WIdle"
| "pipe_enabled (RunFlush x) w \<longleftrightarrow> pw_writer w x = FRun"
| "pipe_enabled (UnwindWrite x) w \<longleftrightarrow> pw_writer w x \<noteq> WIdle"
| "pipe_enabled (Close x t) w \<longleftrightarrow> pi_alive (pw_pipe w x)"
| "pipe_enabled (CancelRead x) w \<longleftrightarrow> pi_alive (pw_pipe w x)"
| "pipe_enabled (CancelWrite x) w \<longleftrightarrow> pi_alive (pw_pipe w x)"
| "pipe_enabled (Destroy x) w \<longleftrightarrow> pi_alive (pw_pipe w x) \<and> pw_reader w x = RIdle \<and> pw_writer w x = WIdle"

fun run_read :: "side \<Rightarrow> nat \<Rightarrow> pipe_world \<Rightarrow> pipe_world" where
  "run_read x n w =
     (let res = PipeStream_read x n (pw_pipe w); w1 = settle res w
      in case fst res of
           Inr None \<Rightarrow> w1\<lparr>pw_reader := (pw_reader w1)(x := RWait n)\<rparr>
         | Inr (Some bs) \<Rightarrow> w1\<lparr>pw_reader := (pw_reader w1)(x := RIdle), pw_read := (pw_read w1)(x := pw_read w1 x @ bs)\<rparr>
         | Inl _ \<Rightarrow> w1\<lparr>pw_reader := (pw_reader w1)(x := RIdle)\<rparr>)"

fun run_write :: "side \<Rightarrow> byte list \<Rightarrow> pipe_world \<Rightarrow> pipe_world" where
  "run_write x bs w =
     (let res = PipeStream_write x bs (pw_pipe w); w1 = settle res w
      in case fst res of
           Inr None \<Rightarrow> w1\<lparr>pw_writer := (pw_writer w1)(x := WWait bs)\<rparr>
         | Inr (Some n) \<Rightarrow> w1\<lparr>pw_writer := (pw_writer w1)(x := WIdle), pw_written := (pw_written w1)(x := pw_written w1 x @ take n bs)\<rparr>
         | Inl _ \<Rightarrow> w1\<lparr>pw_writer := (pw_writer w1)(x := WIdle)\<rparr>)"

fun run_flush :: "side \<Rightarrow> pipe_world \<Rightarrow> pipe_world" where
  "run_flush x w =
     (let res = PipeStream_flush x (pw_pipe w); w1 = settle res w
      in case fst res of
           Inr None \<Rightarrow> w1\<lparr>pw_writer := (pw_writer w1)(x := FWait)\<rparr>
         | _ \<Rightarrow> w1\<lparr>pw_writer := (pw_writer w1)(x := WIdle)\<rparr>)"

fun pipe_act :: "pipe_action \<Rightarrow> pipe_world \<Rightarrow> pipe_world" where
  "pipe_act (StartRead x n) w = w\<lparr>pw_reader := (pw_reader w)(x := RRun n)\<rparr>"
| "pipe_act (RunRead x) w = (case pw_reader w x of RRun n \<Rightarrow> run_read x n w | _ \<Rightarrow> w)"
| "pipe_act (UnwindRead x) w = (settle (PipeStream_read_unwind x (pw_pipe w)) w)\<lparr>pw_reader := (pw_reader w)(x := RIdle)\<rparr>"
| "pipe_act (StartWrite x bs) w = w\<lparr>pw_writer := (pw_writer w)(x := WRun bs)\<rparr>"
| "pipe_act (RunWrite x) w = (case pw_writer w x of WRun bs \<Rightarrow> run_write x bs w | _ \<Rightarrow> w)"
| "pipe_act (StartFlush x) w = w\<lparr>pw_writer := (pw_writer w)(x := FRun)\<rparr>"
| "pipe_act (RunFlush x) w = run_flush x w"
| "pipe_act (UnwindWrite x) w = (settle (PipeStream_write_unwind x (pw_pipe w)) w)\<lparr>pw_writer := (pw_writer w)(x := WIdle)\<rparr>"
| "pipe_act (Close x t) w = settle (PipeStream_close x t (pw_pipe w)) w"
| "pipe_act (CancelRead x) w = settle (PipeStream_cancelRead x (pw_pipe w)) w"
| "pipe_act (CancelWrite x) w = settle (PipeStream_cancelWrite x (pw_pipe w)) w"
| "pipe_act (Destroy x) w = settle (PipeStream_destroy x (pw_pipe w)) w"

definition pipe_start :: "nat \<Rightarrow> pipe_world" where
  "pipe_start bufferSize =
     \<lparr>pw_pipe = pipeStream bufferSize, pw_reader = (\<lambda>_. RIdle), pw_writer = (\<lambda>_. WIdle),
      pw_read = (\<lambda>_. []), pw_written = (\<lambda>_. []), pw_failed = False\<rparr>"

declare PipeStream_new_def [pipe_defs] pipeStream_def [pipe_defs] wake_reader_def [pipe_defs] wake_writer_def [pipe_defs] close_or_def [pipe_defs] close_flags_def [pipe_defs]
  PipeStream_close_def [pipe_defs] PipeStream_read_def [pipe_defs] PipeStream_write_def [pipe_defs] settle_def [pipe_defs] pipe_start_def [pipe_defs] closes_read_def [pipe_defs] closes_write_def [pipe_defs]

inductive pipe_reach :: "nat \<Rightarrow> pipe_world \<Rightarrow> bool" for bufferSize where
  reach_start: "pipe_reach bufferSize (pipe_start bufferSize)"
| reach_step: "pipe_reach bufferSize w \<Longrightarrow> pipe_enabled a w \<Longrightarrow> pipe_reach bufferSize (pipe_act a w)"

section \<open>Invariant\<close>

fun reader_waits :: "reader_state \<Rightarrow> bool" where
  "reader_waits (RWait n) = True"
| "reader_waits _ = False"

fun writer_waits :: "writer_state \<Rightarrow> bool" where
  "writer_waits (WWait bs) = True"
| "writer_waits FWait = True"
| "writer_waits _ = False"

text \<open>What holds between the operations, except that a waiting fiber has still something to wait for.\<close>

definition end_inv :: "nat \<Rightarrow> pipe_world \<Rightarrow> side \<Rightarrow> bool" where
  "end_inv sz w x \<longleftrightarrow>
     pw_written w (other x) = pw_read w x @ pi_readBuffer (pw_pipe w x) \<and>
     length (pi_readBuffer (pw_pipe w x)) \<le> sz \<and> pi_bufferSize (pw_pipe w x) = sz \<and>
     pi_pendingReader (pw_pipe w (other x)) = (if reader_waits (pw_reader w x) then Some (Reader x) else None) \<and>
     pi_pendingWriter (pw_pipe w (other x)) = (if writer_waits (pw_writer w x) then Some (Writer x) else None) \<and>
     (pi_alive (pw_pipe w x) \<and> pi_alive (pw_pipe w (other x)) \<longrightarrow> pi_otherClosed (pw_pipe w x) = pi_closed (pw_pipe w (other x))) \<and>
     (pi_alive (pw_pipe w x) \<and> \<not> pi_alive (pw_pipe w (other x)) \<and> closes_read (pi_otherClosed (pw_pipe w x)) \<longrightarrow>
        pi_readBuffer (pw_pipe w (other x)) = []) \<and>
     (pw_reader w x \<noteq> RIdle \<or> pw_writer w x \<noteq> WIdle \<longrightarrow> pi_alive (pw_pipe w x)) \<and>
     pw_reader w x \<noteq> RRun 0 \<and> pw_reader w x \<noteq> RWait 0 \<and> pw_writer w x \<noteq> WRun [] \<and> pw_writer w x \<noteq> WWait []"

text \<open>A waiting fiber is waiting for something that has not happened.\<close>

definition reader_ok :: "pipe_world \<Rightarrow> side \<Rightarrow> bool" where
  "reader_ok w x \<longleftrightarrow>
     (reader_waits (pw_reader w x) \<longrightarrow>
        pi_alive (pw_pipe w (other x)) \<and> pi_readBuffer (pw_pipe w x) = [] \<and>
        \<not> closes_write (pi_closed (pw_pipe w (other x))) \<and> \<not> pi_cancelledRead (pw_pipe w x))"

definition writer_ok :: "nat \<Rightarrow> pipe_world \<Rightarrow> side \<Rightarrow> bool" where
  "writer_ok sz w x \<longleftrightarrow>
     (writer_waits (pw_writer w x) \<longrightarrow>
        pi_alive (pw_pipe w (other x)) \<and> \<not> closes_read (pi_closed (pw_pipe w (other x))) \<and> \<not> pi_cancelledWrite (pw_pipe w x)) \<and>
     (\<forall>bs. pw_writer w x = WWait bs \<longrightarrow> length (pi_readBuffer (pw_pipe w (other x))) = sz) \<and>
     (pw_writer w x = FWait \<longrightarrow> pi_readBuffer (pw_pipe w (other x)) \<noteq> [])"

definition inv_except :: "side set \<Rightarrow> side set \<Rightarrow> nat \<Rightarrow> pipe_world \<Rightarrow> bool" where
  "inv_except R W sz w \<longleftrightarrow>
     \<not> pw_failed w \<and> (\<forall>x. end_inv sz w x) \<and> (\<forall>x. x \<notin> R \<longrightarrow> reader_ok w x) \<and> (\<forall>x. x \<notin> W \<longrightarrow> writer_ok sz w x)"

abbreviation pipe_inv :: "nat \<Rightarrow> pipe_world \<Rightarrow> bool" where
  "pipe_inv \<equiv> inv_except {} {}"

lemma all_sides: "(\<forall>y. P y) \<longleftrightarrow> P x \<and> P (other x)"
  by (metis side_eq)

lemma closes_flags [simp]: "closes_read (close_flags r w) = r" "closes_write (close_flags r w) = w"
  by (simp_all add: close_flags_def closes_read_def closes_write_def)

lemma closes_or [simp]:
  "closes_read (close_or a b) \<longleftrightarrow> closes_read a \<or> closes_read b" "closes_write (close_or a b) \<longleftrightarrow> closes_write a \<or> closes_write b"
  by (simp_all add: close_or_def)

section \<open>Waking fibers\<close>

definition wakeR :: "side \<Rightarrow> bool \<Rightarrow> pipe_world \<Rightarrow> pipe_world" where
  "wakeR x c w =
     (if c \<and> reader_waits (pw_reader w (other x))
      then resume (Reader (other x)) (w\<lparr>pw_pipe := (pw_pipe w)(x := (pw_pipe w x)\<lparr>pi_pendingReader := None\<rparr>)\<rparr>) else w)"

definition wakeW :: "side \<Rightarrow> bool \<Rightarrow> pipe_world \<Rightarrow> pipe_world" where
  "wakeW x c w =
     (if c \<and> writer_waits (pw_writer w (other x))
      then resume (Writer (other x)) (w\<lparr>pw_pipe := (pw_pipe w)(x := (pw_pipe w x)\<lparr>pi_pendingWriter := None\<rparr>)\<rparr>) else w)"

lemma wakeR_fields [simp]:
  "pw_read (wakeR x c w) = pw_read w" "pw_written (wakeR x c w) = pw_written w" "pw_failed (wakeR x c w) = pw_failed w"
  "pw_writer (wakeR x c w) = pw_writer w"
  "pw_reader (wakeR x c w) y = (if c \<and> y = other x then (case pw_reader w y of RWait n \<Rightarrow> RRun n | st \<Rightarrow> st) else pw_reader w y)"
  "pi_alive (pw_pipe (wakeR x c w) y) = pi_alive (pw_pipe w y)" "pi_readBuffer (pw_pipe (wakeR x c w) y) = pi_readBuffer (pw_pipe w y)"
  "pi_bufferSize (pw_pipe (wakeR x c w) y) = pi_bufferSize (pw_pipe w y)" "pi_closed (pw_pipe (wakeR x c w) y) = pi_closed (pw_pipe w y)"
  "pi_otherClosed (pw_pipe (wakeR x c w) y) = pi_otherClosed (pw_pipe w y)"
  "pi_cancelledRead (pw_pipe (wakeR x c w) y) = pi_cancelledRead (pw_pipe w y)"
  "pi_cancelledWrite (pw_pipe (wakeR x c w) y) = pi_cancelledWrite (pw_pipe w y)"
  "pi_pendingWriter (pw_pipe (wakeR x c w) y) = pi_pendingWriter (pw_pipe w y)"
  "pi_pendingReader (pw_pipe (wakeR x c w) y) =
     (if c \<and> y = x \<and> reader_waits (pw_reader w (other x)) then None else pi_pendingReader (pw_pipe w y))"
  by (auto simp: wakeR_def split: reader_state.splits)

lemma wakeW_fields [simp]:
  "pw_read (wakeW x c w) = pw_read w" "pw_written (wakeW x c w) = pw_written w" "pw_failed (wakeW x c w) = pw_failed w"
  "pw_reader (wakeW x c w) = pw_reader w"
  "pw_writer (wakeW x c w) y =
     (if c \<and> y = other x then (case pw_writer w y of WWait bs \<Rightarrow> WRun bs | FWait \<Rightarrow> FRun | st \<Rightarrow> st) else pw_writer w y)"
  "pi_alive (pw_pipe (wakeW x c w) y) = pi_alive (pw_pipe w y)" "pi_readBuffer (pw_pipe (wakeW x c w) y) = pi_readBuffer (pw_pipe w y)"
  "pi_bufferSize (pw_pipe (wakeW x c w) y) = pi_bufferSize (pw_pipe w y)" "pi_closed (pw_pipe (wakeW x c w) y) = pi_closed (pw_pipe w y)"
  "pi_otherClosed (pw_pipe (wakeW x c w) y) = pi_otherClosed (pw_pipe w y)"
  "pi_cancelledRead (pw_pipe (wakeW x c w) y) = pi_cancelledRead (pw_pipe w y)"
  "pi_cancelledWrite (pw_pipe (wakeW x c w) y) = pi_cancelledWrite (pw_pipe w y)"
  "pi_pendingReader (pw_pipe (wakeW x c w) y) = pi_pendingReader (pw_pipe w y)"
  "pi_pendingWriter (pw_pipe (wakeW x c w) y) =
     (if c \<and> y = x \<and> writer_waits (pw_writer w (other x)) then None else pi_pendingWriter (pw_pipe w y))"
  by (auto simp: wakeW_def split: writer_state.splits)

lemmas inv_defs = inv_except_def end_inv_def reader_ok_def writer_ok_def

lemma wakeR_inv:
  assumes "inv_except R W sz w"
  shows "inv_except (if c then R - {other x} else R) W sz (wakeR x c w)"
proof -
  have e: "end_inv sz w y" "y \<notin> R \<Longrightarrow> reader_ok w y" "y \<notin> W \<Longrightarrow> writer_ok sz w y" for y
    using assms by (auto simp: inv_except_def)
  have "end_inv sz (wakeR x c w) y" for y
    using e(1)[of y] by (cases "y = other x") (auto simp: end_inv_def split: reader_state.splits)
  moreover have "reader_ok (wakeR x c w) y" if "y \<notin> R \<or> c \<and> y = other x" for y
    using e(2)[of y] that by (auto simp: reader_ok_def split: reader_state.splits)
  moreover have "writer_ok sz (wakeR x c w) y" if "y \<notin> W" for y
    using e(3)[OF that] by (simp add: writer_ok_def)
  ultimately show ?thesis using assms by (auto simp: inv_except_def)
qed

lemma wakeW_inv:
  assumes "inv_except R W sz w"
  shows "inv_except R (if c then W - {other x} else W) sz (wakeW x c w)"
proof -
  have e: "end_inv sz w y" "y \<notin> R \<Longrightarrow> reader_ok w y" "y \<notin> W \<Longrightarrow> writer_ok sz w y" for y
    using assms by (auto simp: inv_except_def)
  have "end_inv sz (wakeW x c w) y" for y
    using e(1)[of y] by (cases "y = other x") (auto simp: end_inv_def split: writer_state.splits)
  moreover have "writer_ok sz (wakeW x c w) y" if "y \<notin> W \<or> c \<and> y = other x" for y
    using e(3)[of y] that by (auto simp: writer_ok_def split: writer_state.splits)
  moreover have "reader_ok (wakeW x c w) y" if "y \<notin> R" for y
    using e(2)[OF that] by (simp add: reader_ok_def)
  ultimately show ?thesis using assms by (auto simp: inv_except_def)
qed

text \<open>What an operation leaves of the world, in terms of the fibers it wakes.\<close>

lemma settle_ok: "r \<noteq> Inl Assertion \<Longrightarrow> settle (r, p, fs) w = fold resume fs (w\<lparr>pw_pipe := p\<rparr>)"
  by (cases r) (simp_all add: settle_def)

lemma wake_reader_world:
  assumes "pi_pendingReader (p x) = (if reader_waits (pw_reader w (other x)) then Some (Reader (other x)) else None)"
    and "wake_reader x c p = (p1, fs)"
  shows "fold resume fs (w\<lparr>pw_pipe := p1\<rparr>) = wakeR x c (w\<lparr>pw_pipe := p\<rparr>)"
  using assms by (auto simp: wake_reader_def wakeR_def split: if_splits)

lemma wake_writer_world:
  assumes "pi_pendingWriter (p x) = (if writer_waits (pw_writer w (other x)) then Some (Writer (other x)) else None)"
    and "wake_writer x c p = (p1, fs)"
  shows "fold resume fs (w\<lparr>pw_pipe := p1\<rparr>) = wakeW x c (w\<lparr>pw_pipe := p\<rparr>)"
  using assms by (auto simp: wake_writer_def wakeW_def split: if_splits)

lemma resume_pipe: "resume f (w\<lparr>pw_pipe := p\<rparr>) = (resume f w)\<lparr>pw_pipe := p\<rparr>"
  by (cases f) auto

lemma fold_resume_pipe: "fold resume fs (w\<lparr>pw_pipe := p\<rparr>) = (fold resume fs w)\<lparr>pw_pipe := p\<rparr>"
  by (induction fs arbitrary: w) (simp_all add: resume_pipe)

lemma wake_both_world:
  assumes inv: "\<And>y. end_inv sz (w\<lparr>pw_pipe := p\<rparr>) y"
    and wr: "wake_reader x c p = (p1, fs)" and ww: "wake_writer x d p1 = (p2, gs)"
  shows "fold resume (fs @ gs) (w\<lparr>pw_pipe := p2\<rparr>) = wakeW x d (wakeR x c (w\<lparr>pw_pipe := p\<rparr>))"
proof -
  let ?w = "w\<lparr>pw_pipe := p\<rparr>"
  have pend: "pi_pendingReader (p x) = (if reader_waits (pw_reader w (other x)) then Some (Reader (other x)) else None)"
      "pi_pendingWriter (p x) = (if writer_waits (pw_writer w (other x)) then Some (Writer (other x)) else None)"
    using inv[of "other x"] by (simp_all add: end_inv_def)
  have r: "fold resume fs (w\<lparr>pw_pipe := p1\<rparr>) = wakeR x c ?w" by (rule wake_reader_world[OF pend(1) wr])
  have p1: "pw_pipe (wakeR x c ?w) = p1" unfolding r[symmetric] by (simp add: fold_resume_pipe)
  have "pi_pendingWriter (p1 x) = (if writer_waits (pw_writer (wakeR x c ?w) (other x)) then Some (Writer (other x)) else None)"
    using pend(2) unfolding p1[symmetric] by simp
  from wake_writer_world[OF this ww] have "fold resume gs ((wakeR x c ?w)\<lparr>pw_pipe := p2\<rparr>) = wakeW x d ((wakeR x c ?w)\<lparr>pw_pipe := p1\<rparr>)" .
  moreover have "(wakeR x c ?w)\<lparr>pw_pipe := p1\<rparr> = wakeR x c ?w" using p1 by simp
  moreover have "(wakeR x c ?w)\<lparr>pw_pipe := p2\<rparr> = fold resume fs (w\<lparr>pw_pipe := p2\<rparr>)" unfolding r[symmetric] by (simp add: fold_resume_pipe)
  ultimately show ?thesis by simp
qed

section \<open>Every action keeps the invariant\<close>

lemma inv_at: "inv_except R W sz w \<Longrightarrow> end_inv sz w y" "pipe_inv sz w \<Longrightarrow> reader_ok w y" "pipe_inv sz w \<Longrightarrow> writer_ok sz w y"
  by (auto simp: inv_except_def)

lemma invI:
  assumes "\<not> pw_failed w" "end_inv sz w x" "end_inv sz w (other x)"
    and "x \<notin> R \<Longrightarrow> reader_ok w x" "other x \<notin> R \<Longrightarrow> reader_ok w (other x)"
    and "x \<notin> W \<Longrightarrow> writer_ok sz w x" "other x \<notin> W \<Longrightarrow> writer_ok sz w (other x)"
  shows "inv_except R W sz w"
  using assms unfolding inv_except_def all_sides[where x = x] by simp

lemma wake_both_inv:
  assumes "inv_except (if c then {other x} else {}) (if d then {other x} else {}) sz w"
  shows "pipe_inv sz (wakeW x d (wakeR x c w))"
  using wakeW_inv[OF wakeR_inv[OF assms, of c x], of d x] by (cases c; cases d) simp_all

lemma close_inv:
  assumes inv: "pipe_inv sz w" and alive: "pi_alive (pw_pipe w x)"
  shows "pipe_inv sz (settle (PipeStream_close x t (pw_pipe w)) w)"
proof -
  let ?p = "pw_pipe w" and ?closed = "close_or (pi_closed (pw_pipe w x)) t"
  let ?p1 = "?p(x := (?p x)\<lparr>pi_closed := ?closed\<rparr>)"
  let ?p2 = "if pi_alive (?p1 (other x)) then ?p1(other x := (?p1 (other x))\<lparr>pi_otherClosed := ?closed,
      pi_onRemoteClose := pi_onRemoteClose (?p1 (other x)) + (if \<not> closes_write (pi_closed (?p x)) \<and> closes_write t then 1 else 0)\<rparr>) else ?p1"
  let ?w = "w\<lparr>pw_pipe := ?p2\<rparr>"
  note e = inv_at[OF inv, of x] inv_at[OF inv, of "other x"]
  have base: "inv_except (if closes_write ?closed then {other x} else {}) (if closes_read ?closed then {other x} else {}) sz ?w"
    using e alive inv by (intro invI[where x = x]) (auto simp: inv_defs split: if_splits)
  obtain p3 fs where p3: "wake_reader x (closes_write ?closed) ?p2 = (p3, fs)" by fastforce
  obtain p4 gs where p4: "wake_writer x (closes_read ?closed) p3 = (p4, gs)" by fastforce
  have "settle (PipeStream_close x t ?p) w = fold resume (fs @ gs) (w\<lparr>pw_pipe := p4\<rparr>)"
    using p3 p4 by (simp add: PipeStream_close_def Let_def settle_ok cong: if_cong)
  also have "\<dots> = wakeW x (closes_read ?closed) (wakeR x (closes_write ?closed) ?w)"
    by (rule wake_both_world[OF inv_at(1)[OF base] p3 p4])
  finally show ?thesis using wake_both_inv[OF base] by presburger
qed

lemma destroy_inv:
  assumes inv: "pipe_inv sz w" and idle: "pi_alive (pw_pipe w x)" "pw_reader w x = RIdle" "pw_writer w x = WIdle"
  shows "pipe_inv sz (settle (PipeStream_destroy x (pw_pipe w)) w)"
proof -
  let ?p = "pw_pipe w"
  let ?p1 = "?p(x := (?p x)\<lparr>pi_alive := False\<rparr>)"
  let ?p2 = "if pi_alive (?p1 (other x))
      then ?p1(other x := (?p1 (other x))\<lparr>pi_otherClosed := close_flags (pi_readBuffer (?p1 x) = []) (closes_write (pi_otherClosed (?p1 (other x)))),
                                           pi_onRemoteClose := pi_onRemoteClose (?p1 (other x)) + 1\<rparr>) else ?p1"
  let ?w = "w\<lparr>pw_pipe := ?p2\<rparr>"
  note e = inv_at[OF inv, of x] inv_at[OF inv, of "other x"]
  have base: "inv_except (if True then {other x} else {}) (if True then {other x} else {}) sz ?w"
    using e idle inv by (intro invI[where x = x]) (auto simp: inv_defs split: if_splits)
  have none: "pi_pendingReader (?p (other x)) = None" "pi_pendingWriter (?p (other x)) = None" using e(1) idle by (simp_all add: end_inv_def)
  obtain p3 fs where p3: "wake_reader x True ?p2 = (p3, fs)" by fastforce
  obtain p4 gs where p4: "wake_writer x True p3 = (p4, gs)" by fastforce
  have "settle (PipeStream_destroy x ?p) w = fold resume (fs @ gs) (w\<lparr>pw_pipe := p4\<rparr>)"
    using p3 p4 none by (simp add: PipeStream_destroy_def Let_def settle_ok cong: if_cong)
  also have "\<dots> = wakeW x True (wakeR x True ?w)" by (rule wake_both_world[OF inv_at(1)[OF base] p3 p4])
  finally show ?thesis using wake_both_inv[OF base] by presburger
qed

lemma cancelRead_inv:
  assumes inv: "pipe_inv sz w"
  shows "pipe_inv sz (settle (PipeStream_cancelRead x (pw_pipe w)) w)"
proof -
  let ?p = "(pw_pipe w)(x := (pw_pipe w x)\<lparr>pi_cancelledRead := True\<rparr>)"
  let ?w = "w\<lparr>pw_pipe := ?p\<rparr>" and ?c = "pi_alive (pw_pipe w (other x))"
  note e = inv_at[OF inv, of x] inv_at[OF inv, of "other x"]
  have "end_inv sz ?w x" "end_inv sz ?w (other x)" using e(1,4) by (simp_all add: end_inv_def)
  moreover have "reader_ok ?w (other x)" "writer_ok sz ?w x" "writer_ok sz ?w (other x)"
    using e(3,5,6) by (simp_all add: reader_ok_def writer_ok_def)
  moreover have "?c \<or> reader_ok ?w x" using e(2) by (auto simp: reader_ok_def)
  ultimately have base: "inv_except (if ?c then {x} else {}) {} sz ?w"
    using inv by (intro invI[where x = x]) (auto simp: inv_except_def)
  obtain p1 fs where p1: "wake_reader (other x) ?c ?p = (p1, fs)" by fastforce
  have "settle (PipeStream_cancelRead x (pw_pipe w)) w = fold resume fs (w\<lparr>pw_pipe := p1\<rparr>)"
    using p1 by (simp add: PipeStream_cancelRead_def settle_ok)
  also have "\<dots> = wakeR (other x) ?c ?w" by (rule wake_reader_world[OF _ p1]) (use e(1) in \<open>simp add: end_inv_def\<close>)
  finally show ?thesis using wakeR_inv[OF base, of ?c "other x"] by (cases ?c) simp_all
qed

lemma cancelWrite_inv:
  assumes inv: "pipe_inv sz w"
  shows "pipe_inv sz (settle (PipeStream_cancelWrite x (pw_pipe w)) w)"
proof -
  let ?p = "(pw_pipe w)(x := (pw_pipe w x)\<lparr>pi_cancelledWrite := True\<rparr>)"
  let ?w = "w\<lparr>pw_pipe := ?p\<rparr>" and ?c = "pi_alive (pw_pipe w (other x))"
  note e = inv_at[OF inv, of x] inv_at[OF inv, of "other x"]
  have "end_inv sz ?w x" "end_inv sz ?w (other x)" using e(1,4) by (simp_all add: end_inv_def)
  moreover have "reader_ok ?w x" "reader_ok ?w (other x)" "writer_ok sz ?w (other x)"
    using e(2,5,6) by (simp_all add: reader_ok_def writer_ok_def)
  moreover have "?c \<or> writer_ok sz ?w x" using e(3) by (cases "pw_writer w x") (auto simp: writer_ok_def)
  ultimately have base: "inv_except {} (if ?c then {x} else {}) sz ?w"
    using inv by (intro invI[where x = x]) (auto simp: inv_except_def)
  obtain p1 fs where p1: "wake_writer (other x) ?c ?p = (p1, fs)" by fastforce
  have "settle (PipeStream_cancelWrite x (pw_pipe w)) w = fold resume fs (w\<lparr>pw_pipe := p1\<rparr>)"
    using p1 by (simp add: PipeStream_cancelWrite_def settle_ok)
  also have "\<dots> = wakeW (other x) ?c ?w" by (rule wake_writer_world[OF _ p1]) (use e(1) in \<open>simp add: end_inv_def\<close>)
  finally show ?thesis using wakeW_inv[OF base, of ?c "other x"] by (cases ?c) simp_all
qed

lemma unwind_inv:
  assumes inv: "pipe_inv sz w"
  shows "pipe_inv sz ((settle (PipeStream_read_unwind x (pw_pipe w)) w)\<lparr>pw_reader := (pw_reader w)(x := RIdle)\<rparr>)"
    "pipe_inv sz ((settle (PipeStream_write_unwind x (pw_pipe w)) w)\<lparr>pw_writer := (pw_writer w)(x := WIdle)\<rparr>)"
proof -
  note e = inv_at[OF inv, of x] inv_at[OF inv, of "other x"]
  show "pipe_inv sz ((settle (PipeStream_read_unwind x (pw_pipe w)) w)\<lparr>pw_reader := (pw_reader w)(x := RIdle)\<rparr>)"
    using e inv by (intro invI[where x = x]) (auto simp: PipeStream_read_unwind_def settle_ok inv_defs split: if_splits)
  show "pipe_inv sz ((settle (PipeStream_write_unwind x (pw_pipe w)) w)\<lparr>pw_writer := (pw_writer w)(x := WIdle)\<rparr>)"
    using e inv by (intro invI[where x = x]) (auto simp: PipeStream_write_unwind_def settle_ok inv_defs split: if_splits)
qed

lemma start_inv:
  assumes inv: "pipe_inv sz w" and alive: "pi_alive (pw_pipe w x)"
  shows "pw_reader w x = RIdle \<Longrightarrow> 0 < n \<Longrightarrow> pipe_inv sz (w\<lparr>pw_reader := (pw_reader w)(x := RRun n)\<rparr>)"
    "pw_writer w x = WIdle \<Longrightarrow> bs \<noteq> [] \<Longrightarrow> pipe_inv sz (w\<lparr>pw_writer := (pw_writer w)(x := WRun bs)\<rparr>)"
    "pw_writer w x = WIdle \<Longrightarrow> pipe_inv sz (w\<lparr>pw_writer := (pw_writer w)(x := FRun)\<rparr>)"
proof -
  note e = inv_at[OF inv, of x] inv_at[OF inv, of "other x"]
  show "pw_reader w x = RIdle \<Longrightarrow> 0 < n \<Longrightarrow> pipe_inv sz (w\<lparr>pw_reader := (pw_reader w)(x := RRun n)\<rparr>)"
    using e inv alive by (intro invI[where x = x]) (auto simp: inv_defs)
  show "pw_writer w x = WIdle \<Longrightarrow> bs \<noteq> [] \<Longrightarrow> pipe_inv sz (w\<lparr>pw_writer := (pw_writer w)(x := WRun bs)\<rparr>)"
    using e inv alive by (intro invI[where x = x]) (auto simp: inv_defs)
  show "pw_writer w x = WIdle \<Longrightarrow> pipe_inv sz (w\<lparr>pw_writer := (pw_writer w)(x := FRun)\<rparr>)"
    using e inv alive by (intro invI[where x = x]) (auto simp: inv_defs)
qed

lemma idle_inv:
  assumes inv: "pipe_inv sz w"
  shows "\<not> reader_waits (pw_reader w x) \<Longrightarrow> pipe_inv sz (w\<lparr>pw_reader := (pw_reader w)(x := RIdle)\<rparr>)"
    "\<not> writer_waits (pw_writer w x) \<Longrightarrow> pipe_inv sz (w\<lparr>pw_writer := (pw_writer w)(x := WIdle)\<rparr>)"
proof -
  note e = inv_at[OF inv, of x] inv_at[OF inv, of "other x"]
  show "\<not> reader_waits (pw_reader w x) \<Longrightarrow> pipe_inv sz (w\<lparr>pw_reader := (pw_reader w)(x := RIdle)\<rparr>)"
    using e inv by (intro invI[where x = x]) (auto simp: inv_defs)
  show "\<not> writer_waits (pw_writer w x) \<Longrightarrow> pipe_inv sz (w\<lparr>pw_writer := (pw_writer w)(x := WIdle)\<rparr>)"
    using e inv by (intro invI[where x = x]) (auto simp: inv_defs)
qed

text \<open>The outcomes of one turn of \<open>read\<close>.\<close>

lemma read_outcomes:
  assumes inv: "pipe_inv sz w" and run: "pw_reader w x = RRun n"
  obtains (thrown) e where "PipeStream_read x n (pw_pipe w) = (Inl e, pw_pipe w, [])" "e \<noteq> Assertion"
  | (ended) "PipeStream_read x n (pw_pipe w) = (Inr (Some []), pw_pipe w, [])" "pi_readBuffer (pw_pipe w x) = []"
      "closes_write (pi_otherClosed (pw_pipe w x))"
  | (taken) todo p1 fs where "0 < todo" "todo \<le> n" "todo \<le> length (pi_readBuffer (pw_pipe w x))"
      "wake_writer x True ((pw_pipe w)(x := (pw_pipe w x)\<lparr>pi_readBuffer := drop todo (pi_readBuffer (pw_pipe w x))\<rparr>)) = (p1, fs)"
      "PipeStream_read x n (pw_pipe w) = (Inr (Some (take todo (pi_readBuffer (pw_pipe w x)))), p1, fs)"
  | (waiting) "PipeStream_read x n (pw_pipe w) =
      (Inr None, (pw_pipe w)(other x := (pw_pipe w (other x))\<lparr>pi_pendingReader := Some (Reader x)\<rparr>), [])"
      "pi_readBuffer (pw_pipe w x) = []" "\<not> closes_write (pi_otherClosed (pw_pipe w x))" "\<not> pi_cancelledRead (pw_pipe w x)"
      "pi_alive (pw_pipe w (other x))"
proof -
  let ?p = "pw_pipe w"
  have n: "0 < n" and pend: "pi_pendingReader (?p (other x)) = None"
    using inv_at(1)[OF inv, of x] run by (auto simp: end_inv_def)
  show ?thesis
  proof (cases "closes_read (pi_closed (?p x)) \<or> \<not> pi_alive (?p (other x)) \<and> \<not> closes_write (pi_otherClosed (?p x))")
    case True
    then show ?thesis using n by (intro thrown[of BrokenPipe]) (auto simp: PipeStream_read_def)
  next
    case usable: False
    show ?thesis
    proof (cases "pi_readBuffer (?p x) = []")
      case False
      let ?todo = "min n (length (pi_readBuffer (?p x)))"
      obtain p1 fs where "wake_writer x True (?p(x := (?p x)\<lparr>pi_readBuffer := drop ?todo (pi_readBuffer (?p x))\<rparr>)) = (p1, fs)" by fastforce
      then show ?thesis using n usable False by (intro taken[of ?todo p1 fs]) (auto simp: PipeStream_read_def Let_def)
    next
      case empty: True
      show ?thesis
      proof (cases "closes_write (pi_otherClosed (?p x)) \<or> pi_cancelledRead (?p x)")
        case True
        then show ?thesis using n usable empty ended thrown[of OperationAborted]
          by (cases "closes_write (pi_otherClosed (?p x))") (auto simp: PipeStream_read_def)
      next
        case False
        then show ?thesis using n usable empty pend by (intro waiting) (auto simp: PipeStream_read_def)
      qed
    qed
  qed
qed

lemma run_read_inv:
  assumes inv: "pipe_inv sz w" and run: "pw_reader w x = RRun n"
  shows "pipe_inv sz (run_read x n w)"
proof -
  have nf: "\<not> pw_failed w" using inv by (simp add: inv_except_def)
  note e = inv_at[OF inv, of x] inv_at[OF inv, of "other x"]
  from assms show ?thesis
  proof (cases rule: read_outcomes)
    case (thrown err)
    then show ?thesis using idle_inv(1)[OF inv, of x] run by (simp add: settle_ok)
  next
    case ended
    then show ?thesis using idle_inv(1)[OF inv, of x] run by (simp add: settle_ok)
  next
    case (taken todo p1 fs)
    let ?b = "pi_readBuffer (pw_pipe w x)"
    let ?p = "(pw_pipe w)(x := (pw_pipe w x)\<lparr>pi_readBuffer := drop todo ?b\<rparr>)"
    let ?w = "w\<lparr>pw_pipe := ?p, pw_reader := (pw_reader w)(x := RIdle), pw_read := (pw_read w)(x := pw_read w x @ take todo ?b)\<rparr>"
    have s: "settle (PipeStream_read x n (pw_pipe w)) w = wakeW x True (w\<lparr>pw_pipe := ?p\<rparr>)"
      using wake_writer_world[OF _ taken(4), of w] e(4) by (simp add: taken(5) settle_ok end_inv_def)
    have call: "run_read x n w = wakeW x True ?w" using s taken(5) by (simp add: wakeW_def)
    have "length ?b \<le> sz" using e(1) by (simp add: end_inv_def)
    then have len: "length ?b - todo \<le> sz" by (rule le_trans[OF diff_le_self])
    have "end_inv sz ?w x" using e(1) len run by (simp add: end_inv_def)
    moreover have "end_inv sz ?w (other x)" using e(4) taken(3) by (auto simp: end_inv_def)
    moreover have "reader_ok ?w x" "reader_ok ?w (other x)" "writer_ok sz ?w x" using e(3,5) by (simp_all add: reader_ok_def writer_ok_def)
    ultimately have "inv_except {} {other x} sz ?w" using nf by (intro invI[where x = x]) simp_all
    then show ?thesis unfolding call using wakeW_inv[of "{}" "{other x}" sz ?w True x] by simp
  next
    case waiting
    let ?w = "w\<lparr>pw_pipe := (pw_pipe w)(other x := (pw_pipe w (other x))\<lparr>pi_pendingReader := Some (Reader x)\<rparr>),
                pw_reader := (pw_reader w)(x := RWait n)\<rparr>"
    have "run_read x n w = ?w" using waiting(1) by (simp add: settle_ok)
    moreover have "end_inv sz ?w x" "end_inv sz ?w (other x)" using e(1,4) run by (simp_all add: end_inv_def)
    moreover have "reader_ok ?w x" using e(1) run waiting(2-) by (simp add: reader_ok_def end_inv_def)
    moreover have "reader_ok ?w (other x)" "writer_ok sz ?w x" "writer_ok sz ?w (other x)"
      using e(3,5,6) by (simp_all add: reader_ok_def writer_ok_def)
    ultimately show ?thesis using nf by (simp add: invI[where x = x])
  qed
qed

text \<open>The outcomes of one turn of \<open>write\<close>.\<close>

lemma write_outcomes:
  assumes inv: "pipe_inv sz w" and run: "pw_writer w x = WRun bs" and sz: "sz < size_mod"
  obtains (thrown) e where "PipeStream_write x bs (pw_pipe w) = (Inl e, pw_pipe w, [])" "e \<noteq> Assertion"
  | (taken) todo p1 fs where "todo \<le> length bs" "length (pi_readBuffer (pw_pipe w (other x))) + todo \<le> sz" "pi_alive (pw_pipe w (other x))"
      "wake_reader x True ((pw_pipe w)(other x := (pw_pipe w (other x))\<lparr>pi_readBuffer := pi_readBuffer (pw_pipe w (other x)) @ take todo bs\<rparr>)) = (p1, fs)"
      "PipeStream_write x bs (pw_pipe w) = (Inr (Some todo), p1, fs)"
  | (waiting) "PipeStream_write x bs (pw_pipe w) =
      (Inr None, (pw_pipe w)(other x := (pw_pipe w (other x))\<lparr>pi_pendingWriter := Some (Writer x)\<rparr>), [])"
      "length (pi_readBuffer (pw_pipe w (other x))) = sz" "\<not> closes_read (pi_closed (pw_pipe w (other x)))"
      "\<not> pi_cancelledWrite (pw_pipe w x)" "pi_alive (pw_pipe w (other x))"
proof -
  let ?p = "pw_pipe w" and ?b = "pi_readBuffer (pw_pipe w (other x))"
  have bs: "bs \<noteq> []" and pend: "pi_pendingWriter (?p (other x)) = None" and size: "pi_bufferSize (?p x) = sz"
    using inv_at(1)[OF inv, of x] run by (auto simp: end_inv_def)
  have b: "length ?b \<le> sz" using inv_at(1)[OF inv, of "other x"] by (simp add: end_inv_def)
  have "sz + size_mod - length ?b = (sz - length ?b) + size_mod" using b by simp
  then have wrap: "(sz + size_mod - length ?b) mod size_mod = sz - length ?b"
    using sz by (metis less_imp_diff_less mod_add_self2 mod_less)
  define todo where "todo = min (sz - length ?b) (length bs)"
  have todo: "todo \<le> length bs" "length ?b + todo \<le> sz" "todo = 0 \<longleftrightarrow> length ?b = sz" using b bs by (auto simp: todo_def min_def split: if_splits)
  have call: "PipeStream_write x bs ?p =
      (if closes_write (pi_closed (?p x)) then (Inl BrokenPipe, ?p, [])
       else if \<not> pi_alive (?p (other x)) \<or> closes_read (pi_closed (?p (other x))) then (Inl BrokenPipe, ?p, [])
       else if todo \<noteq> 0 then
         (case wake_reader x True (?p(other x := (?p (other x))\<lparr>pi_readBuffer := ?b @ take todo bs\<rparr>)) of
            (p1, fs) \<Rightarrow> (Inr (Some todo), p1, fs))
       else if pi_cancelledWrite (?p x) then (Inl OperationAborted, ?p, [])
       else (Inr None, ?p(other x := (?p (other x))\<lparr>pi_pendingWriter := Some (Writer x)\<rparr>), []))"
    unfolding PipeStream_write_def size wrap Let_def todo_def[symmetric] using bs pend by simp
  show ?thesis
  proof (cases "closes_write (pi_closed (?p x)) \<or> \<not> pi_alive (?p (other x)) \<or> closes_read (pi_closed (?p (other x)))")
    case True
    then show ?thesis using call by (intro thrown[of BrokenPipe]) auto
  next
    case usable: False
    show ?thesis
    proof (cases "todo = 0")
      case False
      obtain p1 fs where "wake_reader x True (?p(other x := (?p (other x))\<lparr>pi_readBuffer := ?b @ take todo bs\<rparr>)) = (p1, fs)" by fastforce
      then show ?thesis using False usable call todo by (intro taken[of todo p1 fs]) auto
    next
      case True
      then show ?thesis using usable call todo(3) thrown[of OperationAborted] waiting
        by (cases "pi_cancelledWrite (?p x)") auto
    qed
  qed
qed

lemma run_write_inv:
  assumes inv: "pipe_inv sz w" and run: "pw_writer w x = WRun bs" and sz: "sz < size_mod"
  shows "pipe_inv sz (run_write x bs w)"
proof -
  have nf: "\<not> pw_failed w" using inv by (simp add: inv_except_def)
  note e = inv_at[OF inv, of x] inv_at[OF inv, of "other x"]
  from assms show ?thesis
  proof (cases rule: write_outcomes)
    case (thrown err)
    then show ?thesis using idle_inv(2)[OF inv, of x] run by (simp add: settle_ok)
  next
    case (taken todo p1 fs)
    let ?b = "pi_readBuffer (pw_pipe w (other x))"
    let ?p = "(pw_pipe w)(other x := (pw_pipe w (other x))\<lparr>pi_readBuffer := ?b @ take todo bs\<rparr>)"
    let ?w = "w\<lparr>pw_pipe := ?p, pw_writer := (pw_writer w)(x := WIdle), pw_written := (pw_written w)(x := pw_written w x @ take todo bs)\<rparr>"
    have s: "settle (PipeStream_write x bs (pw_pipe w)) w = wakeR x True (w\<lparr>pw_pipe := ?p\<rparr>)"
      using wake_reader_world[OF _ taken(4), of w] e(4) by (simp add: taken(5) settle_ok end_inv_def)
    have call: "run_write x bs w = wakeR x True ?w" using s taken(5) by (simp add: wakeR_def)
    have "end_inv sz ?w x" using e(1) run taken(3) by (simp add: end_inv_def)
    moreover have "end_inv sz ?w (other x)" using e(1,4) run taken(1-3) by (simp add: end_inv_def)
    moreover have "reader_ok ?w x" "writer_ok sz ?w x" "writer_ok sz ?w (other x)" using e(2,6) by (simp_all add: reader_ok_def writer_ok_def)
    ultimately have "inv_except {other x} {} sz ?w" using nf by (intro invI[where x = x]) simp_all
    then show ?thesis unfolding call using wakeR_inv[of "{other x}" "{}" sz ?w True x] by simp
  next
    case waiting
    let ?w = "w\<lparr>pw_pipe := (pw_pipe w)(other x := (pw_pipe w (other x))\<lparr>pi_pendingWriter := Some (Writer x)\<rparr>),
                pw_writer := (pw_writer w)(x := WWait bs)\<rparr>"
    have "run_write x bs w = ?w" using waiting(1) by (simp add: settle_ok)
    moreover have "end_inv sz ?w x" "end_inv sz ?w (other x)" using e(1,4) run by (simp_all add: end_inv_def)
    moreover have "writer_ok sz ?w x" using waiting(2-) by (simp add: writer_ok_def)
    moreover have "reader_ok ?w x" "reader_ok ?w (other x)" "writer_ok sz ?w (other x)"
      using e(2,5,6) by (simp_all add: reader_ok_def writer_ok_def)
    ultimately show ?thesis using nf by (simp add: invI[where x = x])
  qed
qed

lemma run_flush_inv:
  assumes inv: "pipe_inv sz w" and run: "pw_writer w x = FRun"
  shows "pipe_inv sz (run_flush x w)"
proof -
  have nf: "\<not> pw_failed w" using inv by (simp add: inv_except_def)
  note e = inv_at[OF inv, of x] inv_at[OF inv, of "other x"]
  let ?p = "pw_pipe w"
  have pend: "pi_pendingWriter (?p (other x)) = None" using e(1) run by (simp add: end_inv_def)
  show ?thesis
  proof (cases "fst (PipeStream_flush x ?p) = Inr None")
    case False
    obtain r where "r = fst (PipeStream_flush x ?p)" by simp
    then have r: "PipeStream_flush x ?p = (r, ?p, [])" "r \<noteq> Inl Assertion" "r \<noteq> Inr None"
      using False pend by (auto simp: PipeStream_flush_def split: if_splits)
    then have "run_flush x w = w\<lparr>pw_writer := (pw_writer w)(x := WIdle)\<rparr>"
      by (cases r) (auto simp: settle_ok split: option.splits)
    then show ?thesis using idle_inv(2)[OF inv, of x] run by simp
  next
    case True
    let ?w = "w\<lparr>pw_pipe := ?p(other x := (?p (other x))\<lparr>pi_pendingWriter := Some (Writer x)\<rparr>), pw_writer := (pw_writer w)(x := FWait)\<rparr>"
    have f: "PipeStream_flush x ?p = (Inr None, ?p(other x := (?p (other x))\<lparr>pi_pendingWriter := Some (Writer x)\<rparr>), [])"
        "pi_readBuffer (?p (other x)) \<noteq> []" "\<not> closes_read (pi_closed (?p (other x)))" "\<not> pi_cancelledWrite (?p x)" "pi_alive (?p (other x))"
      using True by (auto simp: PipeStream_flush_def split: if_splits)
    have "run_flush x w = ?w" using f(1) by (simp add: settle_ok)
    moreover have "end_inv sz ?w x" "end_inv sz ?w (other x)" using e(1,4) run by (simp_all add: end_inv_def)
    moreover have "writer_ok sz ?w x" using f(2-) by (simp add: writer_ok_def)
    moreover have "reader_ok ?w x" "reader_ok ?w (other x)" "writer_ok sz ?w (other x)"
      using e(2,5,6) by (simp_all add: reader_ok_def writer_ok_def)
    ultimately show ?thesis using nf by (simp add: invI[where x = x])
  qed
qed

lemma pipe_act_inv:
  assumes "pipe_inv sz w" "pipe_enabled a w" "sz < size_mod"
  shows "pipe_inv sz (pipe_act a w)"
proof (cases a)
  case (RunRead x)
  then show ?thesis using assms run_read_inv[OF assms(1)] by (auto simp del: run_read.simps)
next
  case (RunWrite x)
  then show ?thesis using assms run_write_inv[OF assms(1) _ assms(3)] by (auto simp del: run_write.simps)
next
  case (RunFlush x)
  then show ?thesis using assms run_flush_inv[OF assms(1)] by (simp del: run_flush.simps)
qed (use assms in \<open>simp_all add: start_inv unwind_inv close_inv cancelRead_inv cancelWrite_inv destroy_inv\<close>)

section \<open>Properties\<close>

text \<open>The size of the buffers of a pipe.\<close>

definition pipe_capacity :: "nat \<Rightarrow> nat" where
  "pipe_capacity bufferSize = (if bufferSize = 4294967295 then 65536 else bufferSize)"

lemma pipe_reach_inv:
  assumes "pipe_reach bufferSize w" "bufferSize < size_mod"
  shows "pipe_inv (pipe_capacity bufferSize) w"
  using assms(1)
proof (induction rule: pipe_reach.induct)
  case reach_start
  then show ?case by (simp add: inv_defs pipe_start_def pipeStream_def PipeStream_new_def pipe_capacity_def)
next
  case (reach_step w a)
  have "pipe_capacity bufferSize < size_mod" using assms(2) by (simp add: pipe_capacity_def)
  then show ?case using pipe_act_inv[OF reach_step.IH reach_step.hyps(2)] by simp
qed





text \<open>
  Two flaws. Closing an end does not wake the fiber that reads from that end, which then waits until
  the other end is closed. And the default size \<open>~0\<close> is not recognised where \<open>size_t\<close> is
  wider than \<open>unsigned int\<close>: the buffer is then unbounded.
\<close>

lemma pipe_flaws:
  "pw_reader (pipe_act (Close Second CloseBoth) (pipe_act (RunRead Second) (pipe_act (StartRead Second 1) (pipe_start 3)))) Second = RWait 1"
  "pi_bufferSize (pipeStream npos x) = 18446744073709551615"
  by (simp_all add: pipe_defs npos_def)

end
