(* ===== verification/Scoped_Lock.thy ===== *)
theory Scoped_Lock
  imports Fiber_Sync
begin

text \<open>
  \<open>ScopedLockImpl\<close> of fibersynchronization.h, a template over the mutex: it holds the mutex at most
  once and gives it back when it is destroyed. What the template needs of its parameter is a locale,
  which both mutexes interpret.
\<close>

section \<open>Operations\<close>

text \<open>
  \<open>lk\<close>, \<open>un\<close> and \<open>uiu\<close> are \<open>lock\<close>, \<open>unlock\<close> and \<open>unlockIfNotUnique\<close> of the mutex for the fiber that
  runs; \<open>locked\<close> is \<open>m_locked\<close>. A lock that yields is complete when the fiber is resumed.
\<close>

definition ScopedLock_lock :: "('m \<Rightarrow> (outcome \<times> 'm) result) \<Rightarrow> bool \<Rightarrow> 'm \<Rightarrow> (outcome \<times> bool \<times> 'm) result" where
  "ScopedLock_lock lk locked m =
     (if \<not> locked then andThen (lk m) (\<lambda>(r, m'). Inr (r, True, m')) else Inr (Returns, locked, m))"

definition ScopedLock_new :: "('m \<Rightarrow> (outcome \<times> 'm) result) \<Rightarrow> 'm \<Rightarrow> (outcome \<times> bool \<times> 'm) result" where
  "ScopedLock_new lk m = andThen (lk m) (\<lambda>(r, m'). Inr (r, True, m'))"

definition ScopedLock_unlock :: "('m \<Rightarrow> (waiter list \<times> 'm) result) \<Rightarrow> bool \<Rightarrow> 'm \<Rightarrow> (waiter list \<times> bool \<times> 'm) result" where
  "ScopedLock_unlock un locked m =
     (if locked then andThen (un m) (\<lambda>(scheduled, m'). Inr (scheduled, False, m')) else Inr ([], locked, m))"

definition ScopedLock_delete :: "('m \<Rightarrow> (waiter list \<times> 'm) result) \<Rightarrow> bool \<Rightarrow> 'm \<Rightarrow> (waiter list \<times> bool \<times> 'm) result" where
  "ScopedLock_delete un locked m = ScopedLock_unlock un locked m"

definition ScopedLock_unlockIfNotUnique ::
    "('m \<Rightarrow> (bool \<times> waiter list \<times> 'm) result) \<Rightarrow> bool \<Rightarrow> 'm \<Rightarrow> (bool \<times> waiter list \<times> bool \<times> 'm) result" where
  "ScopedLock_unlockIfNotUnique uiu locked m =
     (if \<not> locked then Inr (True, [], locked, m)
      else andThen (uiu m) (\<lambda>(released, scheduled, m'). Inr (released, scheduled, \<not> released, m')))"

section \<open>A scope gives back what it took\<close>

text \<open>
  The runs of a scope: \<open>depth\<close> is how often the fiber holds the mutex, \<open>quiet\<close> says that the fiber is not queued.
  Between the operations other fibers may change the mutex, but not how often this one holds it.
\<close>

inductive scope_run for lk un uiu and depth :: "'m \<Rightarrow> nat" and quiet where
  scope_start: "scope_run lk un uiu depth quiet s s"
| scope_lock: "scope_run lk un uiu depth quiet s (l, m) \<Longrightarrow> depth m + 1 < unsigned_mod \<Longrightarrow>
    ScopedLock_lock lk l m = Inr (Returns, l', m') \<Longrightarrow> scope_run lk un uiu depth quiet s (l', m')"
| scope_wait: "scope_run lk un uiu depth quiet s (l, m) \<Longrightarrow> ScopedLock_lock lk l m = Inr (Yields, l', m') \<Longrightarrow>
    depth m'' = Suc (depth m) \<Longrightarrow> quiet m'' \<Longrightarrow> scope_run lk un uiu depth quiet s (l', m'')"
| scope_unlock: "scope_run lk un uiu depth quiet s (l, m) \<Longrightarrow> ScopedLock_unlock un l m = Inr (ws, l', m') \<Longrightarrow>
    scope_run lk un uiu depth quiet s (l', m')"
| scope_unlockIf: "scope_run lk un uiu depth quiet s (l, m) \<Longrightarrow> ScopedLock_unlockIfNotUnique uiu l m = Inr (b, ws, l', m') \<Longrightarrow>
    scope_run lk un uiu depth quiet s (l', m')"
| scope_others: "scope_run lk un uiu depth quiet s (l, m) \<Longrightarrow> depth m' = depth m \<Longrightarrow> quiet m' \<Longrightarrow>
    scope_run lk un uiu depth quiet s (l, m')"

locale lockable =
  fixes lk :: "'m \<Rightarrow> (outcome \<times> 'm) result" and un :: "'m \<Rightarrow> (waiter list \<times> 'm) result"
    and uiu :: "'m \<Rightarrow> (bool \<times> waiter list \<times> 'm) result" and depth :: "'m \<Rightarrow> nat" and quiet :: "'m \<Rightarrow> bool"
  assumes lock_returns: "quiet m \<Longrightarrow> depth m + 1 < unsigned_mod \<Longrightarrow> lk m = Inr (Returns, m') \<Longrightarrow> depth m' = Suc (depth m) \<and> quiet m'"
    and unlock_ok: "quiet m \<Longrightarrow> 0 < depth m \<Longrightarrow> \<exists>ws m'. un m = Inr (ws, m') \<and> depth m' = depth m - 1 \<and> quiet m'"
    and unlockIf_ok: "quiet m \<Longrightarrow> 0 < depth m \<Longrightarrow>
      \<exists>b ws m'. uiu m = Inr (b, ws, m') \<and> depth m' = (if b then depth m - 1 else depth m) \<and> quiet m'"
begin

definition held :: "bool \<times> 'm \<Rightarrow> int" where
  "held s = int (depth (snd s)) - (if fst s then 1 else 0)"

lemma scope_run_held:
  assumes "scope_run lk un uiu depth quiet s s'" "quiet (snd s)" "0 \<le> held s"
  shows "held s' = held s \<and> quiet (snd s')"
  using assms
proof (induction rule: scope_run.induct)
  case (scope_lock s l m l' m')
  then show ?case using lock_returns[of m m'] by (cases l) (auto simp: ScopedLock_lock_def andThen_eq_Inr held_def)
next
  case (scope_wait s l m l' m' m'')
  then show ?case by (cases l) (auto simp: ScopedLock_lock_def andThen_eq_Inr held_def)
next
  case (scope_unlock s l m ws l' m')
  then show ?case using unlock_ok[of m] by (cases l) (auto simp: ScopedLock_unlock_def andThen_eq_Inr held_def)
next
  case (scope_unlockIf s l m b ws l' m')
  then show ?case using unlockIf_ok[of m] by (cases l; cases b) (auto simp: ScopedLock_unlockIfNotUnique_def andThen_eq_Inr held_def)
qed (auto simp: held_def)

text \<open>A scope that was entered with the mutex locked can be left, and the fiber then holds the mutex as often as before.\<close>

lemma scope_balanced:
  assumes "scope_run lk un uiu depth quiet (True, m0) (l, m)" "quiet m0" "0 < depth m0"
  shows "\<exists>ws m'. ScopedLock_delete un l m = Inr (ws, False, m') \<and> depth m' = depth m0 - 1 \<and> quiet m'"
proof -
  have h: "held (l, m) = held (True, m0)" "quiet m" using scope_run_held[OF assms(1)] assms(2,3) by (auto simp: held_def)
  show ?thesis
  proof (cases l)
    case True
    then have "depth m = depth m0" using h(1) by (simp add: held_def)
    then show ?thesis using unlock_ok[OF h(2)] assms(3) True by (auto simp: ScopedLock_delete_def ScopedLock_unlock_def)
  next
    case False
    then show ?thesis using h assms(3) by (simp add: held_def ScopedLock_delete_def ScopedLock_unlock_def)
  qed
qed

end

definition mutex_depth :: "fiber \<Rightarrow> fiber_mutex \<Rightarrow> nat" where
  "mutex_depth this m = (if fm_owner m = Some this then 1 else 0)"

definition mutex_quiet :: "fiber \<Rightarrow> fiber_mutex \<Rightarrow> bool" where
  "mutex_quiet this m \<longleftrightarrow> this \<notin> snd ` set (fm_waiters m)"

definition recursive_depth :: "fiber \<Rightarrow> recursive_mutex \<Rightarrow> nat" where
  "recursive_depth this m = (if rm_owner m = Some this then rm_recursion m else 0)"

definition recursive_quiet :: "fiber \<Rightarrow> recursive_mutex \<Rightarrow> bool" where
  "recursive_quiet this m \<longleftrightarrow> this \<notin> snd ` set (rm_waiters m)"

interpretation fiber_scope: lockable "FiberMutex_lock (Some sc) this" "FiberMutex_unlock this"
  "FiberMutex_unlockIfNotUnique this" "mutex_depth this" "mutex_quiet this" for sc this
proof unfold_locales
  fix m m' assume "mutex_quiet this m" "FiberMutex_lock (Some sc) this m = Inr (Returns, m')"
  then show "mutex_depth this m' = Suc (mutex_depth this m) \<and> mutex_quiet this m'"
    by (auto simp: FiberMutex_lock_def mutex_depth_def mutex_quiet_def split: if_splits)
next
  fix m assume "mutex_quiet this m" "0 < mutex_depth this m"
  then show "\<exists>ws m'. FiberMutex_unlock this m = Inr (ws, m') \<and> mutex_depth this m' = mutex_depth this m - 1 \<and> mutex_quiet this m'"
    by (cases "fm_waiters m") (auto simp: FiberMutex_unlock_def FiberMutex_unlockNoLock_def mutex_depth_def mutex_quiet_def Let_def split: if_splits)
next
  fix m assume "mutex_quiet this m" "0 < mutex_depth this m"
  then show "\<exists>b ws m'. FiberMutex_unlockIfNotUnique this m = Inr (b, ws, m') \<and>
      mutex_depth this m' = (if b then mutex_depth this m - 1 else mutex_depth this m) \<and> mutex_quiet this m'"
    by (cases "fm_waiters m")
      (auto simp: FiberMutex_unlockIfNotUnique_def FiberMutex_unlockNoLock_def mutex_depth_def mutex_quiet_def Let_def split: if_splits)
qed

interpretation recursive_scope: lockable "RecursiveFiberMutex_lock (Some sc) this" "RecursiveFiberMutex_unlock this"
  "RecursiveFiberMutex_unlockIfNotUnique this" "recursive_depth this" "recursive_quiet this" for sc this
proof unfold_locales
  fix m m' assume "recursive_quiet this m" "recursive_depth this m + 1 < unsigned_mod"
    "RecursiveFiberMutex_lock (Some sc) this m = Inr (Returns, m')"
  then show "recursive_depth this m' = Suc (recursive_depth this m) \<and> recursive_quiet this m'"
    by (auto simp: RecursiveFiberMutex_lock_def recursive_depth_def recursive_quiet_def split: if_splits)
next
  fix m assume "recursive_quiet this m" "0 < recursive_depth this m"
  then show "\<exists>ws m'. RecursiveFiberMutex_unlock this m = Inr (ws, m') \<and> recursive_depth this m' = recursive_depth this m - 1 \<and> recursive_quiet this m'"
    by (cases "rm_waiters m"; cases "rm_recursion m = 1")
      (auto simp: RecursiveFiberMutex_unlock_def RecursiveFiberMutex_unlockNoLock_def recursive_depth_def recursive_quiet_def Let_def split: if_splits)
next
  fix m assume "recursive_quiet this m" "0 < recursive_depth this m"
  then show "\<exists>b ws m'. RecursiveFiberMutex_unlockIfNotUnique this m = Inr (b, ws, m') \<and>
      recursive_depth this m' = (if b then recursive_depth this m - 1 else recursive_depth this m) \<and> recursive_quiet this m'"
    by (cases "rm_waiters m"; cases "rm_recursion m = 1")
      (auto simp: RecursiveFiberMutex_unlockIfNotUnique_def RecursiveFiberMutex_unlockNoLock_def recursive_depth_def recursive_quiet_def Let_def
        split: if_splits)
qed

end
