(* ===== verification/Scheduler.thy ===== *)
theory Scheduler
  imports Refinement "HOL-Library.Multiset"
begin

text \<open>
  \<open>Scheduler\<close> of scheduler.cpp: the queue of work and the loop of the threads that take batches from
  it. Threads are numbered in the order they were started; a step of a thread is what it does under
  the mutex, or the running of one piece of work. The system calls behind \<open>tickle\<close> and \<open>idle\<close> belong to
  the derived classes: a tickle is counted, and a thread returns from \<open>idle\<close> at any time.
\<close>

section \<open>State\<close>

text \<open>
  A fiber or a functor, with the thread it is meant for. An entry of \<open>m_threads\<close> may be a null pointer.
  The counts of threads are integers: that they are never negative is part of the invariant.
\<close>

datatype payload = FiberWork nat | DgWork nat

type_synonym work = "payload \<times> nat option"

record scheduler =
  sc_fibers :: "work list"
  sc_rootThread :: "nat option"
  sc_threads :: "nat option list"
  sc_threadCount :: nat
  sc_activeThreadCount :: int
  sc_idleThreadCount :: int
  sc_stopping :: bool
  sc_batchSize :: nat
  sc_tickles :: nat

text \<open>\<open>caller\<close> is the thread that is hijacked, for \<open>useCaller\<close>.\<close>

definition Scheduler_new :: "nat \<Rightarrow> nat option \<Rightarrow> nat \<Rightarrow> scheduler result" where
  "Scheduler_new threads caller batchSize =
     ensure (threads \<ge> 1)
       (Inr \<lparr>sc_fibers = [], sc_rootThread = caller, sc_threads = [],
             sc_threadCount = (if caller \<noteq> None then threads - 1 else threads),
             sc_activeThreadCount = 0, sc_idleThreadCount = 0, sc_stopping = True, sc_batchSize = batchSize, sc_tickles = 0\<rparr>)"

definition Scheduler_delete :: "scheduler \<Rightarrow> unit result" where
  "Scheduler_delete s = ensure (sc_stopping s) (Inr ())"

definition tickle :: "scheduler \<Rightarrow> scheduler" where
  "tickle s = s\<lparr>sc_tickles := sc_tickles s + 1\<rparr>"

definition Scheduler_threadCount :: "scheduler \<Rightarrow> nat" where
  "Scheduler_threadCount s = sc_threadCount s + (if sc_rootThread s \<noteq> None then 1 else 0)"

text \<open>\<open>new\<close> are the threads that are started, as many as the code starts.\<close>

definition Scheduler_start :: "nat list \<Rightarrow> scheduler \<Rightarrow> scheduler result" where
  "Scheduler_start new s =
     (if \<not> sc_stopping s then Inr s
      else ensure (sc_threads s = []) (Inr (s\<lparr>sc_stopping := False, sc_threads := map Some new\<rparr>)))"

text \<open>\<open>vector::resize\<close>, which adds null pointers, and the loop that starts the threads from \<open>m_threadCount\<close> on.\<close>

definition resize_threads :: "nat \<Rightarrow> nat option list \<Rightarrow> nat option list" where
  "resize_threads n ts = take n ts @ replicate (n - length ts) None"

definition Scheduler_setThreadCount :: "nat \<Rightarrow> nat list \<Rightarrow> scheduler \<Rightarrow> scheduler result" where
  "Scheduler_setThreadCount threads new s =
     ensure (threads \<ge> 1)
       (let n = (if sc_rootThread s \<noteq> None then threads - 1 else threads)
        in if n = sc_threadCount s then Inr s
           else if n > sc_threadCount s then
             Inr (s\<lparr>sc_threads := take (sc_threadCount s) (resize_threads n (sc_threads s)) @ map Some new, sc_threadCount := n\<rparr>)
           else Inr (s\<lparr>sc_threadCount := n\<rparr>))"

definition Scheduler_hasWorkToDo :: "scheduler \<Rightarrow> bool" where
  "Scheduler_hasWorkToDo s \<longleftrightarrow> sc_fibers s \<noteq> []"

definition Scheduler_isStopping :: "scheduler \<Rightarrow> bool" where
  "Scheduler_isStopping s \<longleftrightarrow> sc_stopping s \<and> sc_fibers s = [] \<and> sc_activeThreadCount s = 0"

section \<open>Scheduling work\<close>

definition scheduleNoLock :: "work \<Rightarrow> scheduler \<Rightarrow> bool \<times> scheduler" where
  "scheduleNoLock w s = (sc_fibers s = [], s\<lparr>sc_fibers := sc_fibers s @ [w]\<rparr>)"

text \<open>\<open>inside\<close> says that the caller runs on this scheduler.\<close>

definition shouldTickle :: "bool \<Rightarrow> bool \<Rightarrow> bool" where
  "shouldTickle inside tickleMe \<longleftrightarrow> tickleMe \<and> \<not> inside"

definition Scheduler_schedule :: "bool \<Rightarrow> work \<Rightarrow> scheduler \<Rightarrow> scheduler" where
  "Scheduler_schedule inside w s =
     (case scheduleNoLock w s of (tickleMe, s') \<Rightarrow> if shouldTickle inside tickleMe then tickle s' else s')"

fun schedule_loop :: "payload list \<Rightarrow> bool \<Rightarrow> scheduler \<Rightarrow> bool \<times> scheduler" where
  "schedule_loop [] tickleMe s = (tickleMe, s)"
| "schedule_loop (p # ps) tickleMe s = (case scheduleNoLock (p, None) s of (t, s') \<Rightarrow> schedule_loop ps (t \<or> tickleMe) s')"

definition Scheduler_scheduleAll :: "bool \<Rightarrow> payload list \<Rightarrow> scheduler \<Rightarrow> scheduler" where
  "Scheduler_scheduleAll inside ps s =
     (case schedule_loop ps False s of (tickleMe, s') \<Rightarrow> if shouldTickle inside tickleMe then tickle s' else s')"

section \<open>The loop of a thread\<close>

text \<open>
  The variables of one turn of \<open>run\<close>: the batch, the flags, the count of active threads and whether
  this thread is one of them.
\<close>

record scan =
  sn_batch :: "work list"
  sn_tickleMe :: bool
  sn_dontIdle :: bool
  sn_active :: int
  sn_isActive :: bool

text \<open>
  The loop over the queue by thread \<open>me\<close>; \<open>exec\<close> says which fibers are executing. The result
  is what is left of the queue.
\<close>

fun scan_loop :: "nat \<Rightarrow> (nat \<Rightarrow> bool) \<Rightarrow> nat \<Rightarrow> nat \<Rightarrow> work list \<Rightarrow> scan \<Rightarrow> work list \<times> scan" where
  "scan_loop me exec batchSize threads [] n = ([], n)"
| "scan_loop me exec batchSize threads ((p, target) # rest) n =
     (if (sn_tickleMe n \<or> sn_active n = int threads) \<and> length (sn_batch n) = batchSize then ((p, target) # rest, n)
      else if target \<noteq> None \<and> target \<noteq> Some me then
        (case scan_loop me exec batchSize threads rest (n\<lparr>sn_tickleMe := True, sn_dontIdle := True\<rparr>) of
           (q, n') \<Rightarrow> ((p, target) # q, n'))
      else if (case p of FiberWork f \<Rightarrow> exec f | DgWork d \<Rightarrow> False) then
        (case scan_loop me exec batchSize threads rest (n\<lparr>sn_dontIdle := True\<rparr>) of (q, n') \<Rightarrow> ((p, target) # q, n'))
      else if length (sn_batch n) = batchSize then ((p, target) # rest, n\<lparr>sn_tickleMe := True\<rparr>)
      else scan_loop me exec batchSize threads rest
             (n\<lparr>sn_batch := sn_batch n @ [(p, target)],
                sn_active := (if sn_isActive n then sn_active n else sn_active n + 1), sn_isActive := True\<rparr>))"

text \<open>The threads that run, by number: at the top of the loop, with a batch to run, in the idle fiber, or gone.\<close>

datatype thread_state = Looping bool | Working "work list" | Idling | Exited

text \<open>The loop that takes the thread out of \<open>m_threads\<close>.\<close>

fun erase_thread :: "nat \<Rightarrow> nat option list \<Rightarrow> nat option list result" where
  "erase_thread me [] = Inl NotReached"
| "erase_thread me (None # ts) = Inl UB"
| "erase_thread me (Some t # ts) = (if t = me then Inr ts else andThen (erase_thread me ts) (\<lambda>ts'. Inr (Some t # ts')))"

text \<open>The thread leaves because there are too many; \<open>isActive\<close> is its local variable.\<close>

definition leave_pool :: "nat \<Rightarrow> bool \<Rightarrow> scheduler \<Rightarrow> scheduler result" where
  "leave_pool me isActive s =
     (let s1 = (if isActive then s\<lparr>sc_activeThreadCount := sc_activeThreadCount s - 1\<rparr> else s)
      in andThen (erase_thread me (sc_threads s1)) (\<lambda>ts.
           let s2 = s1\<lparr>sc_threads := ts\<rparr>
           in Inr (if length ts > sc_threadCount s2 then tickle s2 else s2)))"

text \<open>
  One turn of the loop up to where it runs work, idles or ends; \<open>idleDone\<close> says that the idle fiber
  has terminated.
\<close>

definition run_turn :: "nat \<Rightarrow> (nat \<Rightarrow> bool) \<Rightarrow> bool \<Rightarrow> bool \<Rightarrow> scheduler \<Rightarrow> (thread_state \<times> scheduler) result" where
  "run_turn me exec idleDone isActive s =
     (if length (sc_threads s) > sc_threadCount s \<and> sc_rootThread s \<noteq> Some me then
        andThen (leave_pool me isActive s) (\<lambda>s'. Inr (Exited, s'))
      else
        case scan_loop me exec (sc_batchSize s) (Scheduler_threadCount s) (sc_fibers s)
            \<lparr>sn_batch = [], sn_tickleMe = False, sn_dontIdle = False, sn_active = sc_activeThreadCount s, sn_isActive = isActive\<rparr> of
          (q, n) \<Rightarrow>
            let idle = (sn_batch n = [] \<and> sn_isActive n);
                active = (if idle then sn_active n - 1 else sn_active n);
                isActive' = (sn_isActive n \<and> \<not> idle);
                s1 = s\<lparr>sc_fibers := q, sc_activeThreadCount := active\<rparr>;
                s2 = (if sn_tickleMe n then tickle s1 else s1)
            in ensure (isActive' \<longleftrightarrow> sn_batch n \<noteq> [])
                 (if sn_batch n \<noteq> [] then Inr (Working (sn_batch n), s2)
                  else if sn_dontIdle n then Inr (Looping False, s2)
                  else if idleDone then Inr (Exited, if Scheduler_threadCount s2 > 1 then tickle s2 else s2)
                  else Inr (Idling, s2\<lparr>sc_idleThreadCount := sc_idleThreadCount s2 + 1\<rparr>)))"

text \<open>
  Running the last piece of work of the batch, which for a fiber that has terminated meanwhile does nothing; \<open>throws\<close> says that an exception came out of it. Then what is
  left of the batch goes back to the queue and the thread ends.
\<close>

definition run_work :: "work list \<Rightarrow> bool \<Rightarrow> scheduler \<Rightarrow> thread_state \<times> scheduler" where
  "run_work batch throws s =
     (let left = butlast batch
      in if throws then (Exited, s\<lparr>sc_fibers := sc_fibers s @ left, sc_activeThreadCount := sc_activeThreadCount s - 1\<rparr>)
         else if left = [] then (Looping True, s) else (Working left, s))"

definition idle_return :: "scheduler \<Rightarrow> scheduler" where
  "idle_return s = s\<lparr>sc_idleThreadCount := sc_idleThreadCount s - 1\<rparr>"

text \<open>The part of \<open>stop\<close> that asks the threads to stop; \<open>inside\<close> as above.\<close>

definition Scheduler_stop :: "bool \<Rightarrow> scheduler \<Rightarrow> scheduler" where
  "Scheduler_stop inside s =
     (let s1 = (tickle ^^ sc_threadCount s) (s\<lparr>sc_stopping := True\<rparr>)
      in if sc_rootThread s \<noteq> None \<and> (sc_threadCount s \<noteq> 0 \<or> \<not> inside) then tickle s1 else s1)"

section \<open>Threads sharing a scheduler\<close>

text \<open>
  The threads by number; when there is a hijacked thread, it is number 0. The work that was scheduled and
  the work that was run, by which thread, are recorded, and whether an assertion of the loop failed. A
  thread that fails otherwise is left as it is.
\<close>

record sched_world =
  sw_sched :: scheduler
  sw_thread :: "thread_state list"
  sw_scheduled :: "work list"
  sw_ran :: "(nat \<times> work) list"
  sw_failed :: bool

datatype sched_action =
    Start
  | SetThreadCount nat
  | Enter nat
  | Schedule bool work
  | ScheduleAll bool "payload list"
  | Turn nat "nat \<Rightarrow> bool" bool
  | RunWork nat bool
  | IdleReturn nat
  | Stop bool

text \<open>The threads that are started are new ones.\<close>

definition new_threads :: "nat \<Rightarrow> sched_world \<Rightarrow> nat list" where
  "new_threads k w = [length (sw_thread w)..<length (sw_thread w) + k]"

fun sched_act :: "sched_action \<Rightarrow> sched_world \<Rightarrow> sched_world" where
  "sched_act Start w =
     (let k = sc_threadCount (sw_sched w)
      in case Scheduler_start (new_threads k w) (sw_sched w) of
           Inl e \<Rightarrow> w
         | Inr s \<Rightarrow>
             if sc_stopping (sw_sched w) then w\<lparr>sw_sched := s, sw_thread := sw_thread w @ replicate k (Looping False)\<rparr> else w\<lparr>sw_sched := s\<rparr>)"
| "sched_act (SetThreadCount n) w =
     (let k = (if sc_rootThread (sw_sched w) \<noteq> None then n - 1 else n) - sc_threadCount (sw_sched w)
      in case Scheduler_setThreadCount n (new_threads k w) (sw_sched w) of
           Inl e \<Rightarrow> w
         | Inr s \<Rightarrow> w\<lparr>sw_sched := s, sw_thread := sw_thread w @ replicate k (Looping False)\<rparr>)"
| "sched_act (Enter me) w =
     (if sc_rootThread (sw_sched w) = Some me \<and> sw_thread w ! me = Exited
      then w\<lparr>sw_thread := (sw_thread w)[me := Looping False]\<rparr> else w)"
| "sched_act (Schedule inside x) w =
     w\<lparr>sw_sched := Scheduler_schedule inside x (sw_sched w), sw_scheduled := sw_scheduled w @ [x]\<rparr>"
| "sched_act (ScheduleAll inside ps) w =
     w\<lparr>sw_sched := Scheduler_scheduleAll inside ps (sw_sched w), sw_scheduled := sw_scheduled w @ map (\<lambda>p. (p, None)) ps\<rparr>"
| "sched_act (Turn me exec idleDone) w =
     (case sw_thread w ! me of
        Looping isActive \<Rightarrow>
          (case run_turn me exec idleDone isActive (sw_sched w) of
             Inl e \<Rightarrow> w\<lparr>sw_failed := (sw_failed w \<or> e = Assertion)\<rparr>
           | Inr (st, s) \<Rightarrow> w\<lparr>sw_sched := s, sw_thread := (sw_thread w)[me := st]\<rparr>)
      | _ \<Rightarrow> w)"
| "sched_act (RunWork me throws) w =
     (case sw_thread w ! me of
        Working batch \<Rightarrow>
          (case run_work batch throws (sw_sched w) of
             (st, s) \<Rightarrow> w\<lparr>sw_sched := s, sw_thread := (sw_thread w)[me := st], sw_ran := sw_ran w @ [(me, last batch)]\<rparr>)
      | _ \<Rightarrow> w)"
| "sched_act (IdleReturn me) w =
     (case sw_thread w ! me of
        Idling \<Rightarrow> w\<lparr>sw_sched := idle_return (sw_sched w), sw_thread := (sw_thread w)[me := Looping False]\<rparr>
      | _ \<Rightarrow> w)"
| "sched_act (Stop inside) w = w\<lparr>sw_sched := Scheduler_stop inside (sw_sched w)\<rparr>"

fun acting_thread :: "sched_action \<Rightarrow> nat option" where
  "acting_thread (Enter me) = Some me"
| "acting_thread (Turn me exec idleDone) = Some me"
| "acting_thread (RunWork me throws) = Some me"
| "acting_thread (IdleReturn me) = Some me"
| "acting_thread _ = None"

definition sched_start :: "scheduler \<Rightarrow> sched_world" where
  "sched_start s =
     \<lparr>sw_sched = s, sw_thread = (if sc_rootThread s = None then [] else [Exited]), sw_scheduled = [], sw_ran = [], sw_failed = False\<rparr>"

inductive sched_reach :: "sched_world \<Rightarrow> bool" where
  sched_init: "Scheduler_new threads caller batchSize = Inr s \<Longrightarrow> caller = None \<or> caller = Some 0 \<Longrightarrow> sched_reach (sched_start s)"
| sched_step: "sched_reach w \<Longrightarrow> (\<And>me. acting_thread a = Some me \<Longrightarrow> me < length (sw_thread w)) \<Longrightarrow> sched_reach (sched_act a w)"

section \<open>What the scan takes\<close>

definition eligible :: "nat \<Rightarrow> (nat \<Rightarrow> bool) \<Rightarrow> work \<Rightarrow> bool" where
  "eligible me exec x \<longleftrightarrow>
     (snd x = None \<or> snd x = Some me) \<and> (case fst x of FiberWork f \<Rightarrow> \<not> exec f | DgWork d \<Rightarrow> True)"

definition scan_result :: "nat \<Rightarrow> (nat \<Rightarrow> bool) \<Rightarrow> work list \<Rightarrow> scan \<Rightarrow> work list \<Rightarrow> scan \<Rightarrow> work list \<Rightarrow> bool" where
  "scan_result me exec q0 n q n' taken \<longleftrightarrow>
     sn_batch n' = sn_batch n @ taken \<and> mset q + mset taken = mset q0 \<and> (\<forall>x \<in> set taken. eligible me exec x) \<and>
     (sn_isActive n' \<longleftrightarrow> sn_isActive n \<or> taken \<noteq> []) \<and>
     sn_active n' = sn_active n + (if \<not> sn_isActive n \<and> taken \<noteq> [] then 1 else 0)"

lemma scan_loop_sound:
  assumes "scan_loop me exec bs tc q0 n = (q, n')"
  shows "\<exists>taken. scan_result me exec q0 n q n' taken"
  using assms
proof (induction me exec bs tc q0 n arbitrary: q n' rule: scan_loop.induct)
  case (1 me exec bs tc n)
  then show ?case by (intro exI[of _ "[]"]) (simp add: scan_result_def)
next
  case (2 me exec bs tc p target rest n)
  let ?full = "(sn_tickleMe n \<or> sn_active n = int tc) \<and> length (sn_batch n) = bs"
  let ?foreign = "target \<noteq> None \<and> target \<noteq> Some me"
  let ?busy = "case p of FiberWork f \<Rightarrow> exec f | DgWork d \<Rightarrow> False"
  show ?case
  proof (cases "?full \<or> \<not> ?foreign \<and> \<not> ?busy \<and> length (sn_batch n) = bs")
    case True
    then show ?thesis using 2(4) by (intro exI[of _ "[]"]) (auto simp: scan_result_def split: if_splits)
  next
    case on: False
    consider (foreign) ?foreign | (busy) "\<not> ?foreign" ?busy | (takes) "\<not> ?foreign" "\<not> ?busy" by blast
    then show ?thesis
    proof cases
      case foreign
      obtain q1 where q1: "scan_loop me exec bs tc rest (n\<lparr>sn_tickleMe := True, sn_dontIdle := True\<rparr>) = (q1, n')" "q = (p, target) # q1"
        using 2(4) on foreign by (auto split: if_splits prod.splits)
      then obtain taken where "scan_result me exec rest (n\<lparr>sn_tickleMe := True, sn_dontIdle := True\<rparr>) q1 n' taken"
        using 2(1)[of q1 n'] on foreign by blast
      then show ?thesis using q1(2) by (intro exI[of _ taken]) (simp add: scan_result_def)
    next
      case busy
      obtain q1 where q1: "scan_loop me exec bs tc rest (n\<lparr>sn_dontIdle := True\<rparr>) = (q1, n')" "q = (p, target) # q1"
        using 2(4) on busy by (auto split: if_splits prod.splits)
      then obtain taken where "scan_result me exec rest (n\<lparr>sn_dontIdle := True\<rparr>) q1 n' taken"
        using 2(2)[of q1 n'] on busy by blast
      then show ?thesis using q1(2) by (intro exI[of _ taken]) (simp add: scan_result_def)
    next
      case takes
      let ?n = "n\<lparr>sn_batch := sn_batch n @ [(p, target)], sn_active := (if sn_isActive n then sn_active n else sn_active n + 1), sn_isActive := True\<rparr>"
      have "scan_loop me exec bs tc rest ?n = (q, n')" using 2(4) on takes by (auto split: if_splits)
      then obtain taken where "scan_result me exec rest ?n q n' taken" using 2(3)[of q n'] on takes by blast
      moreover have "eligible me exec (p, target)" using takes by (auto simp: eligible_def split: payload.splits)
      ultimately show ?thesis by (intro exI[of _ "(p, target) # taken"]) (auto simp: scan_result_def)
    qed
  qed
qed

text \<open>The first piece of work that the thread can run is taken.\<close>

lemma scan_loop_takes:
  assumes "scan_loop me exec bs tc q0 n = (q, n')" "sn_batch n = []" "0 < bs" "find (eligible me exec) q0 = Some x"
  shows "sn_batch n' \<noteq> [] \<and> hd (sn_batch n') = x"
  using assms
proof (induction q0 arbitrary: q n n')
  case (Cons y rest)
  obtain p target where y: "y = (p, target)" by (cases y)
  show ?case
  proof (cases "eligible me exec y")
    case True
    let ?n = "n\<lparr>sn_batch := sn_batch n @ [(p, target)], sn_active := (if sn_isActive n then sn_active n else sn_active n + 1), sn_isActive := True\<rparr>"
    have "scan_loop me exec bs tc rest ?n = (q, n')"
      using Cons.prems(1-3) True by (auto simp: y eligible_def split: if_splits payload.splits)
    from scan_loop_sound[OF this] show ?thesis using Cons.prems(2,4) True by (auto simp: scan_result_def y)
  next
    case False
    then obtain n1 q1 where "scan_loop me exec bs tc rest n1 = (q1, n')" "sn_batch n1 = []"
      using Cons.prems(1-3) by (fastforce simp: y eligible_def split: if_splits payload.splits prod.splits)
    then show ?thesis using Cons.IH Cons.prems(3,4) False by simp
  qed
qed simp

section \<open>One turn of the loop\<close>

fun batch_of :: "thread_state \<Rightarrow> work multiset" where
  "batch_of (Working b) = mset b"
| "batch_of _ = {#}"

fun active_of :: "thread_state \<Rightarrow> nat" where
  "active_of (Looping a) = (if a then 1 else 0)"
| "active_of (Working b) = 1"
| "active_of _ = 0"

definition fits :: "nat \<Rightarrow> work \<Rightarrow> bool" where
  "fits me x \<longleftrightarrow> snd x = None \<or> snd x = Some me"

lemma eligible_fits: "eligible me exec x \<Longrightarrow> fits me x"
  by (simp add: eligible_def fits_def)

lemma tickle_simps [simp]:
  "sc_fibers (tickle s) = sc_fibers s" "sc_activeThreadCount (tickle s) = sc_activeThreadCount s" "sc_rootThread (tickle s) = sc_rootThread s"
  "sc_stopping (tickle s) = sc_stopping s" "sc_threadCount (tickle s) = sc_threadCount s" "sc_threads (tickle s) = sc_threads s"
  by (simp_all add: tickle_def)

lemma erase_thread_error: "erase_thread me ts \<noteq> Inl Assertion"
  by (induction me ts rule: erase_thread.induct) (auto simp: andThen_def split: sum.splits)

lemma run_turn_scan:
  assumes "\<not> (length (sc_threads s) > sc_threadCount s \<and> sc_rootThread s \<noteq> Some me)"
  obtains q taken n where
    "scan_loop me exec (sc_batchSize s) (Scheduler_threadCount s) (sc_fibers s)
       \<lparr>sn_batch = [], sn_tickleMe = False, sn_dontIdle = False, sn_active = sc_activeThreadCount s, sn_isActive = isActive\<rparr> = (q, n)"
    "sn_batch n = taken" "mset q + mset taken = mset (sc_fibers s)" "\<forall>x \<in> set taken. eligible me exec x"
    "\<exists>st s'. run_turn me exec idleDone isActive s = Inr (st, s') \<and> sc_fibers s' = q \<and>
       (if taken \<noteq> [] then st = Working taken else st = Looping False \<or> st = Idling \<or> st = Exited) \<and>
       sc_activeThreadCount s' + (if isActive then 1 else 0) = sc_activeThreadCount s + int (active_of st)"
proof -
  let ?n0 = "\<lparr>sn_batch = [], sn_tickleMe = False, sn_dontIdle = False, sn_active = sc_activeThreadCount s, sn_isActive = isActive\<rparr>"
  obtain q n where sc: "scan_loop me exec (sc_batchSize s) (Scheduler_threadCount s) (sc_fibers s) ?n0 = (q, n)" by fastforce
  from scan_loop_sound[OF sc] obtain taken where r: "sn_batch n = taken" "mset q + mset taken = mset (sc_fibers s)"
      "\<forall>x \<in> set taken. eligible me exec x" "sn_isActive n \<longleftrightarrow> isActive \<or> taken \<noteq> []"
      "sn_active n = sc_activeThreadCount s + (if \<not> isActive \<and> taken \<noteq> [] then 1 else 0)"
    by (auto simp: scan_result_def)
  have "\<exists>st s'. run_turn me exec idleDone isActive s = Inr (st, s') \<and> sc_fibers s' = q \<and>
       (if taken \<noteq> [] then st = Working taken else st = Looping False \<or> st = Idling \<or> st = Exited) \<and>
       sc_activeThreadCount s' + (if isActive then 1 else 0) = sc_activeThreadCount s + int (active_of st)"
    using assms sc r by (cases "taken = []"; cases isActive; cases "sn_dontIdle n"; cases idleDone) (auto simp: run_turn_def Let_def)
  then show ?thesis using that[OF sc r(1-3)] by blast
qed

lemma run_turn_ok:
  shows "run_turn me exec idleDone isActive s \<noteq> Inl Assertion"
    and "run_turn me exec idleDone isActive s = Inr (st, s') \<Longrightarrow>
      mset (sc_fibers s) = mset (sc_fibers s') + batch_of st \<and>
      sc_activeThreadCount s' + (if isActive then 1 else 0) = sc_activeThreadCount s + int (active_of st) \<and>
      (\<forall>b. st = Working b \<longrightarrow> b \<noteq> [] \<and> (\<forall>x \<in> set b. fits me x))"
proof -
  consider (leave) "length (sc_threads s) > sc_threadCount s \<and> sc_rootThread s \<noteq> Some me"
    | (scan) "\<not> (length (sc_threads s) > sc_threadCount s \<and> sc_rootThread s \<noteq> Some me)" by blast
  then have "run_turn me exec idleDone isActive s \<noteq> Inl Assertion \<and>
    (run_turn me exec idleDone isActive s = Inr (st, s') \<longrightarrow>
      mset (sc_fibers s) = mset (sc_fibers s') + batch_of st \<and>
      sc_activeThreadCount s' + (if isActive then 1 else 0) = sc_activeThreadCount s + int (active_of st) \<and>
      (\<forall>b. st = Working b \<longrightarrow> b \<noteq> [] \<and> (\<forall>x \<in> set b. fits me x)))"
  proof cases
    case leave
    then show ?thesis using erase_thread_error[of me "sc_threads s"]
      by (cases "erase_thread me (sc_threads s)") (auto simp: run_turn_def leave_pool_def Let_def)
  next
    case scan
    then show ?thesis
      by (rule run_turn_scan[where me = me and exec = exec and idleDone = idleDone and isActive = isActive])
        (auto intro: eligible_fits split: if_splits)
  qed
  then show "run_turn me exec idleDone isActive s \<noteq> Inl Assertion"
    and "run_turn me exec idleDone isActive s = Inr (st, s') \<Longrightarrow>
      mset (sc_fibers s) = mset (sc_fibers s') + batch_of st \<and>
      sc_activeThreadCount s' + (if isActive then 1 else 0) = sc_activeThreadCount s + int (active_of st) \<and>
      (\<forall>b. st = Working b \<longrightarrow> b \<noteq> [] \<and> (\<forall>x \<in> set b. fits me x))" by blast+
qed

section \<open>The invariant\<close>

text \<open>
  Every piece of work that was scheduled is in the queue, in the batch of one thread or was run; the count of active
  threads is their number; and work that is meant for a thread is only in the batch of that thread, and only run by it.
\<close>

definition work_balance :: "sched_world \<Rightarrow> bool" where
  "work_balance w \<longleftrightarrow>
     mset (sw_scheduled w) = mset (sc_fibers (sw_sched w)) + tally batch_of (sw_thread w) + mset (map snd (sw_ran w))"

definition active_balance :: "sched_world \<Rightarrow> bool" where
  "active_balance w \<longleftrightarrow> sc_activeThreadCount (sw_sched w) = int (tally active_of (sw_thread w))"

definition thread_ok :: "nat \<Rightarrow> thread_state \<Rightarrow> bool" where
  "thread_ok i st \<longleftrightarrow> (\<forall>b. st = Working b \<longrightarrow> b \<noteq> [] \<and> (\<forall>x \<in> set b. fits i x))"

definition placed :: "sched_world \<Rightarrow> bool" where
  "placed w \<longleftrightarrow> (\<forall>i < length (sw_thread w). thread_ok i (sw_thread w ! i)) \<and> (\<forall>(t, x) \<in> set (sw_ran w). fits t x)"

definition sched_inv :: "sched_world \<Rightarrow> bool" where
  "sched_inv w \<longleftrightarrow> \<not> sw_failed w \<and> work_balance w \<and> active_balance w \<and> placed w"

lemmas sched_inv_defs = sched_inv_def work_balance_def active_balance_def placed_def

lemma thread_ok_simps [simp]:
  "thread_ok i (Looping a)" "thread_ok i Idling" "thread_ok i Exited"
  "thread_ok i (Working b) \<longleftrightarrow> b \<noteq> [] \<and> (\<forall>x \<in> set b. fits i x)"
  by (auto simp: thread_ok_def)

text \<open>A step of one thread, and one that adds threads.\<close>

lemma sched_inv_thread_step:
  assumes inv: "sched_inv w" and i: "i < length (sw_thread w)"
    and bal: "mset (sc_fibers (sw_sched w)) + batch_of (sw_thread w ! i) = mset (sc_fibers s) + batch_of st + mset (map snd new)"
    and act: "sc_activeThreadCount s + int (active_of (sw_thread w ! i)) = sc_activeThreadCount (sw_sched w) + int (active_of st)"
    and ok: "thread_ok i st" "\<forall>(t, x) \<in> set new. fits t x"
  shows "sched_inv (w\<lparr>sw_sched := s, sw_thread := (sw_thread w)[i := st], sw_ran := sw_ran w @ new\<rparr>)"
proof -
  have b: "tally batch_of ((sw_thread w)[i := st]) + batch_of (sw_thread w ! i) = tally batch_of (sw_thread w) + batch_of st"
    and a: "tally active_of ((sw_thread w)[i := st]) + active_of (sw_thread w ! i) = tally active_of (sw_thread w) + active_of st"
    by (rule tally_update[OF i])+
  have "mset (sw_scheduled w) = mset (sc_fibers (sw_sched w)) + tally batch_of (sw_thread w) + mset (map snd (sw_ran w))"
    using inv by (simp add: sched_inv_defs)
  then have "mset (sw_scheduled w) + batch_of (sw_thread w ! i) =
      (mset (sc_fibers (sw_sched w)) + batch_of (sw_thread w ! i)) + tally batch_of (sw_thread w) + mset (map snd (sw_ran w))"
    by (simp only: add_ac)
  also have "\<dots> = mset (sc_fibers s) + (tally batch_of (sw_thread w) + batch_of st) + mset (map snd new) + mset (map snd (sw_ran w))"
    unfolding bal by (simp only: add_ac)
  also have "\<dots> = (mset (sc_fibers s) + tally batch_of ((sw_thread w)[i := st]) + mset (map snd (sw_ran w @ new))) + batch_of (sw_thread w ! i)"
    unfolding b[symmetric] by (simp only: map_append mset_append add_ac)
  finally have "mset (sw_scheduled w) = mset (sc_fibers s) + tally batch_of ((sw_thread w)[i := st]) + mset (map snd (sw_ran w @ new))"
    by (rule add_right_imp_eq)
  moreover have "sc_activeThreadCount s = int (tally active_of ((sw_thread w)[i := st]))"
    using a act inv unfolding sched_inv_defs by linarith
  moreover have "placed (w\<lparr>sw_sched := s, sw_thread := (sw_thread w)[i := st], sw_ran := sw_ran w @ new\<rparr>)"
    using inv i ok by (auto simp: sched_inv_def placed_def nth_list_update)
  ultimately show ?thesis using inv by (simp add: sched_inv_def work_balance_def active_balance_def)
qed

lemma tally_append_zeros: "f x = 0 \<Longrightarrow> tally f (xs @ replicate k x) = tally f xs"
  by (induction k) (simp_all add: tally_def)

lemma tally_zeros: "\<forall>x \<in> set xs. f x = 0 \<Longrightarrow> tally f xs = 0"
  by (induction xs) (simp_all add: tally_def)

lemma sched_inv_more_threads:
  assumes "sched_inv w" "sc_fibers s = sc_fibers (sw_sched w)" "sc_activeThreadCount s = sc_activeThreadCount (sw_sched w)"
  shows "sched_inv (w\<lparr>sw_sched := s, sw_thread := sw_thread w @ replicate k (Looping False)\<rparr>)"
proof -
  have "tally batch_of (sw_thread w @ replicate k (Looping False)) = tally batch_of (sw_thread w)"
    "tally active_of (sw_thread w @ replicate k (Looping False)) = tally active_of (sw_thread w)"
    by (simp_all add: tally_append_zeros)
  moreover have "placed (w\<lparr>sw_sched := s, sw_thread := sw_thread w @ replicate k (Looping False)\<rparr>)"
    using assms(1) by (auto simp: sched_inv_def placed_def nth_append)
  ultimately show ?thesis using assms by (simp add: sched_inv_def work_balance_def active_balance_def)
qed

lemma sched_inv_schedules:
  assumes "sched_inv w" "sc_fibers s = sc_fibers (sw_sched w) @ xs" "sc_activeThreadCount s = sc_activeThreadCount (sw_sched w)"
  shows "sched_inv (w\<lparr>sw_sched := s, sw_scheduled := sw_scheduled w @ xs\<rparr>)"
  using assms by (simp add: sched_inv_defs)

section \<open>Every action keeps the invariant\<close>

lemma schedule_loop_appends:
  "schedule_loop ps t s = (t', s') \<Longrightarrow>
   sc_fibers s' = sc_fibers s @ map (\<lambda>p. (p, None)) ps \<and> sc_activeThreadCount s' = sc_activeThreadCount s"
  by (induction ps t s rule: schedule_loop.induct) (auto simp: scheduleNoLock_def)

lemma schedule_appends:
  "sc_fibers (Scheduler_schedule inside x s) = sc_fibers s @ [x]"
  "sc_activeThreadCount (Scheduler_schedule inside x s) = sc_activeThreadCount s"
  "sc_fibers (Scheduler_scheduleAll inside ps s) = sc_fibers s @ map (\<lambda>p. (p, None)) ps"
  "sc_activeThreadCount (Scheduler_scheduleAll inside ps s) = sc_activeThreadCount s"
  by (auto simp: Scheduler_schedule_def Scheduler_scheduleAll_def scheduleNoLock_def dest: schedule_loop_appends split: prod.splits)

lemma tickles_simps [simp]:
  "sc_fibers ((tickle ^^ k) s) = sc_fibers s" "sc_activeThreadCount ((tickle ^^ k) s) = sc_activeThreadCount s"
  by (induction k) auto

lemma stop_keeps:
  "sc_fibers (Scheduler_stop inside s) = sc_fibers s" "sc_activeThreadCount (Scheduler_stop inside s) = sc_activeThreadCount s"
  by (auto simp: Scheduler_stop_def Let_def)

lemma sched_inv_turn:
  assumes inv: "sched_inv w" and i: "i < length (sw_thread w)"
  shows "sched_inv (sched_act (Turn i exec idleDone) w)"
proof (cases "sw_thread w ! i")
  case (Looping isActive)
  show ?thesis
  proof (cases "run_turn i exec idleDone isActive (sw_sched w)")
    case (Inl e)
    then show ?thesis using Looping run_turn_ok(1)[of i exec idleDone isActive "sw_sched w"] inv by (auto simp: sched_inv_defs)
  next
    case (Inr r)
    obtain st s where r: "r = (st, s)" by (cases r)
    show ?thesis
      using sched_inv_thread_step[OF inv i, of s st "[]"] run_turn_ok(2)[OF Inr[unfolded r]] Looping Inr
      by (cases isActive) (simp_all add: r thread_ok_def)
  qed
qed (use inv in auto)

lemma sched_inv_work:
  assumes inv: "sched_inv w" and i: "i < length (sw_thread w)"
  shows "sched_inv (sched_act (RunWork i throws) w)"
proof (cases "sw_thread w ! i")
  case (Working b)
  then have b: "b \<noteq> []" "\<forall>x \<in> set b. fits i x" using inv i by (auto simp: sched_inv_def placed_def thread_ok_def)
  then have m: "mset b = mset (butlast b) + {#last b#}" by (metis append_butlast_last_id mset_append mset.simps(1,2) add_mset_add_single empty_neutral(1))
  have left: "\<forall>x \<in> set (butlast b). fits i x" using b by (blast dest: in_set_butlastD)
  obtain st s where r: "run_work b throws (sw_sched w) = (st, s)" by fastforce
  then have "mset (sc_fibers (sw_sched w)) + batch_of (sw_thread w ! i) = mset (sc_fibers s) + batch_of st + mset (map snd [(i, last b)])"
    "sc_activeThreadCount s + int (active_of (sw_thread w ! i)) = sc_activeThreadCount (sw_sched w) + int (active_of st)" "thread_ok i st"
    using Working left m by (auto simp: run_work_def Let_def split: if_splits)
  then show ?thesis using sched_inv_thread_step[OF inv i, of s st "[(i, last b)]"] b Working r by simp
qed (use inv in auto)

lemma sched_inv_set_thread:
  assumes inv: "sched_inv w" and i: "i < length (sw_thread w)" "batch_of (sw_thread w ! i) = {#}" "active_of (sw_thread w ! i) = 0"
    and s: "sc_fibers s = sc_fibers (sw_sched w)" "sc_activeThreadCount s = sc_activeThreadCount (sw_sched w)"
  shows "sched_inv (w\<lparr>sw_sched := s, sw_thread := (sw_thread w)[i := Looping False]\<rparr>)"
  using sched_inv_thread_step[OF inv i(1), of s "Looping False" "[]"] i s by simp

lemma sched_inv_act:
  assumes inv: "sched_inv w" and i: "\<And>me. acting_thread a = Some me \<Longrightarrow> me < length (sw_thread w)"
  shows "sched_inv (sched_act a w)"
proof (cases a)
  case Start
  have "sched_inv (w\<lparr>sw_sched := s\<rparr>)" if "sc_fibers s = sc_fibers (sw_sched w)" "sc_activeThreadCount s = sc_activeThreadCount (sw_sched w)" for s
    using inv that by (simp add: sched_inv_defs)
  then show ?thesis using Start inv sched_inv_more_threads[OF inv] by (auto simp: Let_def Scheduler_start_def ensure_def split: sum.splits if_splits)
next
  case (SetThreadCount n)
  have "sc_fibers s = sc_fibers (sw_sched w) \<and> sc_activeThreadCount s = sc_activeThreadCount (sw_sched w)"
    if "Scheduler_setThreadCount n new (sw_sched w) = Inr s" for new s
    using that by (auto simp: Scheduler_setThreadCount_def Let_def ensure_def split: if_splits)
  then show ?thesis using SetThreadCount inv sched_inv_more_threads[OF inv] by (auto simp: Let_def split: sum.splits)
next
  case (Enter me)
  then show ?thesis using inv i sched_inv_set_thread[OF inv, of me "sw_sched w"] by simp
next
  case (Schedule inside x)
  then show ?thesis using sched_inv_schedules[OF inv] by (simp add: schedule_appends)
next
  case (ScheduleAll inside ps)
  then show ?thesis using sched_inv_schedules[OF inv] by (simp add: schedule_appends)
next
  case (Turn me exec idleDone)
  then show ?thesis using sched_inv_turn[OF inv] i by simp
next
  case (RunWork me throws)
  then show ?thesis using sched_inv_work[OF inv] i by simp
next
  case (IdleReturn me)
  then show ?thesis using inv i sched_inv_set_thread[OF inv, of me "idle_return (sw_sched w)"]
    by (auto simp: idle_return_def split: thread_state.splits)
next
  case (Stop inside)
  then show ?thesis using inv by (simp add: sched_inv_defs stop_keeps)
qed

lemma sched_reach_inv: "sched_reach w \<Longrightarrow> sched_inv w"
proof (induction rule: sched_reach.induct)
  case (sched_init threads caller batchSize s)
  then show ?case
    by (auto simp: sched_start_def sched_inv_defs tally_def Scheduler_new_def ensure_def split: if_splits)
next
  case (sched_step w a)
  then show ?case by (blast intro: sched_inv_act)
qed

section \<open>A batch is run to its end\<close>

lemma run_batch:
  assumes "i < length (sw_thread w)" "sw_thread w ! i = Working b" "b \<noteq> []"
  shows "sw_ran ((sched_act (RunWork i False) ^^ length b) w) = sw_ran w @ map (Pair i) (rev b) \<and>
    sw_thread ((sched_act (RunWork i False) ^^ length b) w) ! i = Looping True"
  using assms
proof (induction b arbitrary: w rule: rev_induct)
  case (snoc x b)
  show ?case
  proof (cases "b = []")
    case True
    then show ?thesis using snoc.prems by (simp add: run_work_def)
  next
    case False
    let ?v = "w\<lparr>sw_thread := (sw_thread w)[i := Working b], sw_ran := sw_ran w @ [(i, x)]\<rparr>"
    have "sched_act (RunWork i False) w = ?v" using snoc.prems False by (simp add: run_work_def)
    then have "(sched_act (RunWork i False) ^^ length (b @ [x])) w = (sched_act (RunWork i False) ^^ length b) ?v"
      by (simp only: length_append_singleton funpow_Suc_right o_apply)
    then show ?thesis using snoc.IH[of ?v] snoc.prems(1) False by (simp del: sched_act.simps)
  qed
qed simp

text \<open>Sequences of actions, for concrete runs.\<close>

definition sched_allows :: "sched_action \<Rightarrow> sched_world \<Rightarrow> bool" where
  "sched_allows a w \<longleftrightarrow> (case acting_thread a of None \<Rightarrow> True | Some me \<Rightarrow> me < length (sw_thread w))"

interpretation sched_runs: guarded_actions sched_allows sched_act sched_reach
  by unfold_locales (auto simp: sched_allows_def intro: sched_step)

definition two_threads :: scheduler where
  "two_threads = \<lparr>sc_fibers = [], sc_rootThread = None, sc_threads = [], sc_threadCount = 2, sc_activeThreadCount = 0,
     sc_idleThreadCount = 0, sc_stopping = True, sc_batchSize = 2, sc_tickles = 0\<rparr>"

definition demo_acts :: "sched_action list" where
  "demo_acts = [Start, Schedule False (DgWork 7, Some 1), ScheduleAll False [DgWork 8, FiberWork 9], Turn 0 (\<lambda>_. False) False]"

lemma demo_reach: "all_enabled sched_allows sched_act as (sched_start two_threads) \<Longrightarrow> sched_reach (fold sched_act as (sched_start two_threads))"
  by (rule sched_runs.reach_fold[OF sched_init[of 2 None 2]]) (auto simp: Scheduler_new_def two_threads_def)

lemmas demo_simps = sched_allows_def two_threads_def demo_acts_def sched_start_def Scheduler_start_def new_threads_def Scheduler_schedule_def Scheduler_scheduleAll_def
  scheduleNoLock_def shouldTickle_def tickle_def run_turn_def Scheduler_threadCount_def run_work_def Scheduler_isStopping_def Scheduler_stop_def
  ensure_def Let_def upt_rec numeral_2_eq_2

section \<open>Changing the number of threads\<close>

text \<open>
  More threads before \<open>start\<close> leave null pointers in \<open>m_threads\<close>, and \<open>start\<close> fails its assertion. Fewer
  threads and then more, before a thread has left, put a new thread in the place of one that still runs; that thread
  cannot find itself when it is told to leave.
\<close>

lemma scheduler_thread_count_flaws:
  "andThen (Scheduler_setThreadCount 3 [2] two_threads) (Scheduler_start [0, 1, 2]) = Inl Assertion"
  "andThen (Scheduler_start [0, 1] two_threads) (\<lambda>s1. andThen (Scheduler_setThreadCount 1 [] s1) (\<lambda>s2.
     andThen (Scheduler_setThreadCount 2 [2] s2) (\<lambda>s3. andThen (Scheduler_setThreadCount 1 [] s3) (run_turn 1 exec idleDone isActive)))) = Inl NotReached"
  by (simp_all add: demo_simps Scheduler_setThreadCount_def resize_threads_def leave_pool_def)

section \<open>Properties\<close>

text \<open>
  C2. In every state that threads can reach by starting the scheduler, changing its number of threads, scheduling work,
  turning the loop, running work that may throw, idling and stopping, in any order: each piece of work that
  was scheduled is exactly once in the queue, in the batch of one thread or among the work that was run, so none is lost
  and none is run twice; a thread only runs work that is meant for it or for any thread; \<open>m_activeThreadCount\<close>
  is the number of threads that are active; and the assertion of the loop that \<open>isActive\<close> agrees with the batch holds.
\<close>

theorem scheduler_runs_each_once:
  assumes "sched_reach w"
  shows "mset (sw_scheduled w) = mset (sc_fibers (sw_sched w)) + tally batch_of (sw_thread w) + mset (map snd (sw_ran w)) \<and>
    (\<forall>(t, p, target) \<in> set (sw_ran w). target = None \<or> target = Some t) \<and>
    sc_activeThreadCount (sw_sched w) = int (tally active_of (sw_thread w)) \<and>
    \<not> sw_failed w"
  using sched_reach_inv[OF assms] by (auto simp: sched_inv_defs fits_def)

theorem scheduler_runs_each_once_witness:
  "sw_ran (fold sched_act (demo_acts @ [RunWork 0 True]) (sched_start two_threads)) = [(0, FiberWork 9, None)] \<and>
   sc_fibers (sw_sched (fold sched_act (demo_acts @ [RunWork 0 True]) (sched_start two_threads))) = [(DgWork 7, Some 1), (DgWork 8, None)] \<and>
   sc_activeThreadCount (sw_sched (fold sched_act (demo_acts @ [RunWork 0 True]) (sched_start two_threads))) = 0 \<and>
   \<not> sw_failed (fold sched_act (demo_acts @ [RunWork 0 True]) (sched_start two_threads))"
proof -
  let ?w = "fold sched_act (demo_acts @ [RunWork 0 True]) (sched_start two_threads)"
  have "sched_reach ?w" by (rule demo_reach) (simp add: demo_simps)
  from scheduler_runs_each_once[OF this] show ?thesis by (simp add: demo_simps)
qed

text \<open>
  C11. When \<open>stopping\<close> says that the scheduler may stop, every piece of work that was scheduled has been run
  exactly once and no thread has work in its batch.
\<close>

theorem scheduler_stops_when_done:
  assumes "sched_reach w" "Scheduler_isStopping (sw_sched w)"
  shows "mset (map snd (sw_ran w)) = mset (sw_scheduled w) \<and> (\<forall>st \<in> set (sw_thread w). batch_of st = {#})"
proof -
  have inv: "sched_inv w" by (rule sched_reach_inv[OF assms(1)])
  then have "\<forall>st \<in> set (sw_thread w). active_of st = 0"
    using assms(2) by (simp add: sched_inv_defs Scheduler_isStopping_def tally_zero)
  moreover have "batch_of st = {#}" if "active_of st = 0" for st using that by (cases st) auto
  ultimately have none: "\<forall>st \<in> set (sw_thread w). batch_of st = {#}" by blast
  then have "tally batch_of (sw_thread w) = {#}" by (rule tally_zeros)
  then show ?thesis using inv assms(2) none by (simp add: sched_inv_defs Scheduler_isStopping_def)
qed

definition demo_run :: "sched_action list" where
  "demo_run = [Start, Schedule False (DgWork 7, None), Turn 0 (\<lambda>_. False) False, RunWork 0 False, Turn 0 (\<lambda>_. False) False, Stop False]"

theorem scheduler_stops_when_done_witness:
  "Scheduler_isStopping (sw_sched (fold sched_act demo_run (sched_start two_threads))) \<and>
   mset (map snd (sw_ran (fold sched_act demo_run (sched_start two_threads)))) = {#(DgWork 7, None)#}"
proof -
  let ?w = "fold sched_act demo_run (sched_start two_threads)"
  have r: "sched_reach ?w" by (rule demo_reach) (simp add: demo_run_def demo_simps)
  have st: "Scheduler_isStopping (sw_sched ?w)" by (simp add: demo_run_def demo_simps)
  have "sw_scheduled ?w = [(DgWork 7, None)]" by (simp add: demo_run_def demo_simps)
  then show ?thesis using scheduler_stops_when_done[OF r st] st by simp
qed

text \<open>
  C28. A thread at the top of its loop that is not to leave and finds work in the queue that it may run takes it: the first
  such piece is the first of its batch, and when the batch is run to its end, which takes as many steps as it is
  long, all of it has been run by this thread, last piece first, and the thread is at the top of its loop again.
\<close>

theorem scheduler_takes_and_runs:
  assumes "i < length (sw_thread w)" "sw_thread w ! i = Looping isActive" "0 < sc_batchSize (sw_sched w)"
    and "length (sc_threads (sw_sched w)) \<le> sc_threadCount (sw_sched w) \<or> sc_rootThread (sw_sched w) = Some i"
    and "find (eligible i exec) (sc_fibers (sw_sched w)) = Some x"
  shows "\<exists>b. hd b = x \<and> sw_thread (sched_act (Turn i exec idleDone) w) ! i = Working b \<and>
    sw_ran ((sched_act (RunWork i False) ^^ length b) (sched_act (Turn i exec idleDone) w)) = sw_ran w @ map (Pair i) (rev b) \<and>
    sw_thread ((sched_act (RunWork i False) ^^ length b) (sched_act (Turn i exec idleDone) w)) ! i = Looping True"
proof -
  have stay: "\<not> (length (sc_threads (sw_sched w)) > sc_threadCount (sw_sched w) \<and> sc_rootThread (sw_sched w) \<noteq> Some i)"
    using assms(4) by auto
  show ?thesis
  proof (rule run_turn_scan[OF stay, of exec isActive idleDone])
    fix q taken n
    assume sc: "scan_loop i exec (sc_batchSize (sw_sched w)) (Scheduler_threadCount (sw_sched w)) (sc_fibers (sw_sched w))
       \<lparr>sn_batch = [], sn_tickleMe = False, sn_dontIdle = False, sn_active = sc_activeThreadCount (sw_sched w), sn_isActive = isActive\<rparr> = (q, n)"
      and taken: "sn_batch n = taken"
      and turn: "\<exists>st s'. run_turn i exec idleDone isActive (sw_sched w) = Inr (st, s') \<and> sc_fibers s' = q \<and>
       (if taken \<noteq> [] then st = Working taken else st = Looping False \<or> st = Idling \<or> st = Exited) \<and>
       sc_activeThreadCount s' + (if isActive then 1 else 0) = sc_activeThreadCount (sw_sched w) + int (active_of st)"
    have t: "taken \<noteq> [] \<and> hd taken = x" using scan_loop_takes[OF sc _ assms(3,5)] taken by simp
    with turn obtain s' where "run_turn i exec idleDone isActive (sw_sched w) = Inr (Working taken, s')" by auto
    then have w: "sched_act (Turn i exec idleDone) w = w\<lparr>sw_sched := s', sw_thread := (sw_thread w)[i := Working taken]\<rparr>"
      using assms(2) by simp
    show ?thesis
      using run_batch[of i "sched_act (Turn i exec idleDone) w" taken] t assms(1) unfolding w by (intro exI[of _ taken]) simp
  qed
qed

theorem scheduler_takes_and_runs_witness:
  "\<exists>b. hd b = (DgWork 8, None) \<and> sw_ran ((sched_act (RunWork 0 False) ^^ length b) (fold sched_act demo_acts (sched_start two_threads))) = map (Pair 0) (rev b)"
proof -
  let ?w = "fold sched_act (butlast demo_acts) (sched_start two_threads)"
  have "0 < length (sw_thread ?w)" "sw_thread ?w ! 0 = Looping False" "0 < sc_batchSize (sw_sched ?w)"
    "length (sc_threads (sw_sched ?w)) \<le> sc_threadCount (sw_sched ?w) \<or> sc_rootThread (sw_sched ?w) = Some 0"
    "find (eligible 0 (\<lambda>_. False)) (sc_fibers (sw_sched ?w)) = Some (DgWork 8, None)" "sw_ran ?w = []"
    by (simp_all add: demo_simps eligible_def)
  moreover have "fold sched_act demo_acts (sched_start two_threads) = sched_act (Turn 0 (\<lambda>_. False) False) ?w"
    by (simp add: demo_acts_def)
  ultimately show ?thesis
    using scheduler_takes_and_runs[of 0 ?w False "\<lambda>_. False" "(DgWork 8, None)" False] by auto
qed

end
