(* ===== verification/Worker_Pool.thy ===== *)
theory Worker_Pool
  imports Scheduler
begin

text \<open>
  \<open>WorkerPool\<close> of workerpool.cpp: the scheduler whose idle threads wait on a semaphore that \<open>tickle\<close>
  notifies. The runs are those of a pool that has only threads of its own. The count of the semaphore is the field \<open>sc_tickles\<close> of the
  scheduler, which \<open>tickle\<close> increments.
\<close>

section \<open>The pool\<close>

text \<open>
  For each thread, whether its idle fiber waits on the semaphore, as opposed to being before the call of \<open>stopping\<close>, and
  whether it has terminated.
\<close>

record pool =
  pl_world :: sched_world
  pl_waiting :: "nat \<Rightarrow> bool"
  pl_idleDone :: "nat \<Rightarrow> bool"

definition WorkerPool_new :: "nat \<Rightarrow> nat option \<Rightarrow> nat \<Rightarrow> pool result" where
  "WorkerPool_new threads caller batchSize =
     andThen (Scheduler_new threads caller batchSize) (\<lambda>s.
       Inr \<lparr>pl_world = sched_act Start (sched_start s), pl_waiting = (\<lambda>_. False), pl_idleDone = (\<lambda>_. False)\<rparr>)"

text \<open>The loop of \<open>idle\<close> in two steps: the call of \<open>stopping\<close>, and the wait that ends in a yield
  to the loop of the thread. The exception that ends \<open>idle\<close> is thrown only when the thread leaves.\<close>

definition WorkerPool_idle :: "nat \<Rightarrow> pool \<Rightarrow> pool" where
  "WorkerPool_idle me p =
     (if Scheduler_isStopping (sw_sched (pl_world p))
      then p\<lparr>pl_world := sched_act (IdleReturn me) (pl_world p), pl_idleDone := (pl_idleDone p)(me := True)\<rparr>
      else p\<lparr>pl_waiting := (pl_waiting p)(me := True)\<rparr>)"

definition semaphore_wait :: "scheduler \<Rightarrow> scheduler option" where
  "semaphore_wait s = (if sc_tickles s > 0 then Some (s\<lparr>sc_tickles := sc_tickles s - 1\<rparr>) else None)"

definition WorkerPool_idle_wait :: "nat \<Rightarrow> pool \<Rightarrow> pool" where
  "WorkerPool_idle_wait me p =
     (case semaphore_wait (sw_sched (pl_world p)) of
        None \<Rightarrow> p
      | Some s \<Rightarrow> p\<lparr>pl_world := sched_act (IdleReturn me) ((pl_world p)\<lparr>sw_sched := s\<rparr>),
                    pl_waiting := (pl_waiting p)(me := False)\<rparr>)"

section \<open>Runs of the pool\<close>

datatype pool_action =
    Pool sched_action
  | PoolTurn nat "nat \<Rightarrow> bool"
  | PoolIdle nat

fun pool_act :: "pool_action \<Rightarrow> pool \<Rightarrow> pool" where
  "pool_act (Pool a) p = p\<lparr>pl_world := sched_act a (pl_world p)\<rparr>"
| "pool_act (PoolTurn me exec) p = p\<lparr>pl_world := sched_act (Turn me exec (pl_idleDone p me)) (pl_world p)\<rparr>"
| "pool_act (PoolIdle me) p =
     (if sw_thread (pl_world p) ! me \<noteq> Idling then p
      else if pl_waiting p me then WorkerPool_idle_wait me p else WorkerPool_idle me p)"

text \<open>
  Scheduling from inside is done by work that runs; the number of threads is not lowered; and no work throws.
\<close>

definition is_working :: "thread_state \<Rightarrow> bool" where
  "is_working st \<longleftrightarrow> (case st of Working b \<Rightarrow> True | _ \<Rightarrow> False)"

fun pool_allows :: "pool_action \<Rightarrow> pool \<Rightarrow> bool" where
  "pool_allows (Pool Start) p = True"
| "pool_allows (Pool (SetThreadCount n)) p = (n \<ge> sc_threadCount (sw_sched (pl_world p)))"
| "pool_allows (Pool (Schedule inside x)) p = (inside \<longrightarrow> list_ex is_working (sw_thread (pl_world p)))"
| "pool_allows (Pool (ScheduleAll inside ps)) p = (inside \<longrightarrow> list_ex is_working (sw_thread (pl_world p)))"
| "pool_allows (Pool (RunWork me throws)) p = (\<not> throws \<and> me < length (sw_thread (pl_world p)))"
| "pool_allows (Pool (Stop inside)) p = True"
| "pool_allows (PoolTurn me exec) p = (me < length (sw_thread (pl_world p)))"
| "pool_allows (PoolIdle me) p = (me < length (sw_thread (pl_world p)))"
| "pool_allows _ p = False"

inductive pool_reach :: "pool \<Rightarrow> bool" where
  pool_init: "WorkerPool_new threads None batchSize = Inr p \<Longrightarrow> 0 < batchSize \<Longrightarrow> pool_reach p"
| pool_step: "pool_reach p \<Longrightarrow> pool_allows a p \<Longrightarrow> pool_reach (pool_act a p)"

text \<open>A thread that is not blocked.\<close>

definition runnable :: "pool \<Rightarrow> nat \<Rightarrow> bool" where
  "runnable p me \<longleftrightarrow>
     (case sw_thread (pl_world p) ! me of
        Looping a \<Rightarrow> True
      | Working b \<Rightarrow> True
      | Idling \<Rightarrow> \<not> pl_waiting p me \<or> sc_tickles (sw_sched (pl_world p)) > 0
      | Exited \<Rightarrow> False)"

section \<open>Somebody is awake when there is work\<close>

definition awake :: "thread_state \<Rightarrow> bool" where
  "awake st \<longleftrightarrow> st \<noteq> Idling \<and> st \<noteq> Exited"

lemma awake_simps [simp]: "awake (Looping a)" "awake (Working b)" "\<not> awake Idling" "\<not> awake Exited"
  by (auto simp: awake_def)

definition attended :: "sched_world \<Rightarrow> bool" where
  "attended w \<longleftrightarrow> sc_fibers (sw_sched w) = [] \<or> (\<exists>st \<in> set (sw_thread w). awake st) \<or> sc_tickles (sw_sched w) > 0"

text \<open>The pool has only its own threads and not too many of them.\<close>

definition own_threads :: "scheduler \<Rightarrow> bool" where
  "own_threads s \<longleftrightarrow> sc_rootThread s = None \<and> length (sc_threads s) \<le> sc_threadCount s \<and> 0 < sc_batchSize s"

definition pool_inv :: "sched_world \<Rightarrow> bool" where
  "pool_inv w \<longleftrightarrow> attended w \<and> own_threads (sw_sched w)"

text \<open>A scan that takes nothing and finds nothing to come back for has seen an empty queue.\<close>

lemma scan_loop_flags:
  assumes "scan_loop me exec bs tc q0 n = (q, n')"
  shows "(sn_dontIdle n \<longrightarrow> sn_dontIdle n') \<and> (sn_batch n' = [] \<and> 0 < bs \<and> \<not> sn_dontIdle n' \<longrightarrow> q0 = [])"
  using assms
proof (induction me exec bs tc q0 n arbitrary: q n' rule: scan_loop.induct)
  case (2 me exec bs tc p target rest n)
  show ?case
  proof (cases "sn_batch n' = []")
    case True
    from scan_loop_sound[OF 2(4)] have b: "sn_batch n = []" using True by (auto simp: scan_result_def)
    show ?thesis using 2(4) b True 2(1,2) scan_loop_sound
      by (fastforce simp: scan_result_def split: if_splits prod.splits)
  next
    case False
    then show ?thesis using 2 by (auto split: if_splits prod.splits)
  qed
qed simp

lemma run_turn_own:
  assumes "own_threads s" "run_turn me exec idleDone isActive s = Inr (st, s')"
  shows "(awake st \<or> sc_fibers s' = []) \<and> own_threads s'"
proof -
  let ?n0 = "\<lparr>sn_batch = [], sn_tickleMe = False, sn_dontIdle = False, sn_active = sc_activeThreadCount s, sn_isActive = isActive\<rparr>"
  have stay: "\<not> (length (sc_threads s) > sc_threadCount s \<and> sc_rootThread s \<noteq> Some me)" and bs: "0 < sc_batchSize s"
    using assms(1) by (auto simp: own_threads_def)
  obtain q n where sc: "scan_loop me exec (sc_batchSize s) (Scheduler_threadCount s) (sc_fibers s) ?n0 = (q, n)" by fastforce
  have left: "q = []" if "sn_batch n = []" "\<not> sn_dontIdle n"
    using scan_loop_flags[OF sc] scan_loop_sound[OF sc] that bs by (auto simp: scan_result_def)
  show ?thesis
    using assms stay sc left by (auto simp: run_turn_def Let_def ensure_def own_threads_def tickle_def split: if_splits)
qed

lemma own_threads_frame:
  "sc_rootThread s' = sc_rootThread s \<Longrightarrow> sc_threads s' = sc_threads s \<Longrightarrow> sc_threadCount s' = sc_threadCount s \<Longrightarrow>
   sc_batchSize s' = sc_batchSize s \<Longrightarrow> own_threads s' = own_threads s"
  by (simp add: own_threads_def)

lemma schedule_loop_flag:
  "schedule_loop ps t s = (t', s') \<Longrightarrow>
   t' = (t \<or> ps \<noteq> [] \<and> sc_fibers s = []) \<and> sc_tickles s' = sc_tickles s \<and> own_threads s' = own_threads s"
  by (induction ps t s rule: schedule_loop.induct) (auto simp: scheduleNoLock_def own_threads_def)

lemma attended_schedule:
  assumes "attended w" "inside \<longrightarrow> list_ex is_working (sw_thread w)"
  shows "attended (sched_act (Schedule inside x) w)" "attended (sched_act (ScheduleAll inside ps) w)"
proof -
  have working: "\<exists>st \<in> set (sw_thread w). awake st" if inside
    using assms(2) that by (auto simp: list_ex_iff is_working_def split: thread_state.splits intro!: bexI)
  then show "attended (sched_act (Schedule inside x) w)"
    using assms(1) by (auto simp: attended_def Scheduler_schedule_def scheduleNoLock_def shouldTickle_def tickle_def)
  obtain t s where l: "schedule_loop ps False (sw_sched w) = (t, s)" by fastforce
  show "attended (sched_act (ScheduleAll inside ps) w)"
    using assms(1) working l schedule_loop_flag[OF l] schedule_loop_appends[OF l]
    by (auto simp: attended_def Scheduler_scheduleAll_def shouldTickle_def tickle_def)
qed

lemma own_threads_schedule:
  "own_threads (Scheduler_schedule inside x s) = own_threads s" "own_threads (Scheduler_scheduleAll inside ps s) = own_threads s"
  using schedule_loop_flag[of ps False s]
  by (auto simp: Scheduler_schedule_def Scheduler_scheduleAll_def scheduleNoLock_def tickle_def own_threads_def split: prod.splits)

lemma stop_tickles: "sc_tickles s \<le> sc_tickles (Scheduler_stop inside s) \<and> own_threads (Scheduler_stop inside s) = own_threads s"
proof -
  have "sc_tickles s \<le> sc_tickles ((tickle ^^ k) s) \<and> own_threads ((tickle ^^ k) s) = own_threads s" for k and s :: scheduler
    by (induction k) (auto simp: tickle_def own_threads_def)
  from this[of "s\<lparr>sc_stopping := True\<rparr>" "sc_threadCount s"] show ?thesis
    by (auto simp: Scheduler_stop_def Let_def tickle_def own_threads_def)
qed

lemma attended_wake: "me < length (sw_thread w) \<Longrightarrow> awake st \<Longrightarrow> attended (w\<lparr>sw_sched := s, sw_thread := (sw_thread w)[me := st]\<rparr>)"
  by (auto simp: attended_def set_update_memI)

lemma pool_inv_turn:
  assumes "pool_inv w" "me < length (sw_thread w)"
  shows "pool_inv (sched_act (Turn me exec idleDone) w)"
proof (cases "sw_thread w ! me")
  case (Looping isActive)
  show ?thesis
  proof (cases "run_turn me exec idleDone isActive (sw_sched w)")
    case (Inl e)
    then show ?thesis using assms Looping by (simp add: pool_inv_def attended_def)
  next
    case (Inr r)
    obtain st s where r: "r = (st, s)" by (cases r)
    have "(awake st \<or> sc_fibers s = []) \<and> own_threads s" using run_turn_own[OF _ Inr[unfolded r]] assms(1) by (simp add: pool_inv_def)
    then show ?thesis using assms Looping Inr attended_wake[of me w st s] by (auto simp: r pool_inv_def attended_def)
  qed
qed (use assms in \<open>auto simp: pool_inv_def\<close>)

lemma pool_inv_work:
  assumes "pool_inv w" "me < length (sw_thread w)"
  shows "pool_inv (sched_act (RunWork me False) w)"
proof (cases "sw_thread w ! me")
  case (Working b)
  obtain st s where r: "run_work b False (sw_sched w) = (st, s)" by fastforce
  then have "awake st" "s = sw_sched w" by (auto simp: run_work_def Let_def split: if_splits)
  then show ?thesis using Working r assms by (auto simp: pool_inv_def attended_def set_update_memI)
qed (use assms in \<open>auto simp: pool_inv_def\<close>)

lemma pool_inv_threads:
  assumes "pool_inv w"
  shows "pool_inv (sched_act Start w)"
    and "n \<ge> sc_threadCount (sw_sched w) \<Longrightarrow> pool_inv (sched_act (SetThreadCount n) w)"
proof -
  show "pool_inv (sched_act Start w)"
    using assms by (auto simp: pool_inv_def attended_def own_threads_def Scheduler_start_def new_threads_def Let_def ensure_def split: sum.splits)
  show "pool_inv (sched_act (SetThreadCount n) w)" if "n \<ge> sc_threadCount (sw_sched w)"
    using assms that
    by (auto simp: pool_inv_def attended_def own_threads_def Scheduler_setThreadCount_def resize_threads_def new_threads_def Let_def ensure_def
        split: sum.splits if_splits)
qed

lemma pool_inv_idle_return:
  assumes "own_threads s" "me < length (sw_thread w)" "sw_thread w ! me = Idling"
  shows "pool_inv (sched_act (IdleReturn me) (w\<lparr>sw_sched := s\<rparr>))"
  using assms attended_wake[of me w "Looping False" "idle_return s"] by (simp add: pool_inv_def idle_return_def own_threads_def)

lemma pool_inv_act:
  assumes inv: "pool_inv (pl_world p)" and "pool_allows a p"
  shows "pool_inv (pl_world (pool_act a p))"
proof (cases a)
  case (Pool b)
  have ok: "pool_allows (Pool b) p" using assms(2) Pool by simp
  have "pool_inv (sched_act b (pl_world p))"
  proof (cases b)
    case (Schedule inside x)
    then show ?thesis using inv ok attended_schedule(1)[of "pl_world p" inside x] by (simp add: pool_inv_def own_threads_schedule)
  next
    case (ScheduleAll inside ps)
    then show ?thesis using inv ok attended_schedule(2)[of "pl_world p" inside ps] by (simp add: pool_inv_def own_threads_schedule)
  next
    case (Stop inside)
    then show ?thesis using inv stop_tickles[of "sw_sched (pl_world p)" inside] by (auto simp: pool_inv_def attended_def stop_keeps)
  qed (use inv ok pool_inv_threads[OF inv] pool_inv_work[OF inv] in auto)
  then show ?thesis using Pool by simp
next
  case (PoolTurn me exec)
  then show ?thesis using pool_inv_turn[OF inv] assms(2) by simp
next
  case (PoolIdle me)
  have "own_threads (sw_sched (pl_world p))" using inv by (simp add: pool_inv_def)
  then show ?thesis
    using PoolIdle assms pool_inv_idle_return[of _ me "pl_world p"] pool_inv_idle_return[of "sw_sched (pl_world p)" me "pl_world p"]
    by (auto simp: WorkerPool_idle_def WorkerPool_idle_wait_def semaphore_wait_def own_threads_def simp del: sched_act.simps split: option.splits)
qed

lemma pool_reach_inv: "pool_reach p \<Longrightarrow> pool_inv (pl_world p)"
proof (induction rule: pool_reach.induct)
  case (pool_init threads batchSize p)
  then show ?case
    by (auto simp: WorkerPool_new_def Scheduler_new_def sched_start_def pool_inv_def attended_def own_threads_def Scheduler_start_def new_threads_def
        ensure_def Let_def split: if_splits)
next
  case (pool_step p a)
  then show ?case by (blast intro: pool_inv_act)
qed

section \<open>Properties\<close>


definition pool_demo :: "pool_action list" where
  "pool_demo = [PoolTurn 0 (\<lambda>_. False), PoolIdle 0, Pool (Schedule False (DgWork 7, None))]"

interpretation pool_runs: guarded_actions pool_allows pool_act pool_reach
  by unfold_locales (rule pool_step)

lemmas pool_simps = WorkerPool_new_def Scheduler_new_def WorkerPool_idle_def WorkerPool_idle_wait_def semaphore_wait_def idle_return_def
  Scheduler_setThreadCount_def resize_threads_def leave_pool_def demo_simps


text \<open>
  Lowering the number of threads can strand work: two threads wait, one is to leave, work is scheduled and its tickle wakes the one
  that leaves, which passes the tickle on only if there are still too many threads. Nobody is left to run the work,
  and since the queue is not empty scheduling more does not help.
\<close>

definition shrink_run :: "pool_action list" where
  "shrink_run =
     [PoolTurn 0 (\<lambda>_. False), PoolIdle 0, PoolTurn 1 (\<lambda>_. False), PoolIdle 1, Pool (SetThreadCount 1),
      Pool (Schedule False (DgWork 7, None)), PoolIdle 0, PoolTurn 0 (\<lambda>_. False), Pool (Schedule False (DgWork 8, None))]"

lemma pool_shrink_strands_work:
  "case WorkerPool_new 2 None 1 of
     Inl e \<Rightarrow> False
   | Inr p \<Rightarrow>
       let q = fold pool_act shrink_run p
       in sc_fibers (sw_sched (pl_world q)) = [(DgWork 7, None), (DgWork 8, None)] \<and>
          sw_thread (pl_world q) = [Exited, Idling] \<and> \<not> runnable q 0 \<and> \<not> runnable q 1"
  by code_simp

end
