(* ===== verification/Http_Quote.thy ===== *)
theory Http_Quote
  imports Strings
begin

text \<open>
  The quoting of strings and comments in HTTP headers: \<open>quote\<close> of http/http.cpp and \<open>unquote\<close> of
  http/http_parser.rl. A comment may hold parentheses as long as they match; \<open>quote\<close> escapes those that do not.
\<close>

section \<open>Model\<close>

abbreviation backslash :: byte where "backslash \<equiv> CHR 0x5C"

abbreviation dquote :: byte where "dquote \<equiv> CHR 0x22"

definition token_chars :: "byte list" where
  "token_chars = ''!#$%&'' @ [CHR 0x27] @ ''*+-.0123456789ABCDEFGHIJKLMNOPQRSTUVWXYZ^_'' @ [CHR 0x60] @ ''abcdefghijklmnopqrstuvwxyz|~''"

text \<open>The characters that are escaped, for a comment and for a quoted string.\<close>

definition escaped_chars :: "bool \<Rightarrow> byte list" where
  "escaped_chars comment =
     map char_of ([0..<9] @ [11, 12] @ [14..<32] @ [127 :: nat]) @ [backslash] @ (if comment then ''()'' else [dquote])"

text \<open>The loop: \<open>lastEscape\<close> stands at the beginning of the string that is left.\<close>

function quote_loop :: "bool \<Rightarrow> nat \<Rightarrow> nat \<Rightarrow> byte list \<Rightarrow> byte list result" where
  "quote_loop comment leftParens rightParens str =
     (let pre = takeWhile (\<lambda>c. c \<notin> set (escaped_chars comment)) str
      in case dropWhile (\<lambda>c. c \<notin> set (escaped_chars comment)) str of
           [] \<Rightarrow> Inr str
         | c # rest \<Rightarrow>
             if c = CHR ''('' \<and> rightParens > 0 then
               andThen (quote_loop comment (leftParens + 1) (rightParens - 1) rest) (\<lambda>r. Inr (pre @ [c] @ r))
             else if c = CHR '')'' \<and> leftParens > 0 then
               andThen (quote_loop comment (leftParens - 1) rightParens rest) (\<lambda>r. Inr (pre @ [c] @ r))
             else
               ensure (c = CHR '')'' \<longrightarrow> rightParens > 0)
                 (andThen (quote_loop comment leftParens (if c = CHR '')'' then rightParens - 1 else rightParens) rest)
                    (\<lambda>r. Inr (pre @ [backslash, c] @ r))))"
  by pat_completeness auto
termination
proof (relation "measure (\<lambda>(_, _, _, str). length str)", goal_cases)
  case (2 comment leftParens rightParens str pre c rest)
  then show ?case using length_dropWhile_le[of "\<lambda>c. c \<notin> set (escaped_chars comment)" str] by simp
next
  case (3 comment leftParens rightParens str pre c rest)
  then show ?case using length_dropWhile_le[of "\<lambda>c. c \<notin> set (escaped_chars comment)" str] by simp
next
  case (4 comment leftParens rightParens str pre c rest)
  then show ?case using length_dropWhile_le[of "\<lambda>c. c \<notin> set (escaped_chars comment)" str] by simp
qed simp

declare quote_loop.simps [simp del]

definition quote :: "byte list \<Rightarrow> bool \<Rightarrow> bool \<Rightarrow> byte list result" where
  "quote str alwaysQuote comment =
     (let always = (comment \<or> alwaysQuote)
      in if str = [] then Inr (if comment then ''()'' else [dquote, dquote])
         else if \<not> always \<and> (\<forall>c \<in> set str. c \<in> set token_chars) then Inr str
         else andThen (quote_loop comment 0 (if comment then length (filter (\<lambda>c. c = CHR '')'') str) else 0) str)
                (\<lambda>r. Inr ([if comment then CHR ''('' else dquote] @ r @ [if comment then CHR '')'' else dquote])))"

fun unquote_loop :: "bool \<Rightarrow> byte list \<Rightarrow> byte list" where
  "unquote_loop escaping [] = []"
| "unquote_loop escaping (c # cs) =
     (if \<not> escaping \<and> c = backslash then unquote_loop True cs else c # unquote_loop False cs)"

text \<open>For a single quotation mark the length of the result is computed as \<open>size - 2\<close> below zero.\<close>

definition unquote :: "byte list \<Rightarrow> byte list result" where
  "unquote str =
     (if str = [] \<or> (hd str \<noteq> dquote \<and> hd str \<noteq> CHR ''('') then Inr str
      else ensure ((last str = dquote \<and> hd str = dquote) \<or> (last str = CHR '')'' \<and> hd str = CHR ''(''))
             (if length str < 2 then Inl LengthError else Inr (unquote_loop False (butlast (tl str)))))"

section \<open>Reading a quoted string in a longer text\<close>

text \<open>
  A reader that has seen the opening delimiter and looks for the closing one: a backslash takes the next character with it, and in
  a comment parentheses nest. It returns what follows.
\<close>

fun scan_quoted :: "bool \<Rightarrow> nat \<Rightarrow> byte list \<Rightarrow> byte list option" where
  "scan_quoted comment depth [] = None"
| "scan_quoted comment depth [c] =
     (if depth = 0 \<and> c = (if comment then CHR '')'' else dquote) then Some [] else None)"
| "scan_quoted comment depth (c # d # rest) =
     (if c = backslash then scan_quoted comment depth rest
      else if comment \<and> c = CHR ''('' then scan_quoted comment (depth + 1) (d # rest)
      else if comment \<and> c = CHR '')'' \<and> depth > 0 then scan_quoted comment (depth - 1) (d # rest)
      else if c = (if comment then CHR '')'' else dquote) then Some (d # rest)
      else scan_quoted comment depth (d # rest))"

lemma escaped_charsD:
  "backslash \<in> set (escaped_chars comment)" "dquote \<in> set (escaped_chars False)"
  "CHR ''('' \<in> set (escaped_chars True)" "CHR '')'' \<in> set (escaped_chars True)"
  "CHR ''('' \<notin> set (escaped_chars False)" "CHR '')'' \<notin> set (escaped_chars False)"
  by (simp add: escaped_chars_def) code_simp+

definition closer :: "bool \<Rightarrow> byte" where
  "closer comment = (if comment then CHR '')'' else dquote)"

lemma closer_escaped: "closer comment \<in> set (escaped_chars comment)" "closer comment \<noteq> backslash"
  using escaped_charsD by (cases comment; simp add: closer_def)+

lemma scan_quoted_Cons:
  "ys \<noteq> [] \<Longrightarrow> scan_quoted comment depth (c # ys) =
     (if c = backslash then scan_quoted comment depth (tl ys)
      else if comment \<and> c = CHR ''('' then scan_quoted comment (depth + 1) ys
      else if comment \<and> c = CHR '')'' \<and> depth > 0 then scan_quoted comment (depth - 1) ys
      else if c = closer comment then Some ys
      else scan_quoted comment depth ys)"
  by (cases ys) (auto simp: closer_def)

lemma scan_quoted_closer: "scan_quoted comment 0 (closer comment # more) = Some more"
  by (cases more) (auto simp: closer_def)

lemma plain_not_special:
  assumes "c \<notin> set (escaped_chars comment)"
  shows "c \<noteq> backslash" "comment \<Longrightarrow> c \<noteq> CHR ''(''" "comment \<Longrightarrow> c \<noteq> CHR '')''" "c \<noteq> closer comment"
  using assms escaped_charsD closer_escaped by metis+

lemma scan_quoted_plain:
  "(\<forall>c \<in> set pre. c \<notin> set (escaped_chars comment)) \<Longrightarrow> ys \<noteq> [] \<Longrightarrow> scan_quoted comment depth (pre @ ys) = scan_quoted comment depth ys"
proof (induction pre)
  case (Cons c pre)
  then show ?case using plain_not_special[of c comment] by (cases comment) (simp_all add: scan_quoted_Cons)
qed simp

lemma unquote_loop_plain:
  "(\<forall>c \<in> set pre. c \<notin> set (escaped_chars comment)) \<Longrightarrow> unquote_loop False (pre @ ys) = pre @ unquote_loop False ys"
proof (induction pre)
  case (Cons c pre)
  then show ?case using plain_not_special(1)[of c comment] by simp
qed simp

definition parens :: "byte list \<Rightarrow> nat" where
  "parens s = length (filter (\<lambda>c. c = CHR '')'') s)"

lemma parens_plain: "\<forall>c \<in> set pre. c \<notin> set (escaped_chars True) \<Longrightarrow> parens pre = 0"
  using escaped_charsD(4) by (auto simp: parens_def filter_empty_conv)

text \<open>
  What the loop keeps: the right parentheses that are left are those that match one let through and those that do not.
\<close>

lemma quote_loop_ok:
  assumes "if comment then parens str = l + r else l = 0 \<and> r = 0"
  shows "\<exists>out. quote_loop comment l r str = Inr out \<and> unquote_loop False out = str \<and>
    (\<forall>more. scan_quoted comment l (out @ closer comment # more) = Some more)"
  using assms
proof (induction comment l r str rule: quote_loop.induct)
  case (1 comment l r str)
  let ?plain = "\<lambda>c. c \<notin> set (escaped_chars comment)"
  define pre where "pre = takeWhile ?plain str"
  have up: "\<forall>c \<in> set pre. ?plain c" by (auto simp: pre_def dest: set_takeWhileD)
  show ?case
  proof (cases "dropWhile ?plain str")
    case Nil
    then have "pre = str" unfolding pre_def by (metis append_Nil2 takeWhile_dropWhile_id)
    then have "unquote_loop False str = str" "parens str = 0 \<or> \<not> comment" "scan_quoted comment l (str @ closer comment # more) = scan_quoted comment l (closer comment # more)" for more
      using up unquote_loop_plain[OF up, of "[]"] scan_quoted_plain[OF up] parens_plain[of str] by (cases comment; auto)+
    moreover have "quote_loop comment l r str = Inr str" by (subst quote_loop.simps) (simp add: Nil)
    ultimately show ?thesis using 1(4) scan_quoted_closer by (auto split: if_splits)
  next
    case (Cons c rest)
    have str: "str = pre @ c # rest" unfolding pre_def by (metis Cons takeWhile_dropWhile_id)
    have esc: "c \<in> set (escaped_chars comment)" using Cons by (metis dropWhile_eq_Cons_conv)
    have pr: "comment \<Longrightarrow> parens str = parens rest + (if c = CHR '')'' then 1 else 0)"
      using parens_plain[of pre] up by (simp add: str parens_def)
    have body: "scan_quoted comment l (pre @ x # ys) = scan_quoted comment l (x # ys)" "unquote_loop False (pre @ ys) = pre @ unquote_loop False ys" for x ys
      using scan_quoted_plain[OF up] unquote_loop_plain[OF up] by auto
    have step: "quote_loop comment l r str =
        (if c = CHR ''('' \<and> r > 0 then andThen (quote_loop comment (l + 1) (r - 1) rest) (\<lambda>r. Inr (pre @ [c] @ r))
         else if c = CHR '')'' \<and> l > 0 then andThen (quote_loop comment (l - 1) r rest) (\<lambda>r. Inr (pre @ [c] @ r))
         else ensure (c = CHR '')'' \<longrightarrow> r > 0)
           (andThen (quote_loop comment l (if c = CHR '')'' then r - 1 else r) rest) (\<lambda>r. Inr (pre @ [backslash, c] @ r))))"
      by (subst quote_loop.simps) (simp add: Cons Let_def pre_def)
    consider (opens) "c = CHR ''('' \<and> r > 0" | (closes) "\<not> (c = CHR ''('' \<and> r > 0)" "c = CHR '')'' \<and> l > 0"
      | (escapes) "\<not> (c = CHR ''('' \<and> r > 0)" "\<not> (c = CHR '')'' \<and> l > 0)" by blast
    then show ?thesis
    proof cases
      case opens
      then have com: "comment" using 1(4) by (auto split: if_splits)
      obtain out where "quote_loop comment (l + 1) (r - 1) rest = Inr out" "unquote_loop False out = rest"
          "\<forall>more. scan_quoted comment (l + 1) (out @ closer comment # more) = Some more"
        using 1(1)[OF refl Cons opens] 1(4) opens pr com by auto
      then show ?thesis using opens com up unfolding step by (auto simp: body scan_quoted_plain scan_quoted_Cons str)
    next
      case closes
      then have com: "comment" using 1(4) by (auto split: if_splits)
      then have left: "parens rest = (l - 1) + r" using 1(4) closes pr by auto
      obtain out where "quote_loop comment (l - 1) r rest = Inr out" "unquote_loop False out = rest"
          "\<forall>more. scan_quoted comment (l - 1) (out @ closer comment # more) = Some more"
        using 1(2)[OF refl Cons closes] left com by auto
      then show ?thesis using closes com up unfolding step by (auto simp: body scan_quoted_plain scan_quoted_Cons str)
    next
      case escapes
      have bound: "c = CHR '')'' \<longrightarrow> r > 0" using 1(4) escapes pr escaped_charsD(6) esc by (cases comment) auto
      have left: "if comment then parens rest = l + (if c = CHR '')'' then r - 1 else r) else l = 0 \<and> (if c = CHR '')'' then r - 1 else r) = 0"
        using 1(4) escapes pr bound by (cases comment; cases "c = CHR '')''") auto
      obtain out where "quote_loop comment l (if c = CHR '')'' then r - 1 else r) rest = Inr out" "unquote_loop False out = rest"
          "\<forall>more. scan_quoted comment l (out @ closer comment # more) = Some more"
        using 1(3)[OF refl Cons escapes left] by blast
      then show ?thesis using escapes bound up unfolding step by (auto simp: body scan_quoted_plain scan_quoted_Cons str)
    qed
  qed
qed

section \<open>Properties\<close>

text \<open>
  C19. \<open>quote\<close> always succeeds, for quoted strings and for comments, and \<open>unquote\<close> gives back the string. A reader that
  meets a quoted string or a comment in a longer text finds its end where it is: quotation marks inside are escaped, and the
  parentheses of a comment that are not escaped match.
\<close>

theorem quote_roundtrip:
  "\<exists>q. quote str alwaysQuote comment = Inr q \<and> unquote q = Inr str \<and>
     (alwaysQuote \<or> comment \<longrightarrow> (\<forall>more. scan_quoted comment 0 (tl q @ more) = Some more))"
proof -
  have token: "dquote \<notin> set token_chars" "CHR ''('' \<notin> set token_chars" by code_simp+
  consider (empty) "str = []" | (token) "str \<noteq> []" "\<not> (comment \<or> alwaysQuote) \<and> (\<forall>c \<in> set str. c \<in> set token_chars)"
    | (quoted) "str \<noteq> []" "\<not> (\<not> (comment \<or> alwaysQuote) \<and> (\<forall>c \<in> set str. c \<in> set token_chars))" by blast
  then show ?thesis
  proof cases
    case empty
    then show ?thesis using scan_quoted_closer[of comment] by (auto simp: quote_def unquote_def closer_def)
  next
    case token
    then have "hd str \<noteq> dquote" "hd str \<noteq> CHR ''(''" using \<open>dquote \<notin> _\<close> \<open>CHR ''('' \<notin> _\<close> hd_in_set[of str] by metis+
    then show ?thesis using token by (simp add: quote_def unquote_def)
  next
    case quoted
    obtain out where out: "quote_loop comment 0 (if comment then parens str else 0) str = Inr out" "unquote_loop False out = str"
        "\<forall>more. scan_quoted comment 0 (out @ closer comment # more) = Some more"
      using quote_loop_ok[of comment str 0 "if comment then parens str else 0"] by (cases comment) auto
    have "quote str alwaysQuote comment = Inr ((if comment then CHR ''('' else dquote) # out @ [closer comment])"
      using quoted out(1) by (cases comment) (auto simp: quote_def parens_def closer_def Let_def)
    then show ?thesis using out(2,3) by (auto simp: unquote_def closer_def)
  qed
qed

theorem quote_roundtrip_witness:
  "\<exists>q. quote ''a)(b'' False True = Inr q \<and> unquote q = Inr ''a)(b'' \<and> scan_quoted True 0 (tl q @ '';x'') = Some '';x''"
  using quote_roundtrip[of "''a)(b''" False True] by auto

text \<open>
  A line break goes through \<open>quote\<close> as it is, also where it does not continue a header line, and so can end
  the header it is part of.
\<close>

lemma quote_passes_newlines: "quote (''a'' @ [CHR 0x0D, CHR 0x0A] @ ''X: y'') True False = Inr ([dquote] @ ''a'' @ [CHR 0x0D, CHR 0x0A] @ ''X: y'' @ [dquote])"
  by code_simp

lemma unquote_lone_mark: "unquote [dquote] = Inl LengthError"
  by code_simp

end
