(* ===== verification/Http_Values.thy ===== *)
theory Http_Values
  imports Strings_Text Ordered_Set
begin

text \<open>
  Values of HTTP headers as http/http.h and http/http.cpp have them: versions, entity tags, and the negotiation of content with
  the quality values that a client sends.
\<close>

section \<open>Versions\<close>

record version =
  v_major :: nat
  v_minor :: nat

definition Version_unset :: version where
  "Version_unset = \<lparr>v_major = 255, v_minor = 255\<rparr>"

definition Version_lt :: "version \<Rightarrow> version \<Rightarrow> bool" where
  "Version_lt a b \<longleftrightarrow> (if v_major a < v_major b then True else v_minor a < v_minor b)"

definition Version_le :: "version \<Rightarrow> version \<Rightarrow> bool" where
  "Version_le a b \<longleftrightarrow> (if v_major a > v_major b then False else if v_major a < v_major b then True else v_minor a \<le> v_minor b)"

definition Version_gt :: "version \<Rightarrow> version \<Rightarrow> bool" where
  "Version_gt a b \<longleftrightarrow> (if v_major a > v_major b then True else v_minor a > v_minor b)"

definition Version_ge :: "version \<Rightarrow> version \<Rightarrow> bool" where
  "Version_ge a b \<longleftrightarrow> (if v_major a < v_major b then False else if v_major a > v_major b then True else v_minor a \<ge> v_minor b)"

lemma Version_le_total_order:
  "Version_le a a" "Version_le a b \<Longrightarrow> Version_le b c \<Longrightarrow> Version_le a c" "Version_le a b \<or> Version_le b a"
  "Version_ge a b = Version_le b a" "Version_le a b \<Longrightarrow> Version_le b a \<Longrightarrow> (v_major a, v_minor a) = (v_major b, v_minor b)"
  by (auto simp: Version_le_def Version_ge_def split: if_splits)

text \<open>The strict comparisons do not look at the major version when the first test fails: two versions can each be less than the other.\<close>

lemma Version_lt_not_asymmetric:
  "Version_lt \<lparr>v_major = 1, v_minor = 1\<rparr> \<lparr>v_major = 2, v_minor = 0\<rparr>" "Version_lt \<lparr>v_major = 2, v_minor = 0\<rparr> \<lparr>v_major = 1, v_minor = 1\<rparr>"
  "Version_gt \<lparr>v_major = 1, v_minor = 1\<rparr> \<lparr>v_major = 2, v_minor = 0\<rparr>"
  by (simp_all add: Version_lt_def Version_gt_def)

section \<open>Entity tags\<close>

record etag =
  et_weak :: bool
  et_unspecified :: bool
  et_value :: "byte list"

definition ETag_unset :: etag where
  "ETag_unset = \<lparr>et_weak = False, et_unspecified = True, et_value = []\<rparr>"

text \<open>\<open>std::string\<close> compares its characters as unsigned bytes.\<close>

definition string_lt :: "byte list \<Rightarrow> byte list \<Rightarrow> bool" where
  "string_lt a b \<longleftrightarrow> (map of_char a, map of_char b) \<in> lexord {(x, y :: nat). x < y}"

definition ETag_lt :: "etag \<Rightarrow> etag \<Rightarrow> bool" where
  "ETag_lt a b \<longleftrightarrow>
     (if et_unspecified a \<and> \<not> et_unspecified b then True
      else if \<not> et_unspecified a \<and> et_unspecified b then False
      else if et_weak a \<and> \<not> et_weak b then False
      else if \<not> et_weak a \<and> et_weak b then True
      else string_lt (et_value a) (et_value b))"

definition weakCompare :: "etag \<Rightarrow> etag \<Rightarrow> bool" where
  "weakCompare a b \<longleftrightarrow> et_unspecified a = et_unspecified b \<and> et_value a = et_value b"

definition strongCompare :: "etag \<Rightarrow> etag \<Rightarrow> bool" where
  "strongCompare a b \<longleftrightarrow> \<not> et_weak a \<and> \<not> et_weak b \<and> et_unspecified a = et_unspecified b \<and> et_value a = et_value b"

text \<open>The order of \<open>std::set<ETag>\<close>.\<close>

lemma string_lt_order:
  "\<not> string_lt a a" "string_lt a b \<Longrightarrow> string_lt b c \<Longrightarrow> string_lt a c" "a = b \<or> string_lt a b \<or> string_lt b a"
proof -
  have inj: "inj (of_char :: byte \<Rightarrow> nat)" by (rule inj_of_char)
  show "\<not> string_lt a a" by (simp add: string_lt_def lexord_irreflexive)
  show "string_lt a b \<Longrightarrow> string_lt b c \<Longrightarrow> string_lt a c"
    unfolding string_lt_def by (rule lexord_trans) (auto simp: trans_def)
  have "\<forall>a b :: nat. (a, b) \<in> {(x, y). x < y} \<or> a = b \<or> (b, a) \<in> {(x, y). x < y}" by auto
  from lexord_linear[OF this, of "map of_char a" "map of_char b"]
  show "a = b \<or> string_lt a b \<or> string_lt b a" using inj_map_eq_map[OF inj, of a b] by (auto simp: string_lt_def)
qed

interpretation etags: set_order ETag_lt
proof
  fix x y z :: etag
  show "\<not> ETag_lt x x" by (simp add: ETag_lt_def string_lt_order)
  show "ETag_lt x y \<Longrightarrow> ETag_lt y z \<Longrightarrow> ETag_lt x z"
    using string_lt_order(2)[of "et_value x" "et_value y" "et_value z"] by (auto simp: ETag_lt_def split: if_splits)
  show "x = y \<or> ETag_lt x y \<or> ETag_lt y x"
    using string_lt_order(3)[of "et_value x" "et_value y"] by (cases x; cases y) (auto simp: ETag_lt_def)
qed

section \<open>Content negotiation\<close>

text \<open>
  The templates \<open>isAcceptable\<close> and \<open>preferred\<close> compare list entries with \<open>operator ==\<close> and look at their
  quality value; both are parameters here. A quality value counts thousandths; the value for "not given" is \<open>~0u\<close>.
\<close>

definition qvalue_unset :: nat where
  "qvalue_unset = 2 ^ 32 - 1"

fun isAcceptable :: "('v \<Rightarrow> 'v \<Rightarrow> bool) \<Rightarrow> ('v \<Rightarrow> nat) \<Rightarrow> 'v list \<Rightarrow> 'v \<Rightarrow> bool \<Rightarrow> bool" where
  "isAcceptable eq qv [] value defaultMissing = defaultMissing"
| "isAcceptable eq qv (x # xs) value defaultMissing =
     (if eq x value then qv x > 0 else isAcceptable eq qv xs value defaultMissing)"

text \<open>A quality value that is not given counts as 1000.\<close>

definition client_q :: "('v \<Rightarrow> nat) \<Rightarrow> 'v \<Rightarrow> nat" where
  "client_q qv x = min (qv x) 1000"

text \<open>One round of the loop over a group of available values that the server likes equally.\<close>

fun client_pick :: "('v \<Rightarrow> 'v \<Rightarrow> bool) \<Rightarrow> ('v \<Rightarrow> nat) \<Rightarrow> 'v list \<Rightarrow> 'v \<Rightarrow> 'v option \<Rightarrow> 'v option" where
  "client_pick eq qv [] a res = res"
| "client_pick eq qv (x # xs) a res =
     (if eq x a \<and> qv x > 0
      then (case res of None \<Rightarrow> Some x | Some r \<Rightarrow> if client_q qv x > client_q qv r then Some x else res)
      else client_pick eq qv xs a res)"

definition pick_group :: "('v \<Rightarrow> 'v \<Rightarrow> bool) \<Rightarrow> ('v \<Rightarrow> nat) \<Rightarrow> 'v list \<Rightarrow> 'v list \<Rightarrow> 'v option" where
  "pick_group eq qv accept avail = fold (client_pick eq qv accept) avail None"

function preferred_loop :: "('v \<Rightarrow> 'v \<Rightarrow> bool) \<Rightarrow> ('v \<Rightarrow> nat) \<Rightarrow> 'v list \<Rightarrow> 'v list \<Rightarrow> 'v option" where
  "preferred_loop eq qv accept [] = None"
| "preferred_loop eq qv accept (a # as) =
     (case pick_group eq qv accept (a # takeWhile (\<lambda>b. qv b = qv a) as) of
        Some r \<Rightarrow> Some r
      | None \<Rightarrow> preferred_loop eq qv accept (dropWhile (\<lambda>b. qv b = qv a) as))"
  by pat_completeness auto
termination
  by (relation "measure (\<lambda>(_, _, _, as). length as)") (auto simp: le_imp_less_Suc length_dropWhile_le)

text \<open>The assertions that the list is not empty and, in a debug build, ordered.\<close>

definition preferred :: "bool \<Rightarrow> ('v \<Rightarrow> 'v \<Rightarrow> bool) \<Rightarrow> ('v \<Rightarrow> nat) \<Rightarrow> 'v list \<Rightarrow> 'v list \<Rightarrow> 'v option result" where
  "preferred dbg eq qv accept available =
     ensure (available \<noteq> [])
       (ensure (dbg \<longrightarrow> (\<forall>a \<in> set available. qv a \<le> 1000) \<and> successively (\<lambda>a b. qv a \<ge> qv b) available)
         (Inr (preferred_loop eq qv accept available)))"

text \<open>The two instances.\<close>

record accept_value =
  av_value :: "byte list"
  av_qvalue :: nat

definition AcceptValue_eq :: "accept_value \<Rightarrow> accept_value \<Rightarrow> bool" where
  "AcceptValue_eq a b \<longleftrightarrow> stricmp_loop (c_str (av_value a)) (c_str (av_value b)) = 0"

text \<open>The parameters, a map from names to values, as the list of its entries in their order.\<close>

record accept_value_params = accept_value +
  av_parameters :: "(byte list \<times> byte list) list"
  av_acceptParams :: "(byte list \<times> byte list) list"

definition AcceptValueWithParameters_eq :: "accept_value_params \<Rightarrow> accept_value_params \<Rightarrow> bool" where
  "AcceptValueWithParameters_eq a b \<longleftrightarrow>
     stricmp_loop (c_str (av_value a)) (c_str (av_value b)) = 0 \<and> av_parameters a = av_parameters b"

section \<open>What is chosen\<close>

text \<open>The entry of the client's list that accepts a value.\<close>

definition wanted :: "('v \<Rightarrow> 'v \<Rightarrow> bool) \<Rightarrow> ('v \<Rightarrow> nat) \<Rightarrow> 'v list \<Rightarrow> 'v \<Rightarrow> 'v option" where
  "wanted eq qv accept a = find (\<lambda>x. eq x a \<and> qv x > 0) accept"

lemma client_pick_wanted:
  "client_pick eq qv accept a res =
     (case wanted eq qv accept a of
        None \<Rightarrow> res
      | Some x \<Rightarrow> (case res of None \<Rightarrow> Some x | Some r \<Rightarrow> if client_q qv x > client_q qv r then Some x else res))"
  by (induction accept) (auto simp: wanted_def)

lemma pick_fold:
  assumes "fold (client_pick eq qv accept) gs res = res'"
  shows "(res' = None \<longleftrightarrow> res = None \<and> (\<forall>a \<in> set gs. wanted eq qv accept a = None)) \<and>
    (\<forall>r'. res' = Some r' \<longrightarrow> (res = Some r' \<or> (\<exists>a \<in> set gs. wanted eq qv accept a = Some r')) \<and>
       (\<forall>r. res = Some r \<longrightarrow> client_q qv r \<le> client_q qv r') \<and>
       (\<forall>a \<in> set gs. \<forall>x. wanted eq qv accept a = Some x \<longrightarrow> client_q qv x \<le> client_q qv r'))"
  using assms
proof (induction gs arbitrary: res)
  case (Cons a gs)
  let ?r1 = "client_pick eq qv accept a res"
  have IH: "(res' = None \<longleftrightarrow> ?r1 = None \<and> (\<forall>a \<in> set gs. wanted eq qv accept a = None)) \<and>
    (\<forall>r'. res' = Some r' \<longrightarrow> (?r1 = Some r' \<or> (\<exists>a \<in> set gs. wanted eq qv accept a = Some r')) \<and>
       (\<forall>r. ?r1 = Some r \<longrightarrow> client_q qv r \<le> client_q qv r') \<and>
       (\<forall>a \<in> set gs. \<forall>x. wanted eq qv accept a = Some x \<longrightarrow> client_q qv x \<le> client_q qv r'))"
    by (rule Cons.IH) (use Cons.prems in simp)
  show ?case
  proof (cases "wanted eq qv accept a")
    case None
    then show ?thesis using IH by (simp add: client_pick_wanted)
  next
    case (Some x)
    show ?thesis
    proof (cases res)
      case None
      then show ?thesis using IH Some by (auto simp: client_pick_wanted)
    next
      case r: (Some r)
      show ?thesis
      proof (cases "client_q qv x > client_q qv r")
        case True
        then have "?r1 = Some x" using Some r by (simp add: client_pick_wanted)
        then show ?thesis using IH Some r True by auto
      next
        case False
        then have "?r1 = Some r" using Some r by (simp add: client_pick_wanted)
        then show ?thesis using IH Some r False by auto
      qed
    qed
  qed
qed auto

definition best_of :: "('v \<Rightarrow> 'v \<Rightarrow> bool) \<Rightarrow> ('v \<Rightarrow> nat) \<Rightarrow> 'v list \<Rightarrow> 'v set \<Rightarrow> 'v option \<Rightarrow> bool" where
  "best_of eq qv accept S res \<longleftrightarrow>
     (case res of
        None \<Rightarrow> \<forall>a \<in> S. wanted eq qv accept a = None
      | Some r \<Rightarrow> \<exists>a \<in> S. wanted eq qv accept a = Some r \<and>
          (\<forall>b \<in> S. \<forall>x. wanted eq qv accept b = Some x \<longrightarrow> qv b < qv a \<or> qv b = qv a \<and> client_q qv x \<le> client_q qv r))"

lemma best_of_skip:
  assumes "\<forall>b \<in> G. wanted eq qv accept b = None" "best_of eq qv accept R res"
  shows "best_of eq qv accept (G \<union> R) res"
proof (cases res)
  case (Some r)
  then obtain a where "a \<in> R" "wanted eq qv accept a = Some r"
      "\<forall>b \<in> R. \<forall>x. wanted eq qv accept b = Some x \<longrightarrow> qv b < qv a \<or> qv b = qv a \<and> client_q qv x \<le> client_q qv r"
    using assms(2) by (auto simp: best_of_def)
  then show ?thesis using assms(1) Some by (auto simp: best_of_def intro!: bexI[of _ a])
qed (use assms in \<open>auto simp: best_of_def\<close>)

lemma best_of_first:
  assumes "g \<in> G" "wanted eq qv accept g = Some r" "\<forall>b \<in> G. qv b = qv g" "\<forall>b \<in> R. qv b < qv g"
    and "\<forall>b \<in> G. \<forall>x. wanted eq qv accept b = Some x \<longrightarrow> client_q qv x \<le> client_q qv r"
  shows "best_of eq qv accept (G \<union> R) (Some r)"
  unfolding best_of_def option.case
proof (intro bexI[of _ g] conjI ballI allI impI)
  fix b x
  assume "b \<in> G \<union> R" "wanted eq qv accept b = Some x"
  then show "qv b < qv g \<or> qv b = qv g \<and> client_q qv x \<le> client_q qv r" using assms(3-5) by blast
qed (use assms(1,2) in auto)

lemma preferred_loop_best:
  assumes "sorted_wrt (\<lambda>a b. qv a \<ge> qv b) available"
  shows "best_of eq qv accept (set available) (preferred_loop eq qv accept available)"
  using assms
proof (induction eq qv accept available rule: preferred_loop.induct)
  case (2 eq qv accept a as)
  let ?same = "\<lambda>b. qv b = qv a"
  let ?group = "a # takeWhile ?same as"
  define rest where "rest = dropWhile ?same as"
  have as: "set (a # as) = set ?group \<union> set rest" unfolding rest_def by (metis append_Cons set_append takeWhile_dropWhile_id)
  have same: "qv b = qv a" if "b \<in> set ?group" for b using that by (auto dest: set_takeWhileD)
  have srt: "sorted_wrt (\<lambda>a b. qv a \<ge> qv b) rest" using 2(2) unfolding rest_def by (simp add: sorted_wrt_dropWhile)
  have less: "qv b < qv a" if b: "b \<in> set rest" for b
  proof -
    obtain c cs where rest: "rest = c # cs" using b by (cases rest) auto
    then have "qv c \<noteq> qv a" unfolding rest_def by (auto simp: dropWhile_eq_Cons_conv)
    moreover have "c \<in> set as" using rest set_dropWhileD[of c ?same as] by (simp add: rest_def)
    ultimately have "qv c < qv a" using 2(2) by fastforce
    moreover have "qv b \<le> qv c" using b srt rest by auto
    ultimately show ?thesis by simp
  qed
  note pick = pick_fold[OF refl, of eq qv accept ?group None, folded pick_group_def]
  show ?case
  proof (cases "pick_group eq qv accept ?group")
    case None
    then have none: "\<forall>b \<in> set ?group. wanted eq qv accept b = None" using pick by simp
    have "preferred_loop eq qv accept (a # as) = preferred_loop eq qv accept rest" using None by (simp add: rest_def)
    then show ?thesis unfolding as using best_of_skip[OF none 2(1)[OF None, folded rest_def, OF srt]] by simp
  next
    case (Some r)
    then obtain g where g: "g \<in> set ?group" "wanted eq qv accept g = Some r"
        "\<forall>b \<in> set ?group. \<forall>x. wanted eq qv accept b = Some x \<longrightarrow> client_q qv x \<le> client_q qv r"
      using pick by auto
    have "\<forall>b \<in> set rest. qv b < qv g" unfolding same[OF g(1)] using less by blast
    moreover have "\<forall>b \<in> set ?group. qv b = qv g" unfolding same[OF g(1)] using same by blast
    moreover have "preferred_loop eq qv accept (a # as) = Some r" using Some by simp
    ultimately show ?thesis unfolding as using best_of_first[OF g(1,2) _ _ g(3)] by metis
  qed
qed (simp add: best_of_def)

section \<open>Quality values as text\<close>

text \<open>The digits after \<open>;q=0\<close>, and what the parser makes of the text from the first digit on.\<close>

definition digit :: "nat \<Rightarrow> byte" where
  "digit n = char_of (48 + n)"

function qvalue_digits :: "nat \<Rightarrow> nat \<Rightarrow> byte list result" where
  "qvalue_digits curPlace qvalue =
     (if curPlace > 0 \<and> qvalue > 0 then
        let cur = qvalue div curPlace
        in ensure (cur < 10)
             (andThen (qvalue_digits (curPlace div 10) (qvalue - cur * curPlace)) (\<lambda>r.
                Inr ((if curPlace = 100 then ''.'' else []) @ digit cur # r)))
      else Inr [])"
  by pat_completeness auto
termination by (relation "measure fst") auto

declare qvalue_digits.simps [simp del]

definition print_qvalue :: "nat \<Rightarrow> byte list result" where
  "print_qvalue qvalue =
     (if qvalue = qvalue_unset then Inr []
      else ensure (qvalue \<le> 1000)
        (if qvalue = 1000 then Inr '';q=1'' else andThen (qvalue_digits 100 qvalue) (\<lambda>r. Inr ('';q=0'' @ r))))"

fun save_qvalue_loop :: "nat \<Rightarrow> nat \<Rightarrow> byte list \<Rightarrow> nat \<Rightarrow> nat" where
  "save_qvalue_loop i curPlace [] qvalue = qvalue"
| "save_qvalue_loop i curPlace (c # cs) qvalue =
     (if i \<ge> 5 then qvalue
      else if i = 1 then save_qvalue_loop (i + 1) curPlace cs qvalue
      else save_qvalue_loop (i + 1) (curPlace div 10) cs (qvalue + (of_char c - 48) * curPlace))"

definition save_qvalue :: "byte list \<Rightarrow> nat" where
  "save_qvalue text = save_qvalue_loop 0 1000 text 0"

lemma qvalue_roundtrip_small:
  assumes "h < 10" "t < 10" "u < 10"
  shows "\<exists>r. qvalue_digits 100 (100 * h + 10 * t + u) = Inr r \<and> save_qvalue (''0'' @ r) = 100 * h + 10 * t + u"
proof -
  have d: "of_char (digit n) - (48 :: nat) = n" if "n < 10" for n using that by (simp add: digit_def)
  have u: "qvalue_digits (Suc 0) u = Inr (if u = 0 then [] else [digit u])"
    using assms(3) by (simp add: qvalue_digits.simps[of "Suc 0"] qvalue_digits.simps[of 0])
  have "(10 * t + u) div 10 = t" "10 * t + u - t * 10 = u" using assms by auto
  then have t: "qvalue_digits 10 (10 * t + u) = Inr (if t = 0 \<and> u = 0 then [] else digit t # (if u = 0 then [] else [digit u]))"
    using assms u by (simp add: qvalue_digits.simps[of 10])
  have "(100 * h + 10 * t + u) div 100 = h" "100 * h + 10 * t + u - h * 100 = 10 * t + u" using assms by auto
  then have h: "qvalue_digits 100 (100 * h + 10 * t + u) =
      Inr (if h = 0 \<and> t = 0 \<and> u = 0 then [] else CHR ''.'' # digit h # (if t = 0 \<and> u = 0 then [] else digit t # (if u = 0 then [] else [digit u])))"
    using assms t by (simp add: qvalue_digits.simps[of 100])
  then show ?thesis using d assms by (auto simp: save_qvalue_def)
qed

section \<open>Properties\<close>

text \<open>
  C33. \<open>preferred\<close>, with the server's list in the order the code asserts, returns nothing exactly if the client accepts none of
  the available values. Otherwise it returns the client's entry for a value that no other acceptable
  value beats: none stands higher with the server, and of those the server likes equally none has a higher quality value
  with the client. In particular the assertions of a debug build hold.
\<close>

theorem preferred_is_best:
  assumes "available \<noteq> []" "sorted_wrt (\<lambda>a b. qv a \<ge> qv b) available" "\<forall>a \<in> set available. qv a \<le> 1000"
  shows "\<exists>res. preferred dbg eq qv accept available = Inr res \<and>
    (case res of
       None \<Rightarrow> \<forall>a \<in> set available. wanted eq qv accept a = None
     | Some r \<Rightarrow> \<exists>a \<in> set available. wanted eq qv accept a = Some r \<and>
         (\<forall>b \<in> set available. \<forall>x. wanted eq qv accept b = Some x \<longrightarrow>
            qv b < qv a \<or> qv b = qv a \<and> client_q qv x \<le> client_q qv r))"
proof -
  have "successively (\<lambda>a b. qv a \<ge> qv b) available"
    using assms(2) by (subst successively_conv_sorted_wrt) (auto simp: transp_def)
  then show ?thesis using preferred_loop_best[OF assms(2), of eq accept] assms by (simp add: preferred_def best_of_def)
qed

definition gzip_av :: "nat \<Rightarrow> accept_value" where
  "gzip_av q = \<lparr>av_value = ''gzip'', av_qvalue = q\<rparr>"

theorem preferred_is_best_witness:
  "\<exists>res. preferred True AcceptValue_eq av_qvalue [\<lparr>av_value = ''GZIP'', av_qvalue = 700\<rparr>, \<lparr>av_value = ''deflate'', av_qvalue = 0\<rparr>]
      [\<lparr>av_value = ''deflate'', av_qvalue = 1000\<rparr>, gzip_av 500] = Inr res \<and> res = Some \<lparr>av_value = ''GZIP'', av_qvalue = 700\<rparr>"
proof -
  let ?accept = "[\<lparr>av_value = ''GZIP'', av_qvalue = 700\<rparr>, \<lparr>av_value = ''deflate'', av_qvalue = 0\<rparr>]"
  let ?avail = "[\<lparr>av_value = ''deflate'', av_qvalue = 1000\<rparr>, gzip_av 500]"
  have w: "wanted AcceptValue_eq av_qvalue ?accept \<lparr>av_value = ''deflate'', av_qvalue = 1000\<rparr> = None"
    "wanted AcceptValue_eq av_qvalue ?accept (gzip_av 500) = Some \<lparr>av_value = ''GZIP'', av_qvalue = 700\<rparr>" by code_simp+
  have "?avail \<noteq> []" "sorted_wrt (\<lambda>a b. av_qvalue a \<ge> av_qvalue b) ?avail" "\<forall>a \<in> set ?avail. av_qvalue a \<le> 1000"
    by (simp_all add: gzip_av_def)
  from preferred_is_best[OF this, of True AcceptValue_eq ?accept] show ?thesis using w by (auto split: option.splits)
qed

text \<open>
  Printing a quality value and reading the text as the header parser does gives the value back, for every value from 0
  to 1000; the assertion that each digit is below ten holds.
\<close>

lemma qvalue_roundtrip:
  assumes "q \<le> 1000"
  shows "\<exists>r. print_qvalue q = Inr ('';q='' @ r) \<and> save_qvalue r = q"
proof (cases "q = 1000")
  case True
  then have "print_qvalue q = Inr ('';q='' @ ''1'')" by (simp add: print_qvalue_def qvalue_unset_def)
  moreover have "save_qvalue ''1'' = q" unfolding True by code_simp
  ultimately show ?thesis by blast
next
  case False
  then have q: "q = 100 * (q div 100) + 10 * (q div 10 mod 10) + q mod 10" "q div 100 < 10" "q div 10 mod 10 < 10" "q mod 10 < 10"
    using mod_mult2_eq[of q 10 10] mult_div_mod_eq[of 100 q] less_mult_imp_div_less[of q 10 100] assms False by auto
  from qvalue_roundtrip_small[OF q(2-4)] q(1)
  obtain r where "qvalue_digits 100 q = Inr r" "save_qvalue (''0'' @ r) = q" by auto
  then show ?thesis using False assms by (auto simp: print_qvalue_def qvalue_unset_def)
qed

lemma qvalue_roundtrip_example: "\<exists>r. print_qvalue 305 = Inr ('';q='' @ r) \<and> save_qvalue r = 305"
  by (rule qvalue_roundtrip) simp

end
