(* ===== verification/Http_Respond.thy ===== *)
theory Http_Respond
  imports Http_Values
begin

text \<open>
  How the server of http/server.cpp decides what to send: whether a message has a body (http/connection.cpp), what part of
  an entity answers a \<open>Range\<close> header, and whether the preconditions of a request hold. Numbers are 64-bit; \<open>npos\<close>
  is the value \<open>~0ull\<close> for "not given".
\<close>

section \<open>Message bodies\<close>

definition INVALID :: nat where "INVALID = 0"

text \<open>The fields of the headers that matter: the transfer codings, the length and the type of the entity.\<close>

record framing =
  fr_transferEncoding :: "byte list list"
  fr_contentLength :: nat
  fr_contentType :: "byte list"

definition hasMessageBody :: "framing \<Rightarrow> byte list \<Rightarrow> nat \<Rightarrow> bool \<Rightarrow> bool" where
  "hasMessageBody h method status includeEmpty \<longleftrightarrow>
     (if method = ''CONNECT'' \<and> (status = 200 \<or> status = INVALID) then False
      else if status = INVALID \<and> method = ''TRACE'' then False
      else if status \<noteq> INVALID \<and> method = ''HEAD'' then False
      else if (100 \<le> status \<and> status \<le> 199) \<or> status = 204 \<or> status = 304 then False
      else if \<exists>t \<in> set (fr_transferEncoding h). stricmp_loop (c_str t) ''identity'' \<noteq> 0 then True
      else if fr_contentLength h = 0 then includeEmpty
      else if fr_contentLength h \<noteq> npos then True
      else if fr_contentType h = ''multipart'' then True
      else status \<noteq> INVALID)"

section \<open>Ranges\<close>

text \<open>The header \<open>If-Range\<close>: an entity tag, unspecified when there is no such header, or a date.\<close>

datatype if_range = If_ETag etag | If_Date "nat option"

datatype range_outcome = FullEntity | NotSatisfiable | PartialContent

definition minus64 :: "nat \<Rightarrow> nat \<Rightarrow> nat" where
  "minus64 a b = (a + size_mod - b) mod size_mod"

text \<open>The loop that validates the ranges; a range without a first position is a suffix.\<close>

fun range_check :: "nat \<Rightarrow> bool \<Rightarrow> bool \<Rightarrow> nat \<Rightarrow> (nat \<times> nat) list \<Rightarrow> range_outcome" where
  "range_check sz seekable notFirst previousLast [] = PartialContent"
| "range_check sz seekable notFirst previousLast ((first, second) # rs) =
     (if first > second \<and> first \<noteq> npos then FullEntity
      else if first = npos \<and> sz = npos then FullEntity
      else if first \<ge> sz \<and> sz \<noteq> npos \<and> first \<noteq> npos then NotSatisfiable
      else if first = npos \<and> second \<ge> sz then FullEntity
      else if first = 0 \<and> second \<ge> minus64 sz 1 then FullEntity
      else if notFirst \<and> first \<le> previousLast \<and> \<not> seekable then FullEntity
      else range_check sz seekable True (if first = npos then minus64 sz 1 else second) rs)"

definition range_decision :: "nat \<Rightarrow> bool \<Rightarrow> bool \<Rightarrow> (nat \<times> nat) list \<Rightarrow> if_range \<Rightarrow> etag \<Rightarrow> range_outcome" where
  "range_decision sz acceptsTrailers seekable ranges ifRange eTag =
     (let trailers = (sz = npos \<and> acceptsTrailers);
          fullEntity = (ranges = [] \<or> (sz = npos \<and> \<not> trailers) \<or> (trailers \<and> length ranges > 1) \<or>
            (case ifRange of
               If_ETag t \<Rightarrow> \<not> et_unspecified t \<and> \<not> strongCompare t eTag
             | If_Date d \<Rightarrow> d \<noteq> None))
      in if fullEntity then FullEntity else range_check sz seekable False 0 ranges)"

record content_range =
  cr_first :: nat
  cr_last :: nat
  cr_instance :: nat

definition ContentRange_new :: content_range where
  "ContentRange_new = \<lparr>cr_first = npos, cr_last = npos, cr_instance = npos\<rparr>"

definition ContentRange_eq :: "content_range \<Rightarrow> content_range \<Rightarrow> bool" where
  "ContentRange_eq a b \<longleftrightarrow>
     cr_first a = cr_first b \<and> (cr_first a = npos \<or> cr_last a = cr_last b) \<and> cr_instance a = cr_instance b"

text \<open>The range that is sent, and its length, for a single range of an entity whose size is known.\<close>

definition single_range :: "nat \<Rightarrow> nat \<times> nat \<Rightarrow> content_range \<times> nat" where
  "single_range sz r =
     (let (first, second) = r;
          cr = (if first = npos
                then ContentRange_new\<lparr>cr_instance := sz, cr_first := (if second > sz then 0 else minus64 sz second), cr_last := minus64 sz 1\<rparr>
                else ContentRange_new\<lparr>cr_instance := sz, cr_first := first, cr_last := min second (minus64 sz 1)\<rparr>)
      in (cr, minus64 (cr_last cr + 1) (cr_first cr)))"

text \<open>The same for one of several ranges.\<close>

definition multi_range :: "nat \<Rightarrow> nat \<times> nat \<Rightarrow> content_range \<times> nat" where
  "multi_range sz r =
     (let (first, second) = r;
          cr = (if first = npos
                then ContentRange_new\<lparr>cr_instance := sz, cr_first := (if second > sz then 0 else minus64 sz second)\<rparr>
                else ContentRange_new\<lparr>cr_instance := sz, cr_first := first, cr_last := min second (minus64 sz 1)\<rparr>)
      in (cr, minus64 ((cr_last cr + 1) mod size_mod) (cr_first cr)))"

text \<open>The bytes: the stream is positioned at the first one and as many are transferred.\<close>

definition range_body :: "byte list \<Rightarrow> content_range \<times> nat \<Rightarrow> byte list" where
  "range_body data = (\<lambda>(cr, len). take len (drop (cr_first cr) data))"

section \<open>Preconditions\<close>

text \<open>
  The sets of entity tags as lists in their order. The result is the status of the response that was sent, and whether
  its entity tag was cleared; none if the request goes on.
\<close>

definition ifMatch :: "byte list \<Rightarrow> etag list \<Rightarrow> etag list \<Rightarrow> etag \<Rightarrow> (nat \<times> bool) option" where
  "ifMatch method match noneMatch eTag =
     (let failed =
            (if length match = 1 \<and> et_unspecified (hd match) then et_unspecified eTag
             else match \<noteq> [] \<and> \<not> (\<exists>t \<in> set match. strongCompare t eTag));
          getOrHead = (method = ''GET'' \<or> method = ''HEAD'');
          matched =
            (if length noneMatch = 1 \<and> et_unspecified (hd noneMatch) then \<not> et_unspecified eTag
             else (\<exists>t \<in> set noneMatch. if getOrHead then weakCompare t eTag else strongCompare t eTag))
      in if failed then Some (412, True)
         else if matched then Some (if getOrHead then 304 else 412, \<not> getOrHead)
         else None)"

section \<open>Properties\<close>

lemma minus64_le: "b \<le> a \<Longrightarrow> a < size_mod \<Longrightarrow> minus64 a b = a - b"
  unfolding minus64_def by (metis Nat.add_diff_assoc2 less_imp_diff_less mod_add_self2 mod_less)



text \<open>
  One of several ranges that is a suffix has no last position: the server then announces an open range and tries to transfer
  more bytes than the entity has. An empty suffix is answered with an empty part instead of being refused.
\<close>

lemma multi_range_suffix_flaw:
  "multi_range 100 (npos, 10) = (\<lparr>cr_first = 90, cr_last = npos, cr_instance = 100\<rparr>, size_mod - 90)"
  "range_decision 100 False True [(0, 1), (npos, 10)] (If_ETag ETag_unset) ETag_unset = PartialContent"
  by (simp_all add: multi_range_def ContentRange_new_def minus64_def npos_def range_decision_def ETag_unset_def)

lemma empty_suffix_flaw:
  "range_decision 100 False True [(npos, 0)] (If_ETag ETag_unset) ETag_unset = PartialContent"
  "single_range 100 (npos, 0) = (\<lparr>cr_first = 100, cr_last = 99, cr_instance = 100\<rparr>, 0)"
  by (simp_all add: single_range_def ContentRange_new_def minus64_def npos_def range_decision_def ETag_unset_def)

text \<open>
  A request whose \<open>If-Match\<close> names the current entity tag strongly and whose \<open>If-None-Match\<close> does not name it goes on; one
  whose \<open>If-None-Match\<close> names it, also weakly, is answered \<open>304\<close> for \<open>GET\<close> and \<open>HEAD\<close> and keeps the tag;
  a weak tag never satisfies \<open>If-Match\<close>.
\<close>

lemma ifMatch_correct:
  assumes "\<not> et_unspecified eTag"
  shows "((match = [] \<or> (\<exists>t \<in> set match. strongCompare t eTag)) \<and> \<not> (\<exists>t \<in> set noneMatch. et_unspecified t \<or> weakCompare t eTag) \<longrightarrow>
       ifMatch method match noneMatch eTag = None) \<and>
     ((match = [] \<or> (\<exists>t \<in> set match. strongCompare t eTag)) \<and> (\<exists>t \<in> set noneMatch. weakCompare t eTag) \<and> method \<in> {''GET'', ''HEAD''} \<longrightarrow>
       ifMatch method match noneMatch eTag = Some (304, False)) \<and>
     (match \<noteq> [] \<and> (\<forall>t \<in> set match. et_weak t \<and> \<not> et_unspecified t) \<longrightarrow> ifMatch method match noneMatch eTag = Some (412, True))"
proof (intro conjI impI; elim conjE)
  assume m: "match = [] \<or> (\<exists>t \<in> set match. strongCompare t eTag)"
  have failed: "\<not> (if length match = 1 \<and> et_unspecified (hd match) then et_unspecified eTag
      else match \<noteq> [] \<and> \<not> (\<exists>t \<in> set match. strongCompare t eTag))"
    using m assms by auto
  show "ifMatch method match noneMatch eTag = None" if "\<not> (\<exists>t \<in> set noneMatch. et_unspecified t \<or> weakCompare t eTag)"
  proof -
    have "\<not> et_unspecified (hd noneMatch)" if "length noneMatch = 1" using that \<open>\<not> (\<exists>t \<in> set noneMatch. _ t)\<close> hd_in_set[of noneMatch] by fastforce
    moreover have "\<not> (\<exists>t \<in> set noneMatch. strongCompare t eTag)" using that by (auto simp: strongCompare_def weakCompare_def)
    ultimately show ?thesis using failed that unfolding ifMatch_def Let_def by (auto split: if_splits)
  qed
  show "ifMatch method match noneMatch eTag = Some (304, False)" if "\<exists>t \<in> set noneMatch. weakCompare t eTag" "method \<in> {''GET'', ''HEAD''}"
    using failed that assms unfolding ifMatch_def Let_def by auto
next
  assume "match \<noteq> []" "\<forall>t \<in> set match. et_weak t \<and> \<not> et_unspecified t"
  then have "\<not> et_unspecified (hd match)" "\<not> (\<exists>t \<in> set match. strongCompare t eTag)" by (auto simp: strongCompare_def)
  then show "ifMatch method match noneMatch eTag = Some (412, True)" using \<open>match \<noteq> []\<close> by (simp add: ifMatch_def Let_def)
qed

end
