(* ===== verification/Http_Server.thy ===== *)
theory Http_Server
  imports Refinement
begin

text \<open>
  The pipeline of an HTTP connection on the server, \<open>ServerConnection\<close> and \<open>ServerRequest\<close> of http/server.cpp: requests are
  read one after the other, handled concurrently, and answered in the order they came. A request is named by
  its number \<open>m_requestNumber\<close>. An operation is what the code does while it holds the mutex of the connection; it returns the fibers
  that it schedules. What the headers say enters as the flag \<open>m_willClose\<close> and the kind of error.
\<close>

section \<open>State\<close>

datatype http_state = PENDING | WAITING | HEADERS | BODY | COMPLETE | ERROR

text \<open>The order of the enumeration, as far as the code uses it: \<open>COMPLETE\<close> or \<open>ERROR\<close>.\<close>

fun state_done :: "http_state \<Rightarrow> bool" where
  "state_done COMPLETE = True"
| "state_done ERROR = True"
| "state_done _ = False"

record request =
  rq_requestState :: http_state
  rq_responseState :: http_state
  rq_willClose :: bool
  rq_pipeline :: bool

record server =
  sv_request :: "nat \<Rightarrow> request"
  sv_pendingRequests :: "nat list"
  sv_waitingResponses :: "nat list"
  sv_requestCount :: nat
  sv_priorRequestFailed :: nat
  sv_priorRequestClosed :: nat
  sv_priorResponseClosed :: nat

datatype wakeup = DoRequest nat | Respond nat

type_synonym 'a server_op = "server \<Rightarrow> ('a \<times> wakeup list \<times> server) result"

abbreviation put_request :: "nat \<Rightarrow> request \<Rightarrow> server \<Rightarrow> server" where
  "put_request r q s \<equiv> s\<lparr>sv_request := (sv_request s)(r := q)\<rparr>"

definition ServerRequest_new :: request where
  "ServerRequest_new = \<lparr>rq_requestState = HEADERS, rq_responseState = PENDING, rq_willClose = False, rq_pipeline = False\<rparr>"

definition ServerConnection_new :: "(nat \<Rightarrow> request) \<Rightarrow> server" where
  "ServerConnection_new junk =
     \<lparr>sv_request = junk, sv_pendingRequests = [], sv_waitingResponses = [], sv_requestCount = 0,
      sv_priorRequestFailed = npos, sv_priorRequestClosed = npos, sv_priorResponseClosed = npos\<rparr>"

section \<open>Operations\<close>

text \<open>\<open>ServerConnection::invariant\<close>, which every operation asserts.\<close>

fun invariant_pending :: "(nat \<Rightarrow> request) \<Rightarrow> bool \<Rightarrow> nat list \<Rightarrow> bool" where
  "invariant_pending rq seenResponseNotDone [] = True"
| "invariant_pending rq seenResponseNotDone (r # rs) =
     ((\<not> state_done (rq_requestState (rq r)) \<or> \<not> state_done (rq_responseState (rq r))) \<and>
      (seenResponseNotDone \<longrightarrow> \<not> state_done (rq_responseState (rq r))) \<and>
      (if \<not> state_done (rq_requestState (rq r)) then rs = []
       else invariant_pending rq (seenResponseNotDone \<or> \<not> state_done (rq_responseState (rq r))) rs))"

definition server_invariant :: "server \<Rightarrow> bool" where
  "server_invariant s \<longleftrightarrow>
     invariant_pending (sv_request s) False (sv_pendingRequests s) \<and>
     (\<forall>r \<in> set (sv_waitingResponses s). rq_responseState (sv_request s r) = WAITING)"

definition scheduleNextRequest :: "nat option \<Rightarrow> unit server_op" where
  "scheduleNextRequest request s =
     ensure (request \<noteq> None \<or> sv_requestCount s = 0)
       (if sv_requestCount s = 0 \<or>
           (case request of None \<Rightarrow> False
            | Some r \<Rightarrow> r = sv_requestCount s \<and> rq_requestState (sv_request s r) = COMPLETE \<and>
                sv_priorRequestFailed s = npos \<and> sv_priorRequestClosed s = npos \<and> sv_priorResponseClosed s = npos)
        then let n = sv_requestCount s + 1
             in Inr ((), [DoRequest n],
                  put_request n ServerRequest_new
                    (s\<lparr>sv_requestCount := n, sv_pendingRequests := sv_pendingRequests s @ [n]\<rparr>))
        else Inr ((), [], s))"

definition processRequests :: "unit server_op" where
  "processRequests s = ensure (server_invariant s) (scheduleNextRequest None s)"

definition processNextRequest :: "nat \<Rightarrow> unit server_op" where
  "processNextRequest r s =
     (let s1 = put_request r ((sv_request s r)\<lparr>rq_pipeline := True\<rparr>) s
      in ensure (server_invariant s1) (scheduleNextRequest (Some r) s1))"

text \<open>Two operations in sequence, with the fibers both schedule.\<close>

definition then_op :: "'a server_op \<Rightarrow> 'b server_op \<Rightarrow> 'b server_op" where
  "then_op f g s = andThen (f s) (\<lambda>(_, ws, s1). andThen (g s1) (\<lambda>(x, ws', s2). Inr (x, ws @ ws', s2)))"

definition requestComplete :: "nat \<Rightarrow> unit server_op" where
  "requestComplete r s =
     ensure (server_invariant s)
       (ensure (sv_pendingRequests s \<noteq> [])
         (ensure (r = last (sv_pendingRequests s))
           (ensure (rq_requestState (sv_request s r) = HEADERS \<or> rq_requestState (sv_request s r) = BODY)
             (let close = rq_willClose (sv_request s r);
                  s1 = put_request r ((sv_request s r)\<lparr>rq_requestState := COMPLETE\<rparr>) s
              in then_op
                   (\<lambda>s2. if state_done (rq_responseState (sv_request s2 r))
                         then ensure (r = hd (sv_pendingRequests s2))
                                (let s3 = s2\<lparr>sv_pendingRequests := tl (sv_pendingRequests s2)\<rparr>
                                 in if \<not> close then scheduleNextRequest (Some r) s3 else Inr ((), [], s3))
                         else Inr ((), [], s2))
                   (\<lambda>s2. if \<not> close
                         then if rq_pipeline (sv_request s2 r) then scheduleNextRequest (Some r) s2 else Inr ((), [], s2)
                         else Inr ((), [], s2\<lparr>sv_priorRequestClosed := r\<rparr>)) s1))))"

text \<open>
  \<open>scheduleAllWaitingResponses\<close>. After erasing an element the code decrements the iterator; for the first element that
  is \<open>begin()\<close>, and the loop goes on as on a circular list.
\<close>

fun schedule_all_loop :: "nat \<Rightarrow> nat list \<Rightarrow> nat list \<Rightarrow> nat list \<times> nat list \<times> wakeup list" where
  "schedule_all_loop firstFailed [] waiting = ([], waiting, [])"
| "schedule_all_loop firstFailed (r # rs) waiting =
     (if r < firstFailed then (case schedule_all_loop firstFailed rs waiting of (ps, wt, ws) \<Rightarrow> (r # ps, wt, ws))
      else if r \<in> set waiting
      then (case schedule_all_loop firstFailed rs (removeAll r waiting) of (ps, wt, ws) \<Rightarrow> (ps, wt, Respond r # ws))
      else (case schedule_all_loop firstFailed rs waiting of (ps, wt, ws) \<Rightarrow> (r # ps, wt, ws)))"

definition scheduleAllWaitingResponses :: "unit server_op" where
  "scheduleAllWaitingResponses s =
     ensure (sv_priorRequestFailed s \<noteq> npos \<or> sv_priorResponseClosed s \<noteq> npos)
       (case schedule_all_loop (min (sv_priorRequestFailed s) (sv_priorResponseClosed s)) (sv_pendingRequests s) (sv_waitingResponses s) of
          (ps, wt, ws) \<Rightarrow> Inr ((), ws, s\<lparr>sv_pendingRequests := ps, sv_waitingResponses := wt\<rparr>))"

text \<open>\<open>cancel\<close>; that it makes the reads and writes of the stream fail is the caller's to see.\<close>

definition ServerRequest_cancel :: "nat \<Rightarrow> unit server_op" where
  "ServerRequest_cancel r s =
     (let q = sv_request s r
      in if state_done (rq_requestState q) \<and> state_done (rq_responseState q) then Inr ((), [], s)
         else
           ensure (server_invariant s)
             (let q1 = (if \<not> state_done (rq_requestState q) then q\<lparr>rq_requestState := ERROR\<rparr> else q);
                  q2 = (if \<not> state_done (rq_responseState q1) then q1\<lparr>rq_responseState := ERROR\<rparr> else q1)
              in scheduleAllWaitingResponses
                   (put_request r q2
                      (s\<lparr>sv_priorRequestFailed := min (sv_priorRequestFailed s) r,
                         sv_pendingRequests := removeAll r (sv_pendingRequests s)\<rparr>))))"

text \<open>
  The part of \<open>commit\<close> that decides who responds: at once, later, or not at all because an earlier request failed or closed
  the connection.
\<close>

datatype commit_outcome = Responds | Waits | PriorRequestFailed | VoluntarilyClosed

definition commit_enter :: "nat \<Rightarrow> commit_outcome server_op" where
  "commit_enter r s =
     ensure (server_invariant s)
       (if sv_priorRequestFailed s < r \<or> sv_priorResponseClosed s < r then
          ensure (r \<in> set (sv_pendingRequests s))
            (Inr (if sv_priorRequestFailed s < r then PriorRequestFailed else VoluntarilyClosed, [],
                  s\<lparr>sv_pendingRequests := removeAll r (sv_pendingRequests s)\<rparr>))
        else
          ensure (sv_pendingRequests s \<noteq> [])
            (if hd (sv_pendingRequests s) \<noteq> r then
               ensure (r \<notin> set (sv_waitingResponses s))
                 (Inr (Waits, [],
                    put_request r ((sv_request s r)\<lparr>rq_responseState := WAITING\<rparr>)
                      (s\<lparr>sv_waitingResponses := sv_waitingResponses s @ [r]\<rparr>)))
             else
               let s1 = put_request r ((sv_request s r)\<lparr>rq_responseState := HEADERS\<rparr>) s
               in if rq_willClose (sv_request s r)
                  then andThen (scheduleAllWaitingResponses (s1\<lparr>sv_priorResponseClosed := r\<rparr>)) (\<lambda>(_, ws, s2). Inr (Responds, ws, s2))
                  else Inr (Responds, [], s1)))"

definition commit_resume :: "nat \<Rightarrow> commit_outcome server_op" where
  "commit_resume r s =
     ensure (server_invariant s)
       (if sv_priorRequestFailed s \<le> r then Inr (PriorRequestFailed, [], s)
        else if sv_priorResponseClosed s \<le> r then Inr (VoluntarilyClosed, [], s)
        else
          ensure (sv_pendingRequests s \<noteq> [] \<and> hd (sv_pendingRequests s) = r)
            (andThen
               (if rq_willClose (sv_request s r) then scheduleAllWaitingResponses (s\<lparr>sv_priorResponseClosed := r\<rparr>) else Inr ((), [], s))
               (\<lambda>(_, ws, s1). Inr (Responds, ws, put_request r ((sv_request s1 r)\<lparr>rq_responseState := HEADERS\<rparr>) s1))))"

text \<open>The headers could not be written.\<close>

definition commit_failed :: "nat \<Rightarrow> unit server_op" where
  "commit_failed r s =
     ensure (server_invariant s)
       (scheduleAllWaitingResponses (s\<lparr>sv_priorRequestFailed := min (sv_priorRequestFailed s) r\<rparr>))"

text \<open>The two critical sections of \<open>responseComplete\<close>; the first says whether the function returns from it.\<close>

definition responseComplete_first :: "nat \<Rightarrow> bool server_op" where
  "responseComplete_first r s =
     ensure (server_invariant s)
       (ensure (sv_pendingRequests s \<noteq> [])
         (ensure (r = hd (sv_pendingRequests s))
           (let close = (\<lambda>s2. if rq_willClose (sv_request s2 r) then s2\<lparr>sv_priorResponseClosed := r\<rparr> else s2)
            in case tl (sv_pendingRequests s) of
              [] \<Rightarrow>
                andThen (if state_done (rq_requestState (sv_request s r)) then scheduleNextRequest (Some r) s else Inr ((), [], s))
                  (\<lambda>(_, ws, s1). Inr (False, ws, close s1))
            | n # rest \<Rightarrow>
                if n \<in> set (sv_waitingResponses s) then
                  andThen
                    (let s1 = put_request r ((sv_request s r)\<lparr>rq_responseState := COMPLETE\<rparr>) s
                     in if state_done (rq_requestState (sv_request s1 r))
                        then scheduleNextRequest (Some r) (s1\<lparr>sv_pendingRequests := tl (sv_pendingRequests s1)\<rparr>)
                        else Inr ((), [], s1))
                    (\<lambda>(_, ws, s2).
                       Inr (True, ws @ [Respond n],
                         put_request n ((sv_request s2 n)\<lparr>rq_responseState := HEADERS\<rparr>)
                           (s2\<lparr>sv_waitingResponses := removeAll n (sv_waitingResponses s2)\<rparr>)))
                else Inr (False, [], close s))))"

definition responseComplete_second :: "nat \<Rightarrow> unit server_op" where
  "responseComplete_second r s =
     ensure (server_invariant s)
       (ensure (sv_pendingRequests s \<noteq> [])
         (ensure (r = hd (sv_pendingRequests s))
           (let s1 = put_request r ((sv_request s r)\<lparr>rq_responseState := COMPLETE\<rparr>) s;
                s2 = (if state_done (rq_requestState (sv_request s1 r))
                      then s1\<lparr>sv_pendingRequests := tl (sv_pendingRequests s1)\<rparr> else s1)
            in case sv_pendingRequests s2 of
                 [] \<Rightarrow> Inr ((), [], s2)
               | n # rest \<Rightarrow>
                   if n \<in> set (sv_waitingResponses s2)
                   then Inr ((), [Respond n],
                          put_request n ((sv_request s2 n)\<lparr>rq_responseState := HEADERS\<rparr>)
                            (s2\<lparr>sv_waitingResponses := removeAll n (sv_waitingResponses s2)\<rparr>))
                   else Inr ((), [], s2))))"

section \<open>Requests running concurrently\<close>

text \<open>
  Where the fiber that answers a request is: before \<open>commit\<close>, blocked in it, writing, between the two critical
  sections of \<open>responseComplete\<close>, through with it, by success or by an exception, or still on its way in \<open>commit\<close> or
  \<open>responseComplete\<close> although its request was cancelled. The bytes that are written are recorded by the
  number of their request, and whether an assertion failed.
\<close>

datatype responder = Handling | Blocked | Writing | Finishing | Ended | Aborted

record http_world =
  hw_server :: server
  hw_fiber :: "nat \<Rightarrow> responder"
  hw_woken :: "nat list"
  hw_log :: "nat list"
  hw_failed :: bool

datatype http_action =
    Process
  | ProcessNext nat
  | ReadBody nat
  | ParseError nat
  | RequestError nat
  | RequestDone nat
  | WillClose nat
  | Commit nat
  | Resume nat
  | WriteByte nat
  | HeadersWritten nat
  | WriteFails nat
  | ResponseDone nat
  | ResponseDone2 nat
  | Cancel nat

definition woken_by :: "wakeup list \<Rightarrow> nat list" where
  "woken_by ws = concat (map (\<lambda>w. case w of Respond r \<Rightarrow> [r] | DoRequest r \<Rightarrow> []) ws)"

text \<open>Running an operation, and then setting the place of the fiber by its result.\<close>

definition run_op :: "'a server_op \<Rightarrow> ('a \<Rightarrow> (nat \<Rightarrow> responder) \<Rightarrow> nat \<Rightarrow> responder) \<Rightarrow> http_world \<Rightarrow> http_world" where
  "run_op f k w =
     (case f (hw_server w) of
        Inl e \<Rightarrow> w\<lparr>hw_failed := True\<rparr>
      | Inr (x, ws, s) \<Rightarrow> w\<lparr>hw_server := s, hw_fiber := k x (hw_fiber w), hw_woken := hw_woken w @ woken_by ws\<rparr>)"

fun committed :: "nat \<Rightarrow> commit_outcome \<Rightarrow> (nat \<Rightarrow> responder) \<Rightarrow> nat \<Rightarrow> responder" where
  "committed r Responds fs = fs(r := Writing)"
| "committed r Waits fs = fs(r := Blocked)"
| "committed r _ fs = fs(r := Ended)"

definition set_requestState :: "nat \<Rightarrow> http_state \<Rightarrow> unit server_op" where
  "set_requestState r st s = Inr ((), [], put_request r ((sv_request s r)\<lparr>rq_requestState := st\<rparr>) s)"

text \<open>A request that cannot be parsed: \<open>doRequest\<close> reads no further request after it.\<close>

definition parse_error :: "nat \<Rightarrow> unit server_op" where
  "parse_error r s =
     Inr ((), [], (put_request r ((sv_request s r)\<lparr>rq_requestState := ERROR\<rparr>) s)\<lparr>sv_priorRequestClosed := r\<rparr>)"

text \<open>
  Where \<open>cancel\<close> leaves the fiber of its request. A handler cannot respond any more, since \<open>commit\<close> returns at once; a
  fiber that waits goes on waiting; one that writes can write no more, but may still come to the end of \<open>commit\<close> or \<open>responseComplete\<close>.
\<close>

fun cancelled_at :: "responder \<Rightarrow> responder" where
  "cancelled_at Handling = Ended"
| "cancelled_at Writing = Aborted"
| "cancelled_at Finishing = Aborted"
| "cancelled_at p = p"

fun http_act :: "http_action \<Rightarrow> http_world \<Rightarrow> http_world" where
  "http_act Process w = run_op processRequests (\<lambda>_ fs. fs) w"
| "http_act (ProcessNext r) w = run_op (processNextRequest r) (\<lambda>_ fs. fs) w"
| "http_act (ReadBody r) w = run_op (set_requestState r BODY) (\<lambda>_ fs. fs) w"
| "http_act (ParseError r) w = run_op (parse_error r) (\<lambda>_ fs. fs) w"
| "http_act (RequestError r) w = run_op (set_requestState r ERROR) (\<lambda>_ fs. fs) w"
| "http_act (RequestDone r) w = run_op (requestComplete r) (\<lambda>_ fs. fs) w"
| "http_act (WillClose r) w =
     run_op (\<lambda>s. Inr ((), [], put_request r ((sv_request s r)\<lparr>rq_willClose := True\<rparr>) s)) (\<lambda>_ fs. fs) w"
| "http_act (Commit r) w = run_op (commit_enter r) (committed r) w"
| "http_act (Resume r) w = run_op (commit_resume r) (committed r) (w\<lparr>hw_woken := removeAll r (hw_woken w)\<rparr>)"
| "http_act (WriteByte r) w = w\<lparr>hw_log := hw_log w @ [r]\<rparr>"
| "http_act (HeadersWritten r) w =
     run_op (\<lambda>s. Inr ((), [], put_request r ((sv_request s r)\<lparr>rq_responseState := BODY\<rparr>) s)) (\<lambda>_ fs. fs) w"
| "http_act (WriteFails r) w = run_op (commit_failed r) (\<lambda>_ fs. fs(r := if fs r = Aborted then Aborted else Ended)) w"
| "http_act (ResponseDone r) w = run_op (responseComplete_first r) (\<lambda>returns fs. fs(r := if returns then Ended else Finishing)) w"
| "http_act (ResponseDone2 r) w = run_op (responseComplete_second r) (\<lambda>_ fs. fs(r := Ended)) w"
| "http_act (Cancel r) w = run_op (ServerRequest_cancel r) (\<lambda>_ fs. fs(r := cancelled_at (fs r))) w"

text \<open>
  What the code guarantees of each action: a request exists, its body is read before it is complete and not after its response was
  given up, errors of the request are found before the handler runs, and a fiber acts where it is. A request can be cancelled at
  any moment, by its handler, by its destructor or by anybody else; \<open>cancelWrite\<close> then makes the writes of the stream fail, so that
  a cancelled request writes no more bytes.
\<close>

fun http_guard :: "http_action \<Rightarrow> http_world \<Rightarrow> bool" where
  "http_guard Process w = (sv_requestCount (hw_server w) = 0)"
| "http_guard (ProcessNext r) w = (0 < r \<and> r \<le> sv_requestCount (hw_server w))"
| "http_guard (ReadBody r) w = (0 < r \<and> r \<le> sv_requestCount (hw_server w) \<and> rq_requestState (sv_request (hw_server w) r) = HEADERS)"
| "http_guard (ParseError r) w =
     (0 < r \<and> r \<le> sv_requestCount (hw_server w) \<and> rq_requestState (sv_request (hw_server w) r) = HEADERS \<and> hw_fiber w r = Handling)"
| "http_guard (RequestError r) w =
     (0 < r \<and> r \<le> sv_requestCount (hw_server w) \<and> rq_requestState (sv_request (hw_server w) r) = HEADERS \<and> hw_fiber w r = Handling)"
| "http_guard (RequestDone r) w =
     (0 < r \<and> r \<le> sv_requestCount (hw_server w) \<and> rq_requestState (sv_request (hw_server w) r) \<in> {HEADERS, BODY} \<and>
      r \<in> set (sv_pendingRequests (hw_server w)))"
| "http_guard (WillClose r) w = (0 < r \<and> r \<le> sv_requestCount (hw_server w) \<and> hw_fiber w r = Handling)"
| "http_guard (Commit r) w = (0 < r \<and> r \<le> sv_requestCount (hw_server w) \<and> hw_fiber w r = Handling)"
| "http_guard (Resume r) w = (hw_fiber w r = Blocked \<and> r \<in> set (hw_woken w))"
| "http_guard (WriteByte r) w = (hw_fiber w r = Writing)"
| "http_guard (HeadersWritten r) w = (hw_fiber w r = Writing)"
| "http_guard (WriteFails r) w = (hw_fiber w r = Writing \<or> hw_fiber w r = Aborted)"
| "http_guard (ResponseDone r) w = (hw_fiber w r = Writing \<or> hw_fiber w r = Aborted)"
| "http_guard (ResponseDone2 r) w = (hw_fiber w r = Finishing \<or> hw_fiber w r = Aborted)"
| "http_guard (Cancel r) w = (0 < r \<and> r \<le> sv_requestCount (hw_server w))"

text \<open>The numbers of requests stay below the value that stands for "none".\<close>

definition http_allows :: "http_action \<Rightarrow> http_world \<Rightarrow> bool" where
  "http_allows a w \<longleftrightarrow> sv_requestCount (hw_server w) + 1 < npos \<and> http_guard a w"

definition http_start :: "(nat \<Rightarrow> request) \<Rightarrow> http_world" where
  "http_start junk =
     \<lparr>hw_server = ServerConnection_new junk, hw_fiber = (\<lambda>_. Handling), hw_woken = [], hw_log = [], hw_failed = False\<rparr>"

inductive http_reach :: "http_world \<Rightarrow> bool" where
  http_init: "http_reach (http_start junk)"
| http_step: "http_reach w \<Longrightarrow> http_allows a w \<Longrightarrow> http_reach (http_act a w)"

interpretation http_runs: guarded_actions http_allows http_act http_reach
  by unfold_locales (rule http_step)

end
