(* ===== verification/Http_Pipeline.thy ===== *)
theory Http_Pipeline
  imports Http_Server
begin

text \<open>
  What the pipeline of an HTTP connection guarantees: the responses are written one after the other in the order of the requests, no
  response is forgotten, and an assertion fails only after a request was cancelled while it waited or while its response was written.
\<close>

section \<open>The invariant\<close>

abbreviation req :: "server \<Rightarrow> nat \<Rightarrow> http_state" where
  "req s r \<equiv> rq_requestState (sv_request s r)"

abbreviation resp :: "server \<Rightarrow> nat \<Rightarrow> http_state" where
  "resp s r \<equiv> rq_responseState (sv_request s r)"

abbreviation pend :: "server \<Rightarrow> nat set" where
  "pend s \<equiv> set (sv_pendingRequests s)"

definition is_first :: "nat set \<Rightarrow> nat \<Rightarrow> bool" where
  "is_first P r \<longleftrightarrow> r \<in> P \<and> (\<forall>q \<in> P. r \<le> q)"

text \<open>
  The pending requests are in order; only the newest request can still be read; only the first one can have begun to respond, and
  it stays pending after its response only while it is read; the others wait or have not come to respond.
\<close>

definition first_ok :: "server \<Rightarrow> nat \<Rightarrow> bool" where
  "first_ok s r \<longleftrightarrow> resp s r \<noteq> WAITING \<and> resp s r \<noteq> ERROR \<and> (resp s r = COMPLETE \<longrightarrow> \<not> state_done (req s r))"

text \<open>The first request whose response must not be sent any more; those that wait are before it.\<close>

definition first_failed :: "server \<Rightarrow> nat" where
  "first_failed s = min (sv_priorRequestFailed s) (sv_priorResponseClosed s)"

definition pending_ok :: "server \<Rightarrow> bool" where
  "pending_ok s \<longleftrightarrow>
     sorted_wrt (<) (sv_pendingRequests s) \<and>
     (\<forall>r \<in> pend s. 0 < r \<and> r \<le> sv_requestCount s \<and> (r < sv_requestCount s \<longrightarrow> state_done (req s r))) \<and>
     (\<forall>r \<in> pend s. if is_first (pend s) r then first_ok s r else resp s r = PENDING \<or> resp s r = WAITING) \<and>
     set (sv_waitingResponses s) = {r \<in> pend s. resp s r = WAITING} \<and>
     (\<forall>r \<in> pend s. resp s r = WAITING \<longrightarrow> r \<le> first_failed s)"

text \<open>What the place of each fiber says about its request.\<close>

definition fiber_ok :: "server \<Rightarrow> nat list \<Rightarrow> nat \<Rightarrow> responder \<Rightarrow> bool" where
  "fiber_ok s woken r p \<longleftrightarrow>
     (case p of
        Handling \<Rightarrow> r \<notin> set woken \<and> (0 < r \<and> r \<le> sv_requestCount s \<longrightarrow> r \<in> pend s \<and> resp s r = PENDING)
      | Blocked \<Rightarrow> r \<le> sv_requestCount s \<and>
          (if r \<in> set woken
           then resp s r = HEADERS \<and> is_first (pend s) r \<or> first_failed s \<le> r
           else resp s r = WAITING \<and> r \<in> pend s)
      | Ended \<Rightarrow> r \<le> sv_requestCount s \<and> (r \<in> pend s \<longrightarrow> resp s r = COMPLETE \<or> first_failed s \<le> r)
      | Aborted \<Rightarrow> r \<le> sv_requestCount s \<and> r \<notin> pend s
      | _ \<Rightarrow> is_first (pend s) r \<and> (resp s r = HEADERS \<or> resp s r = BODY) \<and> r \<le> sv_priorResponseClosed s \<and>
          (rq_willClose (sv_request s r) \<longrightarrow> sv_priorResponseClosed s = r))"

definition log_ok :: "server \<Rightarrow> nat list \<Rightarrow> bool" where
  "log_ok s l \<longleftrightarrow> sorted l \<and> (\<forall>x \<in> set l. x \<le> sv_requestCount s \<and> (\<forall>r \<in> pend s. x \<le> r))"

definition http_ok :: "server \<Rightarrow> (nat \<Rightarrow> responder) \<Rightarrow> nat list \<Rightarrow> nat list \<Rightarrow> bool" where
  "http_ok s fs woken l \<longleftrightarrow> pending_ok s \<and> (\<forall>r. fiber_ok s woken r (fs r)) \<and> log_ok s l"

lemmas http_ok_defs = http_ok_def pending_ok_def fiber_ok_def log_ok_def first_ok_def first_failed_def

lemma is_first_unique: "is_first P r \<Longrightarrow> is_first P q \<Longrightarrow> r = q"
  by (auto simp: is_first_def intro: order_antisym)

lemma sorted_hd:
  assumes "sorted_wrt (<) (p :: nat list)"
  shows "p \<noteq> [] \<Longrightarrow> hd p = r \<longleftrightarrow> is_first (set p) r" "r = hd p \<Longrightarrow> set (tl p) = set p - {r}" "p \<noteq> [] \<Longrightarrow> last p = Max (set p)"
proof -
  show "p \<noteq> [] \<Longrightarrow> hd p = r \<longleftrightarrow> is_first (set p) r" using assms by (cases p) (auto simp: is_first_def)
  show "r = hd p \<Longrightarrow> set (tl p) = set p - {r}" using assms by (cases p) auto
  show "p \<noteq> [] \<Longrightarrow> last p = Max (set p)" using assms
    by (induction p) (auto simp: max_def less_imp_le last_in_set dest!: bspec[OF _ last_in_set] split: if_splits)
qed

lemma invariant_pending_tail:
  "sorted_wrt (<) p \<Longrightarrow> (\<forall>r \<in> set p. (\<exists>q \<in> set p. r < q) \<longrightarrow> state_done (rq_requestState (rq r))) \<Longrightarrow>
   (\<forall>r \<in> set p. \<not> state_done (rq_responseState (rq r))) \<Longrightarrow> invariant_pending rq seen p"
proof (induction p arbitrary: seen)
  case (Cons r p)
  have "\<forall>r \<in> set p. (\<exists>q \<in> set p. r < q) \<longrightarrow> state_done (rq_requestState (rq r))"
    "\<forall>r \<in> set p. \<not> state_done (rq_responseState (rq r))" using Cons.prems(2,3) by (meson list.set_intros(2))+
  then have "invariant_pending rq s p" for s using Cons.IH Cons.prems(1) by simp
  moreover have "p = []" if "\<not> state_done (rq_requestState (rq r))"
  proof (rule ccontr)
    assume "p \<noteq> []"
    then have "hd p \<in> set (r # p)" "r < hd p" using Cons.prems(1) by auto
    then show False using Cons.prems(2) that by (meson list.set_intros(1))
  qed
  moreover have "\<not> state_done (rq_responseState (rq r))" using Cons.prems(3) by simp
  ultimately show ?case by simp
qed simp

lemma pending_okD:
  assumes "pending_ok s"
  shows "sorted_wrt (<) (sv_pendingRequests s)"
    and "r \<in> pend s \<Longrightarrow> 0 < r \<and> r \<le> sv_requestCount s"
    and "r \<in> pend s \<Longrightarrow> r < sv_requestCount s \<Longrightarrow> state_done (req s r)"
    and "is_first (pend s) r \<Longrightarrow> first_ok s r"
    and "r \<in> pend s \<Longrightarrow> \<not> is_first (pend s) r \<Longrightarrow> resp s r = PENDING \<or> resp s r = WAITING"
    and "r \<in> set (sv_waitingResponses s) \<longleftrightarrow> r \<in> pend s \<and> resp s r = WAITING"
    and "r \<in> pend s \<Longrightarrow> resp s r = WAITING \<Longrightarrow> r \<le> first_failed s"
proof -
  have st: "\<forall>r \<in> pend s. if is_first (pend s) r then first_ok s r else resp s r = PENDING \<or> resp s r = WAITING"
    using assms unfolding pending_ok_def by (elim conjE)
  show "is_first (pend s) r \<Longrightarrow> first_ok s r" using st by (metis is_first_def)
  show "r \<in> pend s \<Longrightarrow> \<not> is_first (pend s) r \<Longrightarrow> resp s r = PENDING \<or> resp s r = WAITING" using st by metis
qed (use assms in \<open>auto simp: pending_ok_def\<close>)

lemma pending_ok_later:
  assumes "pending_ok s" "r \<in> pend s" "q \<in> pend s" "r < q"
  shows "state_done (req s r)"
  using pending_okD(3)[OF assms(1,2)] pending_okD(2)[OF assms(1,3)] assms(4) by simp

lemma pending_ok_invariant:
  assumes "pending_ok s"
  shows "server_invariant s"
proof -
  have "invariant_pending (sv_request s) False (sv_pendingRequests s)"
  proof (cases "sv_pendingRequests s")
    case (Cons r p)
    have srt: "sorted_wrt (<) (r # p)" using pending_okD(1)[OF assms] Cons by simp
    have rest: "\<not> state_done (resp s q)" if "q \<in> set p" for q
    proof -
      have "\<not> is_first (pend s) q" "q \<in> pend s" using that srt Cons by (auto simp: is_first_def)
      then show ?thesis using pending_okD(5)[OF assms] by fastforce
    qed
    have "is_first (pend s) r" "r \<in> pend s" using srt Cons by (auto simp: is_first_def)
    then have r: "first_ok s r" using pending_okD(4)[OF assms] by blast
    have tail: "invariant_pending (sv_request s) seen p" for seen
    proof (rule invariant_pending_tail)
      show "\<forall>r \<in> set p. (\<exists>q \<in> set p. r < q) \<longrightarrow> state_done (req s r)"
        using pending_ok_later[OF assms] Cons by (metis list.set_intros(2))
    qed (use srt rest in auto)
    have "state_done (req s r)" if "p \<noteq> []" using that srt Cons pending_ok_later[OF assms, of r "hd p"] by (cases p) auto
    moreover have "\<not> state_done (resp s r) \<or> \<not> state_done (req s r)" using r by (cases "resp s r") (auto simp: first_ok_def)
    ultimately show ?thesis using Cons tail by auto
  qed simp
  then show ?thesis using pending_okD(6)[OF assms] by (auto simp: server_invariant_def)
qed

section \<open>Building blocks\<close>

lemma pending_okI:
  assumes "sorted_wrt (<) (sv_pendingRequests s)" "\<And>r. r \<in> pend s \<Longrightarrow> 0 < r \<and> r \<le> sv_requestCount s"
    and "\<And>r. r \<in> pend s \<Longrightarrow> r < sv_requestCount s \<Longrightarrow> state_done (req s r)" "\<And>r. is_first (pend s) r \<Longrightarrow> first_ok s r"
    and "\<And>r. r \<in> pend s \<Longrightarrow> \<not> is_first (pend s) r \<Longrightarrow> resp s r = PENDING \<or> resp s r = WAITING"
    and "\<And>r. r \<in> set (sv_waitingResponses s) \<longleftrightarrow> r \<in> pend s \<and> resp s r = WAITING"
    and "\<And>r. r \<in> pend s \<Longrightarrow> resp s r = WAITING \<Longrightarrow> r \<le> first_failed s"
  shows "pending_ok s"
  using assms unfolding pending_ok_def by (intro conjI ballI) auto

lemma http_okD:
  assumes "http_ok s fs woken l"
  shows "pending_ok s" "fiber_ok s woken r (fs r)" "log_ok s l"
  using assms by (auto simp: http_ok_def)

lemma http_okI:
  "pending_ok s \<Longrightarrow> (\<And>r. fiber_ok s woken r (fs r)) \<Longrightarrow> log_ok s l \<Longrightarrow> http_ok s fs woken l"
  by (simp add: http_ok_def)

text \<open>Only the states, the lists, the count and two of the marks matter.\<close>

lemma http_ok_cong:
  assumes "http_ok s fs woken l" "\<And>r. state_done (req s' r) = state_done (req s r)" "\<And>r. resp s' r = resp s r"
    and "\<And>r. fs r \<noteq> Handling \<Longrightarrow> rq_willClose (sv_request s' r) = rq_willClose (sv_request s r)"
    and "sv_pendingRequests s' = sv_pendingRequests s" "sv_waitingResponses s' = sv_waitingResponses s" "sv_requestCount s' = sv_requestCount s"
    and "sv_priorRequestFailed s' = sv_priorRequestFailed s" "sv_priorResponseClosed s' = sv_priorResponseClosed s"
  shows "http_ok s' fs woken l"
proof (rule http_okI)
  show "pending_ok s'" using http_okD(1)[OF assms(1)] unfolding pending_ok_def first_ok_def first_failed_def assms(2,3,5-) .
  show "log_ok s' l" using http_okD(3)[OF assms(1)] unfolding log_ok_def assms(5-) .
  show "fiber_ok s' woken r (fs r)" for r
    using http_okD(2)[OF assms(1), of r] assms(4)[of r] unfolding fiber_ok_def first_failed_def assms(3,5-) by (cases "fs r") auto
qed

lemma is_first_remove: "is_first P r \<Longrightarrow> r \<noteq> q \<Longrightarrow> is_first (P - {q}) r"
  by (auto simp: is_first_def)

lemma is_first_insert:
  assumes "\<And>q. q \<in> P \<Longrightarrow> q < n"
  shows "is_first (insert n P) r \<longleftrightarrow> (if P = {} then r = n else is_first P r)"
  using assms by (auto simp: is_first_def order.strict_implies_order) (metis leD)

text \<open>A new request.\<close>

definition with_request :: "server \<Rightarrow> server" where
  "with_request s =
     put_request (sv_requestCount s + 1) ServerRequest_new
       (s\<lparr>sv_requestCount := sv_requestCount s + 1, sv_pendingRequests := sv_pendingRequests s @ [sv_requestCount s + 1]\<rparr>)"

lemma with_request_pending_ok:
  assumes ok: "pending_ok s" and newest: "\<And>r. r \<in> pend s \<Longrightarrow> state_done (req s r)"
  shows "pending_ok (with_request s)"
proof (rule pending_okI)
  let ?n = "sv_requestCount s + 1"
  have lt: "\<And>q. q \<in> pend s \<Longrightarrow> q < ?n" using pending_okD(2)[OF ok] by fastforce
  have P: "pend (with_request s) = insert ?n (pend s)" by (simp add: with_request_def)
  have first: "is_first (pend (with_request s)) r \<longleftrightarrow> (if pend s = {} then r = ?n else is_first (pend s) r)" for r
    unfolding P by (rule is_first_insert[OF lt])
  show "sorted_wrt (<) (sv_pendingRequests (with_request s))"
    using pending_okD(1)[OF ok] lt by (simp add: with_request_def sorted_wrt_append)
  show "r \<in> pend (with_request s) \<Longrightarrow> 0 < r \<and> r \<le> sv_requestCount (with_request s)" for r
    using lt[of r] pending_okD(2)[OF ok, of r] by (auto simp: with_request_def)
  show "r \<in> pend (with_request s) \<Longrightarrow> r < sv_requestCount (with_request s) \<Longrightarrow> state_done (req (with_request s) r)" for r
    using newest by (auto simp: with_request_def)
  show "is_first (pend (with_request s)) r \<Longrightarrow> first_ok (with_request s) r" for r
    unfolding first using pending_okD(4)[OF ok, of r] lt[of r]
    by (auto simp: first_ok_def with_request_def ServerRequest_new_def is_first_def split: if_splits)
  show "r \<in> pend (with_request s) \<Longrightarrow> \<not> is_first (pend (with_request s)) r \<Longrightarrow> resp (with_request s) r = PENDING \<or> resp (with_request s) r = WAITING" for r
    unfolding first unfolding P using pending_okD(5)[OF ok, of r] by (auto simp: with_request_def ServerRequest_new_def split: if_splits)
  show "r \<in> set (sv_waitingResponses (with_request s)) \<longleftrightarrow> r \<in> pend (with_request s) \<and> resp (with_request s) r = WAITING" for r
    using pending_okD(6)[OF ok, of r] lt[of r] by (auto simp: with_request_def ServerRequest_new_def)
  show "r \<in> pend (with_request s) \<Longrightarrow> resp (with_request s) r = WAITING \<Longrightarrow> r \<le> first_failed (with_request s)" for r
    using pending_okD(7)[OF ok, of r] by (auto simp: with_request_def ServerRequest_new_def first_failed_def split: if_splits)
qed

lemma with_request_ok:
  assumes ok: "http_ok s fs woken l" and newest: "\<And>r. r \<in> pend s \<Longrightarrow> state_done (req s r)"
  shows "http_ok (with_request s) fs woken l"
proof (rule http_okI)
  let ?n = "sv_requestCount s + 1"
  note p = http_okD(1)[OF ok]
  have lt: "\<And>q. q \<in> pend s \<Longrightarrow> q < ?n" using pending_okD(2)[OF p] by fastforce
  have P: "pend (with_request s) = insert ?n (pend s)" by (simp add: with_request_def)
  have first: "is_first (pend (with_request s)) r \<longleftrightarrow> (if pend s = {} then r = ?n else is_first (pend s) r)" for r
    unfolding P by (rule is_first_insert[OF lt])
  show "pending_ok (with_request s)" by (rule with_request_pending_ok[OF p newest])
  show "fiber_ok (with_request s) woken r (fs r)" for r
  proof (cases "r = ?n")
    case True
    have "fs r = Handling" using http_okD(2)[OF ok, of r] lt[of r] True
      by (auto simp: fiber_ok_def is_first_def split: responder.splits)
    then show ?thesis using True http_okD(2)[OF ok, of r] by (simp add: fiber_ok_def with_request_def ServerRequest_new_def)
  next
    case False
    have "pend s = {} \<Longrightarrow> \<not> is_first (pend s) r" by (simp add: is_first_def)
    then show ?thesis using http_okD(2)[OF ok, of r] False first[of r]
      by (auto simp: fiber_ok_def with_request_def first_failed_def split: responder.splits if_splits)
  qed
  show "log_ok (with_request s) l" using http_okD(3)[OF ok] by (auto simp: log_ok_def with_request_def)
qed

lemma scheduleNextRequest_ok:
  assumes "http_ok s fs woken l" "r \<noteq> None \<or> sv_requestCount s = 0"
  shows "\<exists>ws s'. scheduleNextRequest r s = Inr ((), ws, s') \<and> woken_by ws = [] \<and> http_ok s' fs woken l"
proof -
  note p = http_okD(1)[OF assms(1)]
  define adds where "adds \<longleftrightarrow> sv_requestCount s = 0 \<or>
           (case r of None \<Rightarrow> False
            | Some r \<Rightarrow> r = sv_requestCount s \<and> req s r = COMPLETE \<and>
                sv_priorRequestFailed s = npos \<and> sv_priorRequestClosed s = npos \<and> sv_priorResponseClosed s = npos)"
  have sch: "scheduleNextRequest r s = (if adds then Inr ((), [DoRequest (sv_requestCount s + 1)], with_request s) else Inr ((), [], s))"
    using assms(2) by (simp add: scheduleNextRequest_def with_request_def adds_def Let_def)
  have newest: "state_done (req s q)" if adds "q \<in> pend s" for q
    using that pending_okD(2,3)[OF p that(2)] by (cases "q = sv_requestCount s") (auto simp: adds_def split: option.splits)
  show ?thesis
  proof (cases adds)
    case True
    then show ?thesis using sch with_request_ok[OF assms(1) newest[OF True]] by (simp add: woken_by_def)
  next
    case False
    then show ?thesis using sch assms(1) by (simp add: woken_by_def)
  qed
qed

text \<open>Waking the responses that wait behind a failed or closing one.\<close>

lemma schedule_all_loop_eq:
  "distinct p \<Longrightarrow> schedule_all_loop ff p wt =
     (filter (\<lambda>r. \<not> (ff \<le> r \<and> r \<in> set wt)) p, filter (\<lambda>r. \<not> (ff \<le> r \<and> r \<in> set p)) wt,
      map Respond (filter (\<lambda>r. ff \<le> r \<and> r \<in> set wt) p))"
proof (induction p arbitrary: wt)
  case (Cons r p)
  have IH: "schedule_all_loop ff p wt' =
     (filter (\<lambda>r. \<not> (ff \<le> r \<and> r \<in> set wt')) p, filter (\<lambda>r. \<not> (ff \<le> r \<and> r \<in> set p)) wt',
      map Respond (filter (\<lambda>r. ff \<le> r \<and> r \<in> set wt') p))" for wt'
    using Cons by simp
  have r: "r \<notin> set p" using Cons.prems by simp
  consider (skip) "r < ff" | (wake) "ff \<le> r" "r \<in> set wt" | (stay) "ff \<le> r" "r \<notin> set wt" by force
  then show ?case
  proof cases
    case skip
    then have "filter (\<lambda>q. \<not> (ff \<le> q \<and> q \<in> set p)) wt = filter (\<lambda>q. \<not> (ff \<le> q \<and> q \<in> set (r # p))) wt"
      by (intro filter_cong) auto
    then show ?thesis using skip by (simp add: IH)
  next
    case wake
    have "filter (\<lambda>q. \<not> (ff \<le> q \<and> q \<in> set (removeAll r wt))) p = filter (\<lambda>q. \<not> (ff \<le> q \<and> q \<in> set wt)) p"
      "filter (\<lambda>q. ff \<le> q \<and> q \<in> set (removeAll r wt)) p = filter (\<lambda>q. ff \<le> q \<and> q \<in> set wt) p"
      using r by (auto intro!: filter_cong)
    moreover have "filter (\<lambda>q. \<not> (ff \<le> q \<and> q \<in> set p)) (removeAll r wt) = filter (\<lambda>q. \<not> (ff \<le> q \<and> q \<in> set (r # p))) wt"
      using wake by (auto simp: removeAll_filter_not_eq intro!: filter_cong)
    ultimately show ?thesis using wake IH[of "removeAll r wt"] by simp
  next
    case stay
    then have "filter (\<lambda>q. \<not> (ff \<le> q \<and> q \<in> set p)) wt = filter (\<lambda>q. \<not> (ff \<le> q \<and> q \<in> set (r # p))) wt"
      by (intro filter_cong) auto
    then show ?thesis using stay by (simp add: IH)
  qed
qed simp

lemma woken_by_Respond: "woken_by (map Respond rs) = rs"
  by (induction rs) (auto simp: woken_by_def)

text \<open>As \<open>pending_ok\<close>, except that the first request may wait if it is about to be woken.\<close>

definition pending_upto :: "nat \<Rightarrow> server \<Rightarrow> bool" where
  "pending_upto ff s \<longleftrightarrow>
     sorted_wrt (<) (sv_pendingRequests s) \<and>
     (\<forall>r \<in> pend s. 0 < r \<and> r \<le> sv_requestCount s \<and> (r < sv_requestCount s \<longrightarrow> state_done (req s r))) \<and>
     (\<forall>r. is_first (pend s) r \<longrightarrow> first_ok s r \<or> resp s r = WAITING \<and> ff \<le> r) \<and>
     (\<forall>r \<in> pend s. \<not> is_first (pend s) r \<longrightarrow> resp s r = PENDING \<or> resp s r = WAITING) \<and>
     (\<forall>r. r \<in> set (sv_waitingResponses s) \<longleftrightarrow> r \<in> pend s \<and> resp s r = WAITING)"

lemma pending_ok_upto: "pending_ok s \<Longrightarrow> pending_upto ff s"
  unfolding pending_upto_def using pending_okD by (intro conjI ballI allI impI) blast+

definition released :: "server \<Rightarrow> server" where
  "released s =
     (let ff = first_failed s
      in s\<lparr>sv_pendingRequests := filter (\<lambda>r. \<not> (ff \<le> r \<and> r \<in> set (sv_waitingResponses s))) (sv_pendingRequests s),
           sv_waitingResponses := filter (\<lambda>r. \<not> (ff \<le> r \<and> r \<in> pend s)) (sv_waitingResponses s)\<rparr>)"

lemma released_pending_ok:
  assumes up: "pending_upto (first_failed s) s"
  shows "pending_ok (released s)"
proof (rule pending_okI)
  let ?ff = "first_failed s"
  have P: "pend (released s) = {r \<in> pend s. \<not> (?ff \<le> r \<and> resp s r = WAITING)}"
    using up by (auto simp: released_def pending_upto_def Let_def)
  have same: "resp (released s) r = resp s r" "req (released s) r = req s r" "first_ok (released s) r = first_ok s r"
    "sv_requestCount (released s) = sv_requestCount s" for r
    by (simp_all add: released_def Let_def first_ok_def)
  show "sorted_wrt (<) (sv_pendingRequests (released s))"
    using up by (simp add: released_def pending_upto_def Let_def sorted_wrt_filter)
  show "r \<in> pend (released s) \<Longrightarrow> 0 < r \<and> r \<le> sv_requestCount (released s)" for r
    unfolding P same using up by (simp add: pending_upto_def)
  show "r \<in> pend (released s) \<Longrightarrow> r < sv_requestCount (released s) \<Longrightarrow> state_done (req (released s) r)" for r
    unfolding P same using up by (simp add: pending_upto_def)
  show "first_ok (released s) r" if "is_first (pend (released s)) r" for r
  proof (cases "is_first (pend s) r")
    case True
    then show ?thesis unfolding same using up that unfolding P by (auto simp: pending_upto_def is_first_def)
  next
    case False
    have r: "r \<in> pend s" "\<not> (?ff \<le> r \<and> resp s r = WAITING)" using that unfolding P by (auto simp: is_first_def)
    then obtain q where q: "q \<in> pend s" "q < r" using False not_le unfolding is_first_def by blast
    then have "q \<notin> pend (released s)" using that leD unfolding is_first_def by blast
    then have "?ff \<le> q" using q unfolding P by simp
    then have "resp s r \<noteq> WAITING" using r q by simp
    moreover note r(1)
    ultimately have "resp s r = PENDING" using up False by (auto simp: pending_upto_def)
    then show ?thesis unfolding same by (simp add: first_ok_def)
  qed
  show "resp (released s) r = PENDING \<or> resp (released s) r = WAITING" if "r \<in> pend (released s)" "\<not> is_first (pend (released s)) r" for r
  proof -
    have "r \<in> pend s" "\<not> is_first (pend s) r" using that unfolding P by (auto simp: is_first_def)
    then show ?thesis unfolding same using up by (auto simp: pending_upto_def)
  qed
  show "r \<in> set (sv_waitingResponses (released s)) \<longleftrightarrow> r \<in> pend (released s) \<and> resp (released s) r = WAITING" for r
    unfolding P same using up by (auto simp: released_def pending_upto_def Let_def)
  show "r \<in> pend (released s) \<Longrightarrow> resp (released s) r = WAITING \<Longrightarrow> r \<le> first_failed (released s)" for r
    unfolding P same by (auto simp: released_def Let_def first_failed_def)
qed

lemma released_ok:
  assumes up: "pending_upto (first_failed s) s"
    and fib: "\<And>r. fiber_ok s woken r (fs r)" and l: "log_ok s l"
    and mark: "sv_priorRequestFailed s \<noteq> npos \<or> sv_priorResponseClosed s \<noteq> npos"
  shows "\<exists>ws. scheduleAllWaitingResponses s = Inr ((), ws, released s) \<and> http_ok (released s) fs (woken @ woken_by ws) l"
proof -
  let ?ff = "first_failed s"
  let ?k = "filter (\<lambda>r. ?ff \<le> r \<and> r \<in> set (sv_waitingResponses s)) (sv_pendingRequests s)"
  have d: "distinct (sv_pendingRequests s)" using up strict_sorted_iff unfolding pending_upto_def by blast
  have sch: "scheduleAllWaitingResponses s = Inr ((), map Respond ?k, released s)"
    using mark by (simp add: scheduleAllWaitingResponses_def schedule_all_loop_eq[OF d] released_def Let_def first_failed_def)
  have wt: "r \<in> set (sv_waitingResponses s) \<longleftrightarrow> r \<in> pend s \<and> resp s r = WAITING" for r using up by (simp add: pending_upto_def)
  have P: "pend (released s) = {r \<in> pend s. \<not> (?ff \<le> r \<and> resp s r = WAITING)}"
    unfolding released_def Let_def by (auto simp: wt)
  have K: "set ?k = {r \<in> pend s. ?ff \<le> r \<and> resp s r = WAITING}" by (auto simp: wt)
  have same: "resp (released s) r = resp s r" "sv_requestCount (released s) = sv_requestCount s"
    "first_failed (released s) = first_failed s" "sv_priorResponseClosed (released s) = sv_priorResponseClosed s"
    "sv_request (released s) = sv_request s" for r
    by (simp_all add: released_def Let_def first_failed_def)
  have "fiber_ok (released s) (woken @ ?k) r (fs r)" for r
  proof -
    have first: "is_first (pend (released s)) r" if "is_first (pend s) r" "resp s r \<noteq> WAITING"
      using that unfolding P by (auto simp: is_first_def)
    show ?thesis
    proof (cases "fs r")
      case Handling
      then show ?thesis using fib[of r] K P up unfolding fiber_ok_def same pending_upto_def by (cases "0 < r \<and> r \<le> sv_requestCount s") auto
    next
      case Blocked
      have b: "r \<le> sv_requestCount s" "if r \<in> set woken then resp s r = HEADERS \<and> is_first (pend s) r \<or> ?ff \<le> r else resp s r = WAITING \<and> r \<in> pend s"
        using fib[of r] Blocked by (simp_all add: fiber_ok_def)
      consider (old) "r \<in> set woken" | (new) "r \<notin> set woken" "?ff \<le> r" | (still) "r \<notin> set woken" "\<not> ?ff \<le> r" by blast
      then have "if r \<in> set (woken @ ?k) then resp s r = HEADERS \<and> is_first (pend (released s)) r \<or> ?ff \<le> r
          else resp s r = WAITING \<and> r \<in> pend (released s)"
      proof cases
        case old
        then show ?thesis using b(2) first by auto
      next
        case new
        then have "r \<in> set ?k" using b(2) unfolding K by simp
        then show ?thesis using new by simp
      next
        case still
        then have "r \<notin> set ?k" "r \<in> pend (released s)" "resp s r = WAITING" using b(2) unfolding K P by auto
        then show ?thesis using still(1) by simp
      qed
      then show ?thesis using Blocked b(1) by (simp add: fiber_ok_def same del: set_append set_filter)
    next
      case Ended
      have "r \<in> pend s" if "r \<in> pend (released s)" using that unfolding P by simp
      then show ?thesis using fib[of r] Ended by (auto simp: fiber_ok_def same)
    next
      case Aborted
      have "r \<notin> pend (released s)" if "r \<notin> pend s" using that unfolding P by simp
      then show ?thesis using fib[of r] Aborted by (simp add: fiber_ok_def same)
    qed (use fib[of r] first in \<open>auto simp: fiber_ok_def same\<close>)
  qed
  moreover have "log_ok (released s) l" using l unfolding log_ok_def same P by auto
  ultimately have "http_ok (released s) fs (woken @ ?k) l" using released_pending_ok[OF up] by (simp add: http_ok_def)
  then show ?thesis using sch woken_by_Respond[of ?k] by auto
qed

section \<open>Every operation keeps the invariant\<close>

definition keeps :: "'a server_op \<Rightarrow> ('a \<Rightarrow> (nat \<Rightarrow> responder) \<Rightarrow> nat \<Rightarrow> responder) \<Rightarrow> server \<Rightarrow> (nat \<Rightarrow> responder) \<Rightarrow> nat list \<Rightarrow> nat list \<Rightarrow> bool" where
  "keeps f k s fs woken l \<longleftrightarrow> (\<exists>x ws s'. f s = Inr (x, ws, s') \<and> http_ok s' (k x fs) (woken @ woken_by ws) l)"

lemma keepsI: "f s = Inr (x, ws, s') \<Longrightarrow> http_ok s' (k x fs) (woken @ woken_by ws) l \<Longrightarrow> keeps f k s fs woken l"
  by (auto simp: keeps_def)

lemma woken_by_simps [simp]: "woken_by [] = []" "woken_by [Respond r] = [r]" "woken_by (ws @ ws') = woken_by ws @ woken_by ws'"
  by (simp_all add: woken_by_def)

lemma http_ok_invariant: "http_ok s fs woken l \<Longrightarrow> server_invariant s"
  by (rule pending_ok_invariant[OF http_okD(1)])

lemma http_ok_end:
  assumes "http_ok s fs woken l" "r \<le> sv_requestCount s" "r \<in> pend s \<Longrightarrow> resp s r = COMPLETE \<or> first_failed s \<le> r"
  shows "http_ok s (fs(r := Ended)) woken l"
  using assms by (auto simp: http_ok_def fiber_ok_def)

lemma scheduleNextRequest_keeps:
  assumes "http_ok s fs woken l" "r \<noteq> None \<or> sv_requestCount s = 0"
  shows "keeps (scheduleNextRequest r) (\<lambda>_ fs. fs) s fs woken l"
  using scheduleNextRequest_ok[OF assms] by (auto intro: keepsI)

lemma processRequests_keeps: "http_ok s fs woken l \<Longrightarrow> sv_requestCount s = 0 \<Longrightarrow> keeps processRequests (\<lambda>_ fs. fs) s fs woken l"
  using scheduleNextRequest_keeps[of s fs woken l None] by (simp add: keeps_def processRequests_def http_ok_invariant)

lemma processNextRequest_keeps:
  assumes "http_ok s fs woken l"
  shows "keeps (processNextRequest r) (\<lambda>_ fs. fs) s fs woken l"
proof -
  have "http_ok (put_request r ((sv_request s r)\<lparr>rq_pipeline := True\<rparr>) s) fs woken l" by (rule http_ok_cong[OF assms]) auto
  then show ?thesis using scheduleNextRequest_keeps[of _ fs woken l "Some r"] by (simp add: keeps_def processNextRequest_def Let_def http_ok_invariant)
qed

text \<open>The request of a pending one is complete or in error; the newest one is the last.\<close>

lemma newest_last:
  assumes "pending_ok s" "r \<in> pend s" "\<not> state_done (req s r)"
  shows "r = sv_requestCount s" "last (sv_pendingRequests s) = r"
proof -
  show r: "r = sv_requestCount s" using pending_okD(2,3)[OF assms(1,2)] assms(3) by fastforce
  have srt: "sorted_wrt (<) (sv_pendingRequests s)" by (rule pending_okD(1)[OF assms(1)])
  have "sv_pendingRequests s \<noteq> []" using assms(2) by auto
  moreover have "\<forall>q \<in> pend s. q \<le> r" using pending_okD(2)[OF assms(1)] r by blast
  ultimately show "last (sv_pendingRequests s) = r" using sorted_hd(3)[OF srt] assms(2) by (simp add: Max_eq_iff)
qed

lemma set_request_done:
  assumes ok: "http_ok s fs woken l" and r: "resp s r \<noteq> COMPLETE" and st: "state_done st"
  shows "http_ok (put_request r ((sv_request s r)\<lparr>rq_requestState := st\<rparr>) s) fs woken l" (is "http_ok ?s _ _ _")
proof (rule http_okI)
  note p = http_okD(1)[OF ok]
  show "pending_ok ?s"
  proof (rule pending_okI)
    show "q \<in> pend ?s \<Longrightarrow> q < sv_requestCount ?s \<Longrightarrow> state_done (req ?s q)" for q using pending_okD(3)[OF p, of q] st by simp
    show "is_first (pend ?s) q \<Longrightarrow> first_ok ?s q" for q using pending_okD(4)[OF p, of q] r by (auto simp: first_ok_def)
    show "q \<in> pend ?s \<Longrightarrow> \<not> is_first (pend ?s) q \<Longrightarrow> resp ?s q = PENDING \<or> resp ?s q = WAITING" for q using pending_okD(5)[OF p, of q] by auto
    show "q \<in> pend ?s \<Longrightarrow> resp ?s q = WAITING \<Longrightarrow> q \<le> first_failed ?s" for q using pending_okD(7)[OF p, of q] by (auto simp: first_failed_def split: if_splits)
    show "q \<in> set (sv_waitingResponses ?s) \<longleftrightarrow> q \<in> pend ?s \<and> resp ?s q = WAITING" for q using pending_okD(6)[OF p, of q] by auto
    show "q \<in> pend ?s \<Longrightarrow> 0 < q \<and> q \<le> sv_requestCount ?s" for q using pending_okD(2)[OF p, of q] by simp
  qed (use pending_okD(1)[OF p] in simp)
  show "fiber_ok ?s woken q (fs q)" for q using http_okD(2)[OF ok, of q] by (auto simp: fiber_ok_def first_failed_def split: responder.splits)
  show "log_ok ?s l" using http_okD(3)[OF ok] by (simp add: log_ok_def)
qed

text \<open>The only pending request has responded and is now read: it leaves.\<close>

lemma singleton_list: "set xs = {x} \<Longrightarrow> distinct xs \<Longrightarrow> xs = [x]"
  by (cases xs; cases "tl xs") auto

lemma last_leaves:
  assumes ok: "http_ok s fs woken l" and r: "is_first (pend s) r" "resp s r = COMPLETE" "\<not> state_done (req s r)"
  shows "sv_pendingRequests s = [r]"
    and "http_ok (put_request r ((sv_request s r)\<lparr>rq_requestState := st\<rparr>) (s\<lparr>sv_pendingRequests := []\<rparr>)) fs woken l" (is "http_ok ?s _ _ _")
proof -
  note p = http_okD(1)[OF ok]
  have rp: "r \<in> pend s" using r(1) by (simp add: is_first_def)
  have "q = r" if "q \<in> pend s" for q
    using r(1) that pending_okD(2)[OF p that] newest_last(1)[OF p rp r(3)] by (auto simp: is_first_def intro: order_antisym)
  then have "pend s = {r}" using rp by blast
  moreover have "distinct (sv_pendingRequests s)" using pending_okD(1)[OF p] strict_sorted_iff by blast
  ultimately show pr: "sv_pendingRequests s = [r]" by (intro singleton_list)
  have "x \<notin> set (sv_waitingResponses s)" for x using pending_okD(6)[OF p, of x] pr r(2) by auto
  then have wt: "sv_waitingResponses s = []" by (metis last_in_set)
  show "http_ok ?s fs woken l"
  proof (rule http_okI)
    show "pending_ok ?s" using wt by (simp add: pending_ok_def)
    show "fiber_ok ?s woken q (fs q)" for q
      using http_okD(2)[OF ok, of q] pr r(2) by (auto simp: fiber_ok_def first_failed_def is_first_def split: responder.splits if_splits)
    show "log_ok ?s l" using http_okD(3)[OF ok] by (simp add: log_ok_def)
  qed
qed

lemma requestComplete_keeps:
  assumes ok: "http_ok s fs woken l" and r: "r \<in> pend s" "req s r = HEADERS \<or> req s r = BODY"
  shows "keeps (requestComplete r) (\<lambda>_ fs. fs) s fs woken l"
proof -
  note p = http_okD(1)[OF ok]
  have nd: "\<not> state_done (req s r)" using r(2) by auto
  define s1 where "s1 = put_request r ((sv_request s r)\<lparr>rq_requestState := COMPLETE\<rparr>) s"
  define close where "close = rq_willClose (sv_request s r)"
  define f1 where "f1 = (\<lambda>s2. if state_done (rq_responseState (sv_request s2 r))
       then ensure (r = hd (sv_pendingRequests s2))
              (let s3 = s2\<lparr>sv_pendingRequests := tl (sv_pendingRequests s2)\<rparr>
               in if \<not> close then scheduleNextRequest (Some r) s3 else Inr ((), [], s3))
       else Inr ((), [], s2))"
  define f2 where "f2 = (\<lambda>s2. if \<not> close
       then if rq_pipeline (sv_request s2 r) then scheduleNextRequest (Some r) s2 else Inr ((), [], s2)
       else Inr ((), [], s2\<lparr>sv_priorRequestClosed := r\<rparr>))"
  have rc: "requestComplete r s = then_op f1 f2 s1"
    using newest_last(2)[OF p r(1) nd] r(2) length_pos_if_in_set[OF r(1)] http_ok_invariant[OF ok]
    unfolding requestComplete_def f1_def f2_def s1_def close_def Let_def by simp
  have "\<exists>ws s2. f1 s1 = Inr ((), ws, s2) \<and> woken_by ws = [] \<and> http_ok s2 fs woken l"
  proof (cases "state_done (resp s r)")
    case True
    then have first: "is_first (pend s) r" using pending_okD(5)[OF p r(1)] by (cases "is_first (pend s) r") auto
    then have compl: "resp s r = COMPLETE" using pending_okD(4)[OF p first] True by (cases "resp s r") (auto simp: first_ok_def)
    note lv = last_leaves[OF ok first compl nd]
    have "s1\<lparr>sv_pendingRequests := tl (sv_pendingRequests s1)\<rparr> = put_request r ((sv_request s r)\<lparr>rq_requestState := COMPLETE\<rparr>) (s\<lparr>sv_pendingRequests := []\<rparr>)"
      using lv(1) by (simp add: s1_def)
    then have ok3: "http_ok (s1\<lparr>sv_pendingRequests := tl (sv_pendingRequests s1)\<rparr>) fs woken l" using lv(2) by simp
    then show ?thesis using scheduleNextRequest_ok[OF ok3, of "Some r"] compl lv(1) by (cases close) (auto simp: f1_def s1_def Let_def)
  next
    case False
    then have "http_ok s1 fs woken l" unfolding s1_def by (intro set_request_done[OF ok]) auto
    then show ?thesis using False by (simp add: f1_def s1_def)
  qed
  then obtain ws s2 where s2: "f1 s1 = Inr ((), ws, s2)" "woken_by ws = []" "http_ok s2 fs woken l" by blast
  have "http_ok (s2\<lparr>sv_priorRequestClosed := r\<rparr>) fs woken l" by (rule http_ok_cong[OF s2(3)]) auto
  then have "\<exists>ws' s3. f2 s2 = Inr ((), ws', s3) \<and> woken_by ws' = [] \<and> http_ok s3 fs woken l"
    using scheduleNextRequest_ok[OF s2(3), of "Some r"] s2(3) by (auto simp: f2_def)
  then show ?thesis using s2 rc by (auto simp: then_op_def keeps_def)
qed

text \<open>Lowering the mark of failed or closed responses, before the responses behind it are woken.\<close>

lemma fiber_ok_lower:
  assumes "fiber_ok s woken r p" "\<And>q. resp s' q = resp s q" "sv_pendingRequests s' = sv_pendingRequests s" "sv_requestCount s' = sv_requestCount s"
    and "first_failed s' \<le> first_failed s" "p = Writing \<or> p = Finishing \<Longrightarrow> sv_priorResponseClosed s' = sv_priorResponseClosed s"
    and "rq_willClose (sv_request s' r) = rq_willClose (sv_request s r)"
  shows "fiber_ok s' woken r p"
  using assms by (cases p) (auto simp: fiber_ok_def split: if_splits)

lemma commit_failed_keeps:
  assumes ok: "http_ok s fs woken l" and r: "fs r = Writing \<or> fs r = Aborted" and few: "sv_requestCount s < npos"
  shows "keeps (commit_failed r) (\<lambda>_ fs. fs(r := if fs r = Aborted then Aborted else Ended)) s fs woken l"
proof -
  note p = http_okD(1)[OF ok]
  let ?s = "s\<lparr>sv_priorRequestFailed := min (sv_priorRequestFailed s) r\<rparr>"
  have le: "r \<le> sv_requestCount s" using http_okD(2)[OF ok, of r] r pending_okD(2)[OF p, of r] by (auto simp: fiber_ok_def is_first_def)
  have mark: "sv_priorRequestFailed ?s \<noteq> npos" using le few by (simp add: min_def)
  have "pending_upto (first_failed ?s) ?s"
    using pending_ok_upto[OF p, of "first_failed ?s"] by (simp add: pending_upto_def first_ok_def)
  moreover have "fiber_ok ?s woken q (fs q)" for q by (rule fiber_ok_lower[OF http_okD(2)[OF ok]]) (auto simp: first_failed_def)
  moreover have "log_ok ?s l" using http_okD(3)[OF ok] by (simp add: log_ok_def)
  ultimately obtain ws where "scheduleAllWaitingResponses ?s = Inr ((), ws, released ?s)" "http_ok (released ?s) fs (woken @ woken_by ws) l"
    using released_ok[of ?s woken fs l] mark by blast
  moreover from this(2) have "http_ok (released ?s) (fs(r := Ended)) (woken @ woken_by ws) l"
    by (rule http_ok_end) (use le in \<open>auto simp: released_def Let_def first_failed_def\<close>)
  moreover have "fs(r := Aborted) = fs" if "fs r = Aborted" using that by auto
  ultimately show ?thesis using http_ok_invariant[OF ok] by (cases "fs r = Aborted") (auto simp: keeps_def commit_failed_def)
qed

text \<open>A request leaves the pending ones; the next one may then be first and still wait.\<close>

lemma pending_upto_mono: "pending_upto ff s \<Longrightarrow> ff' \<le> ff \<Longrightarrow> pending_upto ff' s"
  unfolding pending_upto_def by (elim conjE, intro conjI) (simp_all, meson order_trans)

lemma pending_upto_ok:
  assumes "pending_upto ff s" "\<And>r. is_first (pend s) r \<Longrightarrow> resp s r = WAITING \<Longrightarrow> r < ff"
    and "\<And>r. r \<in> pend s \<Longrightarrow> resp s r = WAITING \<Longrightarrow> r \<le> first_failed s"
  shows "pending_ok s"
proof (rule pending_okI)
  show "is_first (pend s) r \<Longrightarrow> first_ok s r" for r using assms(1) assms(2)[of r] unfolding pending_upto_def by (meson leD)
qed (use assms in \<open>auto simp: pending_upto_def\<close>)

lemma pending_upto_remove:
  assumes p: "pending_ok s" and r: "r \<notin> set (sv_waitingResponses s)" and t: "sv_pendingRequests t = removeAll r (sv_pendingRequests s)"
    and same: "\<And>q. q \<noteq> r \<Longrightarrow> sv_request t q = sv_request s q" "sv_requestCount t = sv_requestCount s" "sv_waitingResponses t = sv_waitingResponses s"
  shows "pending_upto (Suc r) t"
proof -
  have P: "pend t = pend s - {r}" by (simp add: t)
  have first: "first_ok t q \<or> resp t q = WAITING \<and> Suc r \<le> q" if "is_first (pend s - {r}) q" for q
  proof (cases "is_first (pend s) q")
    case True
    then show ?thesis using pending_okD(4)[OF p True] same(1)[of q] that by (auto simp: first_ok_def is_first_def)
  next
    case False
    have q: "q \<in> pend s" "q \<noteq> r" "r < q" using that False by (auto simp: is_first_def)
    then show ?thesis using pending_okD(5)[OF p q(1) False] same(1)[of q] by (auto simp: first_ok_def)
  qed
  show ?thesis
    unfolding pending_upto_def
  proof (intro conjI ballI allI impI)
    show "sorted_wrt (<) (sv_pendingRequests t)" using pending_okD(1)[OF p] by (simp add: t removeAll_filter_not_eq sorted_wrt_filter)
    show "is_first (pend t) q \<Longrightarrow> first_ok t q \<or> resp t q = WAITING \<and> Suc r \<le> q" for q using first unfolding P .
    show "q \<in> set (sv_waitingResponses t) \<longleftrightarrow> q \<in> pend t \<and> resp t q = WAITING" for q
      unfolding P same using pending_okD(6)[OF p, of q] same(1)[of q] r by (cases "q = r") auto
    show "resp t q = PENDING \<or> resp t q = WAITING" if "q \<in> pend t" "\<not> is_first (pend t) q" for q
    proof -
      have "q \<in> pend s" "q \<noteq> r" "\<not> is_first (pend s) q" using that unfolding P by (auto simp: is_first_def)
      then show ?thesis using pending_okD(5)[OF p] same(1)[of q] by auto
    qed
  qed (use pending_okD(2,3)[OF p] same(1) in \<open>auto simp: P same(2)\<close>)
qed

lemma fiber_ok_remove:
  assumes "fiber_ok s woken q p" "q \<noteq> r" "pend t = pend s - {r}" "sv_request t q = sv_request s q"
    and "sv_requestCount t = sv_requestCount s" "sv_priorResponseClosed t = sv_priorResponseClosed s" "first_failed t \<le> first_failed s"
  shows "fiber_ok t woken q p"
proof -
  have "is_first (pend t) q" if "is_first (pend s) q" using that assms(2) unfolding assms(3) by (rule is_first_remove)
  moreover have "q \<in> pend t \<longleftrightarrow> q \<in> pend s" using assms(2,3) by simp
  ultimately show ?thesis using assms(1,7) unfolding fiber_ok_def assms(4-6) by (auto split: responder.splits if_splits)
qed

lemma log_ok_remove: "log_ok s l \<Longrightarrow> pend t \<subseteq> pend s \<Longrightarrow> sv_requestCount t = sv_requestCount s \<Longrightarrow> log_ok t l"
  by (auto simp: log_ok_def)

lemma cancel_keeps:
  assumes ok: "http_ok s fs woken l" and r: "r \<le> sv_requestCount s" "r \<notin> set (sv_waitingResponses s)" and few: "sv_requestCount s < npos"
  shows "keeps (ServerRequest_cancel r) (\<lambda>_ fs. fs(r := cancelled_at (fs r))) s fs woken l"
proof (cases "state_done (req s r) \<and> state_done (resp s r)")
  case True
  have "fs r \<noteq> Writing \<and> fs r \<noteq> Finishing" using True http_okD(2)[OF ok, of r] by (auto simp: fiber_ok_def)
  moreover have "resp s r = COMPLETE" if "r \<in> pend s"
    using True that pending_okD(4,5)[OF http_okD(1)[OF ok], of r] by (cases "is_first (pend s) r"; cases "resp s r") (auto simp: first_ok_def)
  moreover have "fs(r := fs r) = fs" by simp
  ultimately show ?thesis using http_ok_end[OF ok r(1)] ok True
    by (cases "fs r") (auto simp: keeps_def ServerRequest_cancel_def Let_def)
next
  case False
  note p = http_okD(1)[OF ok]
  define q1 where "q1 = (if \<not> state_done (req s r) then (sv_request s r)\<lparr>rq_requestState := ERROR\<rparr> else sv_request s r)"
  define q2 where "q2 = (if \<not> state_done (rq_responseState q1) then q1\<lparr>rq_responseState := ERROR\<rparr> else q1)"
  define t where "t = put_request r q2 (s\<lparr>sv_priorRequestFailed := min (sv_priorRequestFailed s) r, sv_pendingRequests := removeAll r (sv_pendingRequests s)\<rparr>)"
  have c: "ServerRequest_cancel r s = scheduleAllWaitingResponses t"
    using False http_ok_invariant[OF ok] by (simp add: ServerRequest_cancel_def Let_def t_def q2_def q1_def)
  have P: "pend t = pend s - {r}" and ff: "first_failed t \<le> first_failed s" "first_failed t \<le> Suc r"
    by (auto simp: t_def first_failed_def)
  have "pending_upto (Suc r) t" by (rule pending_upto_remove[OF p r(2)]) (auto simp: t_def)
  then have "pending_upto (first_failed t) t" using ff(2) by (rule pending_upto_mono)
  moreover have "fiber_ok t woken q ((fs(r := cancelled_at (fs r))) q)" for q
  proof (cases "q = r")
    case False
    then show ?thesis using fiber_ok_remove[OF http_okD(2)[OF ok] False P _ _ _ ff(1)] by (simp add: t_def)
  next
    case True
    have "r \<in> set woken" if "fs r = Blocked" using that http_okD(2)[OF ok, of r] pending_okD(6)[OF p, of r] r(2) by (simp add: fiber_ok_def split: if_splits)
    moreover have "first_failed t \<le> r" by (simp add: t_def first_failed_def)
    ultimately show ?thesis using True r(1) by (cases "fs r") (simp_all add: fiber_ok_def t_def)
  qed
  moreover have "log_ok t l" by (rule log_ok_remove[OF http_okD(3)[OF ok]]) (auto simp: t_def)
  moreover have "sv_priorRequestFailed t \<noteq> npos" using r(1) few by (simp add: t_def min_def)
  ultimately show ?thesis using released_ok[of t woken "fs(r := cancelled_at (fs r))" l] unfolding keeps_def c by blast
qed

text \<open>Beginning to respond.\<close>

lemma put_response_ok:
  assumes p: "pending_ok s" and r: "is_first (pend s) r" and st: "st = HEADERS \<or> st = BODY"
  shows "pending_ok (put_request r ((sv_request s r)\<lparr>rq_responseState := st\<rparr>) s)" (is "pending_ok ?s")
proof (rule pending_okI)
  have nw: "resp s r \<noteq> WAITING" using pending_okD(4)[OF p r] by (simp add: first_ok_def)
  show "is_first (pend ?s) q \<Longrightarrow> first_ok ?s q" for q using is_first_unique[OF r, of q] st by (auto simp: first_ok_def)
  show "q \<in> pend ?s \<Longrightarrow> \<not> is_first (pend ?s) q \<Longrightarrow> resp ?s q = PENDING \<or> resp ?s q = WAITING" for q using pending_okD(5)[OF p, of q] r by auto
  show "q \<in> set (sv_waitingResponses ?s) \<longleftrightarrow> q \<in> pend ?s \<and> resp ?s q = WAITING" for q using pending_okD(6)[OF p, of q] nw st by auto
  show "q \<in> pend ?s \<Longrightarrow> resp ?s q = WAITING \<Longrightarrow> q \<le> first_failed ?s" for q
    using pending_okD(7)[OF p, of q] st by (auto simp: first_failed_def split: if_splits)
qed (use pending_okD(1-3)[OF p] in \<open>auto split: if_splits\<close>)

lemma start_writing:
  assumes p: "pending_ok s" and fib: "\<And>q. q \<noteq> r \<Longrightarrow> fiber_ok s woken q (fs q)" and l: "log_ok s l"
    and r: "is_first (pend s) r" "resp s r = HEADERS" "r \<le> sv_priorResponseClosed s" and few: "sv_requestCount s < npos"
  shows "\<exists>ws s'. (if rq_willClose (sv_request s r) then scheduleAllWaitingResponses (s\<lparr>sv_priorResponseClosed := r\<rparr>) else Inr ((), [], s)) =
      Inr ((), ws, s') \<and> http_ok s' (fs(r := Writing)) (woken @ woken_by ws) l \<and> resp s' r = HEADERS"
proof (cases "rq_willClose (sv_request s r)")
  case False
  have "fiber_ok s woken q ((fs(r := Writing)) q)" for q using fib[of q] r False by (cases "q = r") (simp_all add: fiber_ok_def)
  then show ?thesis using False p l r(2) by (simp add: http_ok_def)
next
  case True
  let ?s = "s\<lparr>sv_priorResponseClosed := r\<rparr>"
  have "pending_upto (first_failed ?s) ?s"
    using pending_ok_upto[OF p, of "first_failed ?s"] by (simp add: pending_upto_def first_ok_def)
  moreover have "fiber_ok ?s woken q ((fs(r := Writing)) q)" for q
  proof (cases "q = r")
    case False
    have "fs q \<noteq> Writing \<and> fs q \<noteq> Finishing" using fib[OF False] False is_first_unique[OF r(1), of q] by (auto simp: fiber_ok_def)
    then show ?thesis using False by simp (rule fiber_ok_lower[OF fib[OF False]], use r(3) in \<open>auto simp: first_failed_def\<close>)
  qed (use r in \<open>simp add: fiber_ok_def\<close>)
  moreover have "log_ok ?s l" using l by (simp add: log_ok_def)
  moreover have "sv_priorResponseClosed ?s \<noteq> npos" using pending_okD(2)[OF p, of r] r(1) few by (simp add: is_first_def)
  ultimately show ?thesis using released_ok[of ?s woken "fs(r := Writing)" l] True r(2)
    by (auto simp: released_def Let_def)
qed

lemma first_hd: "pending_ok s \<Longrightarrow> r \<in> pend s \<Longrightarrow> sv_pendingRequests s \<noteq> [] \<and> (hd (sv_pendingRequests s) = r \<longleftrightarrow> is_first (pend s) r)"
  using sorted_hd(1)[OF pending_okD(1)] by (cases "sv_pendingRequests s = []") auto

lemma handling_pending: "http_ok s fs woken l \<Longrightarrow> fs r = Handling \<Longrightarrow> 0 < r \<Longrightarrow> r \<le> sv_requestCount s \<Longrightarrow> r \<in> pend s \<and> resp s r = PENDING \<and> r \<notin> set woken"
  using http_okD(2)[of s fs woken l r] by (simp add: fiber_ok_def)

text \<open>A response that waits behind the first.\<close>

lemma start_waiting:
  assumes ok: "http_ok s fs woken l" and r: "r \<in> pend s" "\<not> is_first (pend s) r" "resp s r = PENDING" "r \<notin> set woken" "r \<le> first_failed s"
  shows "http_ok (put_request r ((sv_request s r)\<lparr>rq_responseState := WAITING\<rparr>) (s\<lparr>sv_waitingResponses := sv_waitingResponses s @ [r]\<rparr>)) (fs(r := Blocked)) woken l"
    (is "http_ok ?s _ _ _")
proof (rule http_okI)
  note p = http_okD(1)[OF ok]
  have ff: "first_failed ?s = first_failed s" by (simp add: first_failed_def)
  show "pending_ok ?s"
  proof (rule pending_okI)
    show "is_first (pend ?s) q \<Longrightarrow> first_ok ?s q" for q using pending_okD(4)[OF p, of q] r(2) by (auto simp: first_ok_def)
    show "q \<in> pend ?s \<Longrightarrow> \<not> is_first (pend ?s) q \<Longrightarrow> resp ?s q = PENDING \<or> resp ?s q = WAITING" for q using pending_okD(5)[OF p, of q] by auto
    show "q \<in> set (sv_waitingResponses ?s) \<longleftrightarrow> q \<in> pend ?s \<and> resp ?s q = WAITING" for q using pending_okD(6)[OF p, of q] r(1) by auto
    show "q \<in> pend ?s \<Longrightarrow> resp ?s q = WAITING \<Longrightarrow> q \<le> first_failed ?s" for q
      unfolding ff using pending_okD(7)[OF p, of q] r(5) by (auto split: if_splits)
  qed (use pending_okD(1-3)[OF p] in \<open>auto split: if_splits\<close>)
  show "fiber_ok ?s woken q ((fs(r := Blocked)) q)" for q
  proof (cases "q = r")
    case False
    then show ?thesis using http_okD(2)[OF ok, of q] unfolding fiber_ok_def ff by (simp split: responder.splits)
  qed (use r pending_okD(2)[OF p r(1)] in \<open>simp add: fiber_ok_def\<close>)
  show "log_ok ?s l" using http_okD(3)[OF ok] by (simp add: log_ok_def)
qed

lemma leave_ok:
  assumes ok: "http_ok s fs woken l" and r: "r \<in> pend s" "resp s r = PENDING" "first_failed s < r"
  shows "http_ok (s\<lparr>sv_pendingRequests := removeAll r (sv_pendingRequests s)\<rparr>) (fs(r := Ended)) woken l" (is "http_ok ?s _ _ _")
proof (rule http_okI)
  note p = http_okD(1)[OF ok]
  have ff: "first_failed ?s = first_failed s" by (simp add: first_failed_def)
  have w: "q \<in> pend ?s \<Longrightarrow> resp ?s q = WAITING \<Longrightarrow> q \<le> first_failed s" for q using pending_okD(7)[OF p, of q] by simp
  have "r \<notin> set (sv_waitingResponses s)" using pending_okD(6)[OF p, of r] r(2) by simp
  then have "pending_upto (Suc r) ?s" by (rule pending_upto_remove[OF p]) auto
  then show "pending_ok ?s"
  proof (rule pending_upto_ok)
    show "is_first (pend ?s) q \<Longrightarrow> resp ?s q = WAITING \<Longrightarrow> q < Suc r" for q using w[of q] r(3) by (simp add: is_first_def)
  qed (use w ff in simp)
  show "fiber_ok ?s woken q ((fs(r := Ended)) q)" for q
  proof (cases "q = r")
    case False
    then show ?thesis using fiber_ok_remove[OF http_okD(2)[OF ok] False, of ?s] ff by simp
  qed (use pending_okD(2)[OF p r(1)] in \<open>simp add: fiber_ok_def\<close>)
  show "log_ok ?s l" by (rule log_ok_remove[OF http_okD(3)[OF ok]]) auto
qed

lemma commit_enter_keeps:
  assumes ok: "http_ok s fs woken l" and r: "fs r = Handling" "0 < r" "r \<le> sv_requestCount s" and few: "sv_requestCount s < npos"
  shows "keeps (commit_enter r) (committed r) s fs woken l"
proof -
  note p = http_okD(1)[OF ok] and inv = http_ok_invariant[OF ok]
  have h: "r \<in> pend s" "resp s r = PENDING" "r \<notin> set woken" using handling_pending[OF ok r] by auto
  have hd: "sv_pendingRequests s \<noteq> []" "hd (sv_pendingRequests s) = r \<longleftrightarrow> is_first (pend s) r" using first_hd[OF p h(1)] by auto
  consider (gone) "first_failed s < r" | (wait) "r \<le> first_failed s" "\<not> is_first (pend s) r" | (go) "r \<le> first_failed s" "is_first (pend s) r"
    by linarith
  then show ?thesis
  proof cases
    case gone
    then have "sv_priorRequestFailed s < r \<or> sv_priorResponseClosed s < r" by (auto simp: first_failed_def)
    then show ?thesis using leave_ok[OF ok h(1,2) gone] inv h(1) by (auto simp: keeps_def commit_enter_def)
  next
    case wait
    then have "\<not> (sv_priorRequestFailed s < r \<or> sv_priorResponseClosed s < r)" by (auto simp: first_failed_def)
    moreover have "r \<notin> set (sv_waitingResponses s)" using pending_okD(6)[OF p, of r] h(2) by simp
    ultimately show ?thesis using start_waiting[OF ok h(1) wait(2) h(2,3) wait(1)] inv hd wait(2) by (simp add: keeps_def commit_enter_def)
  next
    case go
    let ?s = "put_request r ((sv_request s r)\<lparr>rq_responseState := HEADERS\<rparr>) s"
    have ff: "first_failed ?s = first_failed s" by (simp add: first_failed_def)
    have fib: "fiber_ok ?s woken q (fs q)" if "q \<noteq> r" for q
      using http_okD(2)[OF ok, of q] that unfolding fiber_ok_def ff by (simp split: responder.splits)
    have l: "log_ok ?s l" using http_okD(3)[OF ok] by (simp add: log_ok_def)
    have c: "\<not> (sv_priorRequestFailed s < r \<or> sv_priorResponseClosed s < r)" using go by (auto simp: first_failed_def)
    have "\<exists>ws s'. (if rq_willClose (sv_request ?s r) then scheduleAllWaitingResponses (?s\<lparr>sv_priorResponseClosed := r\<rparr>) else Inr ((), [], ?s)) =
      Inr ((), ws, s') \<and> http_ok s' (fs(r := Writing)) (woken @ woken_by ws) l \<and> resp s' r = HEADERS"
      by (rule start_writing[OF put_response_ok[OF p go(2)] fib l]) (use go few c in auto)
    then obtain ws s' where o: "(if rq_willClose (sv_request s r) then scheduleAllWaitingResponses (?s\<lparr>sv_priorResponseClosed := r\<rparr>) else Inr ((), [], ?s)) =
      Inr ((), ws, s')" "http_ok s' (fs(r := Writing)) (woken @ woken_by ws) l" by auto
    have "commit_enter r s = Inr (Responds, ws, s')"
    proof (cases "rq_willClose (sv_request s r)")
      case True
      then show ?thesis using o(1) inv hd go(2) c unfolding commit_enter_def Let_def by simp
    next
      case False
      then show ?thesis using o(1) inv hd go(2) c unfolding commit_enter_def Let_def by simp
    qed
    then show ?thesis using o(2) by (auto intro: keepsI)
  qed
qed

lemma commit_resume_keeps:
  assumes ok: "http_ok s fs woken l" and r: "fs r = Blocked" "r \<in> set woken" and few: "sv_requestCount s < npos"
  shows "keeps (commit_resume r) (committed r) s fs (removeAll r woken) l"
proof -
  note p = http_okD(1)[OF ok] and inv = http_ok_invariant[OF ok]
  have b: "r \<le> sv_requestCount s" "resp s r = HEADERS \<and> is_first (pend s) r \<or> first_failed s \<le> r"
    using http_okD(2)[OF ok, of r] r by (auto simp: fiber_ok_def)
  have fib: "fiber_ok s (removeAll r woken) q (fs q)" if "q \<noteq> r" for q
    using http_okD(2)[OF ok, of q] that by (simp add: fiber_ok_def split: responder.splits)
  show ?thesis
  proof (cases "first_failed s \<le> r")
    case True
    have "fiber_ok s (removeAll r woken) q ((fs(r := Ended)) q)" for q
      using fib[of q] b(1) True by (cases "q = r") (simp_all add: fiber_ok_def)
    then have "http_ok s (fs(r := Ended)) (removeAll r woken) l" using ok by (simp add: http_ok_def)
    moreover have "sv_priorRequestFailed s \<le> r \<or> sv_priorResponseClosed s \<le> r" using True by (auto simp: first_failed_def)
    ultimately show ?thesis using inv by (auto simp: keeps_def commit_resume_def)
  next
    case False
    then have h: "resp s r = HEADERS" "is_first (pend s) r" and c: "\<not> sv_priorRequestFailed s \<le> r" "\<not> sv_priorResponseClosed s \<le> r"
      using b(2) by (auto simp: first_failed_def)
    have hd: "sv_pendingRequests s \<noteq> []" "hd (sv_pendingRequests s) = r" using first_hd[OF p, of r] h(2) by (auto simp: is_first_def)
    have "\<exists>ws s'. (if rq_willClose (sv_request s r) then scheduleAllWaitingResponses (s\<lparr>sv_priorResponseClosed := r\<rparr>) else Inr ((), [], s)) =
      Inr ((), ws, s') \<and> http_ok s' (fs(r := Writing)) (removeAll r woken @ woken_by ws) l \<and> resp s' r = HEADERS"
      by (rule start_writing[OF p fib http_okD(3)[OF ok] h(2,1)]) (use c few in auto)
    then obtain ws s' where o: "(if rq_willClose (sv_request s r) then scheduleAllWaitingResponses (s\<lparr>sv_priorResponseClosed := r\<rparr>) else Inr ((), [], s)) =
      Inr ((), ws, s')" "http_ok s' (fs(r := Writing)) (removeAll r woken @ woken_by ws) l" "resp s' r = HEADERS" by auto
    have "put_request r ((sv_request s' r)\<lparr>rq_responseState := HEADERS\<rparr>) s' = s'"
    proof -
      have "(sv_request s' r)\<lparr>rq_responseState := HEADERS\<rparr> = sv_request s' r" using o(3) by (cases "sv_request s' r") simp
      then show ?thesis by simp
    qed
    then have "commit_resume r s = Inr (Responds, ws, s')" using o(1) inv hd c unfolding commit_resume_def by simp
    then show ?thesis using o(2) by (auto intro: keepsI)
  qed
qed

text \<open>The first response is complete and its request is read: the next one becomes the first.\<close>

definition popped :: "nat \<Rightarrow> server \<Rightarrow> server" where
  "popped r s = put_request r ((sv_request s r)\<lparr>rq_responseState := COMPLETE\<rparr>) (s\<lparr>sv_pendingRequests := tl (sv_pendingRequests s)\<rparr>)"

lemma popped_parts:
  assumes ok: "http_ok s fs woken l" and r: "is_first (pend s) r"
  shows "pend (popped r s) = pend s - {r}" "pending_upto 0 (popped r s)" "log_ok (popped r s) l"
    and "q \<noteq> r \<Longrightarrow> fiber_ok (popped r s) woken q (fs q)"
    and "q \<in> pend (popped r s) \<Longrightarrow> resp (popped r s) q = WAITING \<Longrightarrow> q \<le> first_failed (popped r s)"
proof -
  note p = http_okD(1)[OF ok]
  have hd: "sv_pendingRequests s \<noteq> []" "hd (sv_pendingRequests s) = r" using first_hd[OF p, of r] r by (auto simp: is_first_def)
  have srt: "sorted_wrt (<) (sv_pendingRequests s)" by (rule pending_okD(1)[OF p])
  then have "tl (sv_pendingRequests s) = removeAll r (sv_pendingRequests s)"
    using hd by (cases "sv_pendingRequests s") (auto intro!: removeAll_id[symmetric])
  then have t: "sv_pendingRequests (popped r s) = removeAll r (sv_pendingRequests s)" by (simp add: popped_def)
  show P: "pend (popped r s) = pend s - {r}" by (simp add: t)
  have ff: "first_failed (popped r s) = first_failed s" by (simp add: first_failed_def popped_def)
  have "r \<notin> set (sv_waitingResponses s)" using pending_okD(4)[OF p r] pending_okD(6)[OF p, of r] by (simp add: first_ok_def)
  then have "pending_upto (Suc r) (popped r s)" by (rule pending_upto_remove[OF p _ t]) (auto simp: popped_def)
  then show "pending_upto 0 (popped r s)" by (rule pending_upto_mono) simp
  have "pend (popped r s) \<subseteq> pend s" using P by blast
  then show "log_ok (popped r s) l" by (rule log_ok_remove[OF http_okD(3)[OF ok]]) (simp add: popped_def)
  show "q \<noteq> r \<Longrightarrow> fiber_ok (popped r s) woken q (fs q)"
    by (rule fiber_ok_remove[OF http_okD(2)[OF ok] _ P]) (simp_all add: ff, simp_all add: popped_def)
  show "q \<in> pend (popped r s) \<Longrightarrow> resp (popped r s) q = WAITING \<Longrightarrow> q \<le> first_failed (popped r s)"
    using pending_okD(7)[OF p, of q] unfolding P ff by (simp add: popped_def)
qed

lemma popped_ends:
  assumes ok: "http_ok s fs woken l" and r: "is_first (pend s) r"
  shows "fiber_ok (popped r s) woken q ((fs(r := Ended)) q)"
proof (cases "q = r")
  case True
  moreover have "sv_requestCount (popped r s) = sv_requestCount s" "r \<notin> pend (popped r s)" unfolding popped_parts(1)[OF assms] by (simp_all add: popped_def)
  ultimately show ?thesis using pending_okD(2)[OF http_okD(1)[OF ok], of r] r by (simp add: fiber_ok_def is_first_def)
qed (use popped_parts(4)[OF assms] in simp)

lemma pop_idle:
  assumes ok: "http_ok s fs woken l" and r: "is_first (pend s) r"
    and idle: "\<And>q. is_first (pend (popped r s)) q \<Longrightarrow> q \<notin> set (sv_waitingResponses s)"
  shows "http_ok (popped r s) (fs(r := Ended)) woken l"
proof (rule http_okI)
  note parts = popped_parts[OF ok r]
  have "q \<in> set (sv_waitingResponses s) \<longleftrightarrow> q \<in> pend (popped r s) \<and> resp (popped r s) q = WAITING" for q
    using parts(2) unfolding pending_upto_def by (simp add: popped_def)
  then show "pending_ok (popped r s)" using idle by (intro pending_upto_ok[OF parts(2) _ parts(5)]) (auto simp: is_first_def)
qed (rule popped_ends[OF ok r], rule popped_parts(3)[OF ok r])

lemma pop_wake:
  assumes ok: "http_ok s fs woken l" and r: "is_first (pend s) r"
    and n: "is_first (pend (popped r s)) n" "n \<in> set (sv_waitingResponses s)"
  shows "http_ok (put_request n ((sv_request (popped r s) n)\<lparr>rq_responseState := HEADERS\<rparr>)
      ((popped r s)\<lparr>sv_waitingResponses := removeAll n (sv_waitingResponses s)\<rparr>)) (fs(r := Ended)) (woken @ [n]) l"
    (is "http_ok ?s _ _ _")
proof (rule http_okI)
  note parts = popped_parts[OF ok r]
  let ?p = "popped r s"
  have w: "q \<in> set (sv_waitingResponses s) \<longleftrightarrow> q \<in> pend ?p \<and> resp ?p q = WAITING" for q
    using parts(2) unfolding pending_upto_def by (simp add: popped_def)
  have ff: "first_failed ?s = first_failed ?p" by (simp add: first_failed_def)
  show "pending_ok ?s"
  proof (rule pending_okI)
    show "is_first (pend ?s) q \<Longrightarrow> first_ok ?s q" for q using is_first_unique[OF n(1), of q] by (simp add: first_ok_def)
    show "q \<in> pend ?s \<Longrightarrow> \<not> is_first (pend ?s) q \<Longrightarrow> resp ?s q = PENDING \<or> resp ?s q = WAITING" for q
      using parts(2) n(1) unfolding pending_upto_def by auto
    show "q \<in> set (sv_waitingResponses ?s) \<longleftrightarrow> q \<in> pend ?s \<and> resp ?s q = WAITING" for q using w[of q] by auto
    show "q \<in> pend ?s \<Longrightarrow> resp ?s q = WAITING \<Longrightarrow> q \<le> first_failed ?s" for q
      unfolding ff using parts(5)[of q] by (auto split: if_splits)
  qed (use parts(2) in \<open>auto simp: pending_upto_def\<close>)
  show "fiber_ok ?s (woken @ [n]) q ((fs(r := Ended)) q)" for q
  proof (cases "q = n")
    case False
    have "fiber_ok ?s (woken @ [n]) q x" if "fiber_ok ?p woken q x" for x using that False unfolding fiber_ok_def ff by (cases x) auto
    then show ?thesis using popped_ends[OF ok r, of q] by blast
  next
    case True
    have "resp ?p n = WAITING" "n \<in> pend ?p" "0 < n" "n \<le> sv_requestCount s" using w n parts(2) by (auto simp: pending_upto_def popped_def)
    then have "fiber_ok ?s (woken @ [n]) n x" if "fiber_ok ?p woken n x" for x
      using that n(1) unfolding fiber_ok_def ff by (cases x) (auto simp: popped_def)
    then show ?thesis using popped_ends[OF ok r, of n] True by blast
  qed
  show "log_ok ?s l" by (rule log_ok_remove[OF parts(3)]) auto
qed

text \<open>What is known of the request whose response is written.\<close>

lemma writing_first:
  assumes ok: "http_ok s fs woken l" and r: "fs r = Writing \<or> fs r = Finishing"
  shows "is_first (pend s) r" "r \<in> pend s" "resp s r = HEADERS \<or> resp s r = BODY" "rq_willClose (sv_request s r) \<Longrightarrow> sv_priorResponseClosed s = r"
    and "sv_pendingRequests s \<noteq> []" "hd (sv_pendingRequests s) = r" "r \<le> sv_requestCount s"
proof -
  show first: "is_first (pend s) r" and "resp s r = HEADERS \<or> resp s r = BODY" "rq_willClose (sv_request s r) \<Longrightarrow> sv_priorResponseClosed s = r"
    using http_okD(2)[OF ok, of r] r by (auto simp: fiber_ok_def)
  then show rp: "r \<in> pend s" by (simp add: is_first_def)
  show "sv_pendingRequests s \<noteq> []" "hd (sv_pendingRequests s) = r" using first_hd[OF http_okD(1)[OF ok] rp] first by auto
  show "r \<le> sv_requestCount s" using pending_okD(2)[OF http_okD(1)[OF ok] rp] by simp
qed

lemma http_ok_finishing: "http_ok s fs woken l \<Longrightarrow> fs r = Writing \<Longrightarrow> http_ok s (fs(r := Finishing)) woken l"
  unfolding http_ok_def fiber_ok_def by (auto split: responder.splits)

lemma popped_first:
  assumes "http_ok s fs woken l" "sv_pendingRequests s = r # ps"
  shows "sv_pendingRequests (popped r s) = ps" "ps = n # rest \<Longrightarrow> is_first (pend (popped r s)) q \<longleftrightarrow> q = n" "ps = [] \<Longrightarrow> \<not> is_first (pend (popped r s)) q"
proof -
  show P: "sv_pendingRequests (popped r s) = ps" using assms(2) by (simp add: popped_def)
  have "sorted_wrt (<) ps" using pending_okD(1)[OF http_okD(1)[OF assms(1)]] assms(2) by simp
  then show "ps = n # rest \<Longrightarrow> is_first (pend (popped r s)) q \<longleftrightarrow> q = n" using sorted_hd(1)[of ps q] P by auto
  show "ps = [] \<Longrightarrow> \<not> is_first (pend (popped r s)) q" using P by (simp add: is_first_def)
qed

lemma close_noop: "(rq_willClose (sv_request s r) \<Longrightarrow> sv_priorResponseClosed s = r) \<Longrightarrow>
   (if rq_willClose (sv_request s r) then s\<lparr>sv_priorResponseClosed := r\<rparr> else s) = s"
  by simp

lemma responseComplete_first_keeps:
  assumes ok: "http_ok s fs woken l" and r: "fs r = Writing"
  shows "keeps (responseComplete_first r) (\<lambda>returns fs. fs(r := if returns then Ended else Finishing)) s fs woken l"
proof -
  note p = http_okD(1)[OF ok] and inv = http_ok_invariant[OF ok] and w = writing_first[OF ok disjI1[OF r]]
  obtain ps where ps: "sv_pendingRequests s = r # ps" using w(5,6) by (cases "sv_pendingRequests s") auto
  note close = close_noop[of _ r]
  consider (alone) "ps = []" | (wake) n rest where "ps = n # rest" "n \<in> set (sv_waitingResponses s)"
    | (later) n rest where "ps = n # rest" "n \<notin> set (sv_waitingResponses s)" by (cases ps) auto
  then show ?thesis
  proof cases
    case alone
    define f where "f = (if state_done (req s r) then scheduleNextRequest (Some r) s else Inr ((), [], s))"
    have "\<exists>ws s'. f = Inr ((), ws, s') \<and> woken_by ws = [] \<and> http_ok s' fs woken l"
      using scheduleNextRequest_ok[OF ok, of "Some r"] ok by (auto simp: f_def)
    then obtain ws s' where f: "f = Inr ((), ws, s')" "woken_by ws = []" "http_ok s' fs woken l" by blast
    have "responseComplete_first r s = Inr (False, ws, s')"
      using inv ps alone f(1) close[OF writing_first(4)[OF f(3) disjI1[OF r]]]
      unfolding responseComplete_first_def Let_def f_def[symmetric] by simp
    then show ?thesis using http_ok_finishing[of s' fs _ l r, OF f(3) r] f(2) by (auto intro!: keepsI)
  next
    case wake
    have nf: "is_first (pend (popped r s)) n" using popped_first(2)[OF ok ps wake(1)] by simp
    have "n \<in> pend s" "r < n" using pending_okD(1)[OF p] ps wake(1) by auto
    then have c: "state_done (req s r)" "r \<noteq> sv_requestCount s" "sv_requestCount s \<noteq> 0"
      using pending_ok_later[OF p w(2)] pending_okD(2)[OF p, of n] by auto
    have "scheduleNextRequest (Some r) (popped r s) = Inr ((), [], popped r s)" using c(2,3) by (simp add: scheduleNextRequest_def popped_def)
    moreover have "sv_waitingResponses (popped r s) = sv_waitingResponses s" by (simp add: popped_def)
    moreover have "put_request r ((sv_request s r)\<lparr>rq_responseState := COMPLETE\<rparr>) s\<lparr>sv_pendingRequests := ps\<rparr> = popped r s"
      using ps by (simp add: popped_def)
    ultimately have "responseComplete_first r s = Inr (True, [Respond n], put_request n ((sv_request (popped r s) n)\<lparr>rq_responseState := HEADERS\<rparr>)
      ((popped r s)\<lparr>sv_waitingResponses := removeAll n (sv_waitingResponses s)\<rparr>))"
      using inv ps wake c(1) unfolding responseComplete_first_def Let_def by simp
    then show ?thesis using pop_wake[OF ok w(1) nf wake(2)] by (auto intro!: keepsI)
  next
    case later
    then have "responseComplete_first r s = Inr (False, [], s)" using inv ps close[OF w(4)] unfolding responseComplete_first_def Let_def by simp
    then show ?thesis using http_ok_finishing[OF ok r] by (auto intro!: keepsI)
  qed
qed

lemma headers_written:
  assumes ok: "http_ok s fs woken l" and r: "fs r = Writing"
  shows "http_ok (put_request r ((sv_request s r)\<lparr>rq_responseState := BODY\<rparr>) s) fs woken l" (is "http_ok ?s _ _ _")
proof (rule http_okI)
  note w = writing_first[OF ok disjI1[OF r]]
  show "pending_ok ?s" by (rule put_response_ok[OF http_okD(1)[OF ok] w(1)]) simp
  have ff: "first_failed ?s = first_failed s" by (simp add: first_failed_def)
  show "fiber_ok ?s woken q (fs q)" for q
  proof (cases "q = r")
    case False
    then show ?thesis using http_okD(2)[OF ok, of q] unfolding fiber_ok_def ff by (simp split: responder.splits)
  qed (use http_okD(2)[OF ok, of r] r in \<open>simp add: fiber_ok_def\<close>)
  show "log_ok ?s l" by (rule log_ok_remove[OF http_okD(3)[OF ok]]) auto
qed

text \<open>The response of a request that is still read stays at the front.\<close>

lemma complete_early:
  assumes ok: "http_ok s fs woken l" and r: "fs r = Finishing" "\<not> state_done (req s r)"
  shows "http_ok (put_request r ((sv_request s r)\<lparr>rq_responseState := COMPLETE\<rparr>) s) (fs(r := Ended)) woken l" (is "http_ok ?s _ _ _")
proof (rule http_okI)
  note p = http_okD(1)[OF ok] and w = writing_first[OF ok disjI2[OF r(1)]]
  have ff: "first_failed ?s = first_failed s" by (simp add: first_failed_def)
  have nw: "resp s r \<noteq> WAITING" using w(3) by auto
  show "pending_ok ?s"
  proof (rule pending_okI)
    show "is_first (pend ?s) q \<Longrightarrow> first_ok ?s q" for q using is_first_unique[OF w(1), of q] r(2) by (simp add: first_ok_def)
    show "q \<in> pend ?s \<Longrightarrow> \<not> is_first (pend ?s) q \<Longrightarrow> resp ?s q = PENDING \<or> resp ?s q = WAITING" for q
      using pending_okD(5)[OF p, of q] w(1) by auto
    show "q \<in> set (sv_waitingResponses ?s) \<longleftrightarrow> q \<in> pend ?s \<and> resp ?s q = WAITING" for q using pending_okD(6)[OF p, of q] nw by auto
    show "q \<in> pend ?s \<Longrightarrow> resp ?s q = WAITING \<Longrightarrow> q \<le> first_failed ?s" for q
      unfolding ff using pending_okD(7)[OF p, of q] by (auto split: if_splits)
  qed (use pending_okD(1-3)[OF p] in \<open>auto split: if_splits\<close>)
  show "fiber_ok ?s woken q ((fs(r := Ended)) q)" for q
  proof (cases "q = r")
    case False
    then show ?thesis using http_okD(2)[OF ok, of q] unfolding fiber_ok_def ff by (simp split: responder.splits)
  qed (use w(7) in \<open>simp add: fiber_ok_def\<close>)
  show "log_ok ?s l" by (rule log_ok_remove[OF http_okD(3)[OF ok]]) auto
qed

lemma responseComplete_second_keeps:
  assumes ok: "http_ok s fs woken l" and r: "fs r = Finishing"
  shows "keeps (responseComplete_second r) (\<lambda>_ fs. fs(r := Ended)) s fs woken l"
proof -
  note p = http_okD(1)[OF ok] and inv = http_ok_invariant[OF ok] and w = writing_first[OF ok disjI2[OF r]]
  obtain ps where ps: "sv_pendingRequests s = r # ps" using w(5,6) by (cases "sv_pendingRequests s") auto
  have pop: "put_request r ((sv_request s r)\<lparr>rq_responseState := COMPLETE\<rparr>) s\<lparr>sv_pendingRequests := ps\<rparr> = popped r s"
    "sv_waitingResponses (popped r s) = sv_waitingResponses s" using ps by (simp_all add: popped_def)
  have pp: "sv_pendingRequests (popped r s) = ps" by (rule popped_first(1)[OF ok ps])
  consider (early) "\<not> state_done (req s r)" | (wake) n rest where "state_done (req s r)" "ps = n # rest" "n \<in> set (sv_waitingResponses s)"
    | (idle) "state_done (req s r)" "ps = [] \<or> hd ps \<notin> set (sv_waitingResponses s)" by (cases ps) auto
  then show ?thesis
  proof cases
    case early
    have "r \<notin> set (sv_waitingResponses s)" using pending_okD(6)[OF p, of r] w(3) by auto
    then have "responseComplete_second r s = Inr ((), [], put_request r ((sv_request s r)\<lparr>rq_responseState := COMPLETE\<rparr>) s)"
      using inv ps early unfolding responseComplete_second_def Let_def by simp
    then show ?thesis using complete_early[OF ok r early] by (auto intro!: keepsI)
  next
    case wake
    have nf: "is_first (pend (popped r s)) n" using popped_first(2)[OF ok ps wake(2)] by simp
    have "responseComplete_second r s = Inr ((), [Respond n], put_request n ((sv_request (popped r s) n)\<lparr>rq_responseState := HEADERS\<rparr>)
      ((popped r s)\<lparr>sv_waitingResponses := removeAll n (sv_waitingResponses s)\<rparr>))"
      using inv ps wake pop pp unfolding responseComplete_second_def Let_def by simp
    then show ?thesis using pop_wake[OF ok w(1) nf wake(3)] by (auto intro!: keepsI)
  next
    case idle
    have "responseComplete_second r s = Inr ((), [], popped r s)"
      using inv ps idle pop pp unfolding responseComplete_second_def Let_def by (cases ps) simp_all
    moreover have "q \<notin> set (sv_waitingResponses s)" if "is_first (pend (popped r s)) q" for q
      using that idle(2) popped_first(2,3)[OF ok ps] by (cases ps) auto
    ultimately show ?thesis using pop_idle[OF ok w(1)] by (auto intro!: keepsI)
  qed
qed

section \<open>The connection\<close>

text \<open>
  A request that was cancelled while it waited to respond: only \<open>cancel\<close> sets the state of a response to \<open>ERROR\<close>, and it leaves
  the request among those that wait.
\<close>

definition cancelled_waiting :: "server \<Rightarrow> nat \<Rightarrow> bool" where
  "cancelled_waiting s r \<longleftrightarrow> r \<in> set (sv_waitingResponses s) \<and> resp s r = ERROR"

text \<open>Afterwards every operation fails its assertion, and only the response that is being written goes on.\<close>

definition http_stuck :: "http_world \<Rightarrow> bool" where
  "http_stuck w \<longleftrightarrow>
     (\<exists>r. cancelled_waiting (hw_server w) r \<and> hw_fiber w r \<noteq> Writing) \<and> sorted (hw_log w) \<and>
     (\<forall>r. hw_fiber w r = Writing \<longrightarrow>
        r \<le> sv_priorResponseClosed (hw_server w) \<and> (\<forall>q. hw_fiber w q = Writing \<longrightarrow> q = r) \<and> (\<forall>x \<in> set (hw_log w). x \<le> r))"

lemma stuck_invariant: "cancelled_waiting s r \<Longrightarrow> \<not> server_invariant s"
  unfolding cancelled_waiting_def server_invariant_def by force

lemma stuck_fails:
  assumes "cancelled_waiting s r"
  shows "processRequests s = Inl Assertion" "processNextRequest q s = Inl Assertion" "requestComplete q s = Inl Assertion"
    and "commit_enter q s = Inl Assertion" "commit_resume q s = Inl Assertion" "commit_failed q s = Inl Assertion"
    and "responseComplete_first q s = Inl Assertion" "responseComplete_second q s = Inl Assertion"
    and "ServerRequest_cancel q s \<in> {Inr ((), [], s), Inl Assertion}"
proof -
  have "cancelled_waiting (put_request q ((sv_request s q)\<lparr>rq_pipeline := True\<rparr>) s) r" using assms by (auto simp: cancelled_waiting_def)
  then show "processNextRequest q s = Inl Assertion" by (simp add: processNextRequest_def Let_def stuck_invariant)
qed (simp_all add: stuck_invariant[OF assms] processRequests_def requestComplete_def commit_enter_def commit_resume_def commit_failed_def
      responseComplete_first_def responseComplete_second_def ServerRequest_cancel_def Let_def)

lemma stuck_cong:
  assumes "http_stuck w" "sv_waitingResponses (hw_server w') = sv_waitingResponses (hw_server w)"
    and "\<And>r. hw_fiber w r \<noteq> Writing \<Longrightarrow> resp (hw_server w') r = resp (hw_server w) r"
    and "sv_priorResponseClosed (hw_server w') = sv_priorResponseClosed (hw_server w)" "hw_log w' = hw_log w"
    and "\<And>r. hw_fiber w' r = Writing \<Longrightarrow> hw_fiber w r = Writing"
  shows "http_stuck w'"
proof -
  obtain r where "cancelled_waiting (hw_server w) r" "hw_fiber w r \<noteq> Writing" using assms(1) unfolding http_stuck_def by blast
  then have "cancelled_waiting (hw_server w') r" "hw_fiber w' r \<noteq> Writing" using assms(2) assms(3,6)[of r] by (auto simp: cancelled_waiting_def)
  then show ?thesis using assms(1) assms(6) unfolding http_stuck_def assms(4,5) by metis
qed

lemma stuck_step:
  assumes st: "http_stuck w" and g: "http_guard a w"
  shows "http_stuck (http_act a w)"
proof -
  obtain r0 where "cancelled_waiting (hw_server w) r0" using st unfolding http_stuck_def by blast
  note fails = stuck_fails[OF this]
  have failed: "http_stuck (w\<lparr>hw_failed := True\<rparr>)" "http_stuck (w\<lparr>hw_woken := v, hw_failed := True\<rparr>)" for v
    by (rule stuck_cong[OF st]; simp)+
  show ?thesis
  proof (cases a)
    case (Cancel r)
    have "http_stuck (w\<lparr>hw_fiber := (hw_fiber w)(r := cancelled_at (hw_fiber w r)), hw_woken := hw_woken w\<rparr>)"
      by (rule stuck_cong[OF st]) (auto split: if_splits elim: cancelled_at.elims)
    then show ?thesis using Cancel fails(9)[of r] failed by (auto simp: run_op_def)
  next
    case (WriteByte r)
    then show ?thesis using st g unfolding http_stuck_def by (auto simp: sorted_append)
  next
    case (HeadersWritten r)
    then show ?thesis using g by (auto simp: run_op_def intro!: stuck_cong[OF st])
  qed (use failed fails in \<open>auto simp: run_op_def set_requestState_def parse_error_def intro!: stuck_cong[OF st]\<close>)
qed

lemma cancel_waiting_stuck:
  assumes ok: "http_ok s fs woken l" and r: "r \<in> set (sv_waitingResponses s)" and few: "sv_requestCount s < npos"
  shows "\<exists>ws s'. ServerRequest_cancel r s = Inr ((), ws, s') \<and> cancelled_waiting s' r \<and> sv_priorResponseClosed s' = sv_priorResponseClosed s"
proof -
  note p = http_okD(1)[OF ok]
  have w: "r \<in> pend s" "resp s r = WAITING" using pending_okD(6)[OF p, of r] r by auto
  then have "r < npos" using pending_okD(2)[OF p, of r] few by simp
  define q1 where "q1 = (if \<not> state_done (req s r) then (sv_request s r)\<lparr>rq_requestState := ERROR\<rparr> else sv_request s r)"
  define t where "t = put_request r (q1\<lparr>rq_responseState := ERROR\<rparr>)
    (s\<lparr>sv_priorRequestFailed := min (sv_priorRequestFailed s) r, sv_pendingRequests := removeAll r (sv_pendingRequests s)\<rparr>)"
  have "rq_responseState q1 = WAITING" using w(2) by (simp add: q1_def)
  then have c: "ServerRequest_cancel r s = scheduleAllWaitingResponses t"
    using w(2) http_ok_invariant[OF ok] by (simp add: ServerRequest_cancel_def Let_def t_def q1_def)
  have "distinct (sv_pendingRequests s)" using pending_okD(1)[OF p] strict_sorted_iff by blast
  then have "distinct (sv_pendingRequests t)" by (simp add: t_def distinct_removeAll)
  note loop = schedule_all_loop_eq[OF this]
  have mark: "sv_priorRequestFailed t \<noteq> npos" and "r \<notin> pend t" "r \<in> set (sv_waitingResponses t)" "resp t r = ERROR"
    "sv_priorResponseClosed t = sv_priorResponseClosed s"
    using r \<open>r < npos\<close> by (simp_all add: t_def min_def)
  then show ?thesis unfolding c scheduleAllWaitingResponses_def loop by (simp add: cancelled_waiting_def)
qed

definition http_inv :: "http_world \<Rightarrow> bool" where
  "http_inv w \<longleftrightarrow>
     http_stuck w \<or>
     http_ok (hw_server w) (hw_fiber w) (hw_woken w) (hw_log w) \<and> (hw_failed w \<longrightarrow> (\<exists>r. hw_fiber w r = Aborted))"

lemma http_ok_writers:
  assumes "http_ok s fs woken l" "fs r = Writing"
  shows "r \<le> sv_priorResponseClosed s" "fs q = Writing \<Longrightarrow> q = r" "x \<in> set l \<Longrightarrow> x \<le> r"
proof -
  note w = writing_first[OF assms(1)]
  show "r \<le> sv_priorResponseClosed s" using http_okD(2)[OF assms(1), of r] assms(2) by (simp add: fiber_ok_def)
  show "fs q = Writing \<Longrightarrow> q = r" using is_first_unique w(1) assms(2) by blast
  show "x \<in> set l \<Longrightarrow> x \<le> r" using http_okD(3)[OF assms(1)] w(2)[of r] assms(2) by (simp add: log_ok_def)
qed

lemma http_start_inv: "http_inv (http_start junk)"
  by (auto simp: http_inv_def http_start_def http_ok_def ServerConnection_new_def pending_ok_def fiber_ok_def log_ok_def)

text \<open>A request that was cancelled while its response was written: completing it fails.\<close>

definition step_ok :: "http_world \<Rightarrow> http_world \<Rightarrow> bool" where
  "step_ok w w' \<longleftrightarrow>
     http_ok (hw_server w') (hw_fiber w') (hw_woken w') (hw_log w') \<and> (hw_failed w' \<longrightarrow> hw_failed w \<or> (\<exists>r. hw_fiber w r = Aborted))"

lemma run_op_ok: "keeps f k (hw_server w) (hw_fiber w) (hw_woken w) (hw_log w) \<Longrightarrow> step_ok w (run_op f k w)"
  by (auto simp: keeps_def run_op_def step_ok_def)

lemma run_op_aborted:
  "f (hw_server w) = Inl e \<Longrightarrow> hw_fiber w r = Aborted \<Longrightarrow> http_ok (hw_server w) (hw_fiber w) (hw_woken w) (hw_log w) \<Longrightarrow> step_ok w (run_op f k w)"
  by (auto simp: run_op_def step_ok_def)

lemma aborted_fails:
  assumes "http_ok s fs woken l" "fs r = Aborted"
  shows "responseComplete_first r s = Inl Assertion" "responseComplete_second r s = Inl Assertion"
proof -
  have "r \<notin> pend s" using http_okD(2)[OF assms(1), of r] assms(2) by (simp add: fiber_ok_def)
  then have "sv_pendingRequests s \<noteq> [] \<Longrightarrow> r \<noteq> hd (sv_pendingRequests s)" by auto
  then show "responseComplete_first r s = Inl Assertion" "responseComplete_second r s = Inl Assertion"
    using http_ok_invariant[OF assms(1)] by (auto simp: responseComplete_first_def responseComplete_second_def ensure_def)
qed

lemma committed_other: "q \<noteq> r \<Longrightarrow> committed r x fs q = fs q"
  by (cases x) auto

lemma aborted_stays:
  assumes "http_ok (hw_server w) (hw_fiber w) (hw_woken w) (hw_log w)" "http_guard a w" "hw_fiber w q = Aborted"
  shows "hw_fiber (http_act a w) q = Aborted"
proof -
  note fails = aborted_fails[OF assms(1)]
  show ?thesis
  proof (cases a)
    case (Commit r)
    then show ?thesis using assms(2,3) by (cases "q = r") (auto simp: run_op_def committed_other split: sum.splits)
  next
    case (Resume r)
    then show ?thesis using assms(2,3) by (cases "q = r") (auto simp: run_op_def committed_other split: sum.splits)
  qed (use assms(2,3) fails in \<open>auto simp: run_op_def split: sum.splits\<close>)
qed

lemma http_act_ok:
  assumes ok: "http_ok (hw_server w) (hw_fiber w) (hw_woken w) (hw_log w)" and a: "http_allows a w"
    and c: "\<And>r. a = Cancel r \<Longrightarrow> r \<notin> set (sv_waitingResponses (hw_server w))"
  shows "step_ok w (http_act a w)"
proof -
  let ?s = "hw_server w"
  have few: "sv_requestCount ?s < npos" and g: "http_guard a w" using a by (simp_all add: http_allows_def)
  show ?thesis
  proof (cases a)
    case (ReadBody r)
    have "http_ok (put_request r ((sv_request ?s r)\<lparr>rq_requestState := BODY\<rparr>) ?s) (hw_fiber w) (hw_woken w) (hw_log w)"
      by (rule http_ok_cong[OF ok]) (use g ReadBody in auto)
    then show ?thesis using ReadBody by (auto intro!: run_op_ok simp: keeps_def set_requestState_def)
  next
    case (ParseError r)
    have "resp ?s r \<noteq> COMPLETE" using handling_pending[OF ok, of r] g ParseError by auto
    then have "http_ok (put_request r ((sv_request ?s r)\<lparr>rq_requestState := ERROR\<rparr>) ?s) (hw_fiber w) (hw_woken w) (hw_log w)"
      using set_request_done[OF ok, of r ERROR] by simp
    then have "http_ok (put_request r ((sv_request ?s r)\<lparr>rq_requestState := ERROR\<rparr>) ?s\<lparr>sv_priorRequestClosed := r\<rparr>)
      (hw_fiber w) (hw_woken w) (hw_log w)" by (rule http_ok_cong) auto
    then show ?thesis using ParseError by (auto intro!: run_op_ok simp: keeps_def parse_error_def)
  next
    case (RequestError r)
    have "resp ?s r \<noteq> COMPLETE" using handling_pending[OF ok, of r] g RequestError by auto
    then show ?thesis using set_request_done[OF ok, of r ERROR] RequestError by (auto intro!: run_op_ok simp: keeps_def set_requestState_def)
  next
    case (WillClose r)
    have "http_ok (put_request r ((sv_request ?s r)\<lparr>rq_willClose := True\<rparr>) ?s) (hw_fiber w) (hw_woken w) (hw_log w)"
      by (rule http_ok_cong[OF ok]) (use g WillClose in auto)
    then show ?thesis using WillClose by (auto intro!: run_op_ok simp: keeps_def)
  next
    case (Resume r)
    then show ?thesis using run_op_ok[of "commit_resume r" "committed r" "w\<lparr>hw_woken := removeAll r (hw_woken w)\<rparr>"]
      commit_resume_keeps[OF ok, of r] g few by (simp add: step_ok_def)
  next
    case (HeadersWritten r)
    then show ?thesis using headers_written[OF ok, of r] g by (auto intro!: run_op_ok simp: keeps_def)
  next
    case (WriteByte r)
    then have "is_first (pend ?s) r" "r \<le> sv_requestCount ?s" using writing_first(1,7)[OF ok, of r] g by auto
    then have "log_ok ?s (hw_log w @ [r])" using http_okD(3)[OF ok] by (auto simp: log_ok_def is_first_def sorted_append)
    then show ?thesis using WriteByte ok by (simp add: step_ok_def http_ok_def)
  next
    case (ResponseDone r)
    then show ?thesis using g run_op_aborted[of "responseComplete_first r", OF aborted_fails(1)[OF ok] _ ok] run_op_ok[OF responseComplete_first_keeps[OF ok, of r]] by auto
  next
    case (ResponseDone2 r)
    then show ?thesis using g run_op_aborted[of "responseComplete_second r", OF aborted_fails(2)[OF ok] _ ok] run_op_ok[OF responseComplete_second_keeps[OF ok, of r]] by auto
  qed (use g few c in \<open>auto intro!: run_op_ok processRequests_keeps[OF ok] processNextRequest_keeps[OF ok] requestComplete_keeps[OF ok]
      commit_enter_keeps[OF ok] commit_failed_keeps[OF ok] cancel_keeps[OF ok]\<close>)
qed

lemma http_act_inv:
  assumes inv: "http_inv w" and a: "http_allows a w"
  shows "http_inv (http_act a w)"
proof -
  let ?s = "hw_server w"
  have g: "http_guard a w" and few: "sv_requestCount ?s < npos" using a by (simp_all add: http_allows_def)
  consider (stuck) "http_stuck w" | (ok) "http_ok ?s (hw_fiber w) (hw_woken w) (hw_log w)" "hw_failed w \<longrightarrow> (\<exists>r. hw_fiber w r = Aborted)"
    using inv unfolding http_inv_def by blast
  then show ?thesis
  proof cases
    case stuck
    then show ?thesis using stuck_step[OF stuck g] by (simp add: http_inv_def)
  next
    case ok
    note wr = http_ok_writers[OF ok(1)]
    show ?thesis
    proof (cases "\<exists>r. a = Cancel r \<and> r \<in> set (sv_waitingResponses ?s)")
      case True
      then obtain r where r: "a = Cancel r" "r \<in> set (sv_waitingResponses ?s)" by blast
      obtain ws s' where c: "ServerRequest_cancel r ?s = Inr ((), ws, s')" "cancelled_waiting s' r"
        "sv_priorResponseClosed s' = sv_priorResponseClosed ?s"
        using cancel_waiting_stuck[OF ok(1) r(2) few] by blast
      have "resp ?s r = WAITING" using pending_okD(6)[OF http_okD(1)[OF ok(1)], of r] r(2) by simp
      then have nw: "hw_fiber w r \<noteq> Writing" using writing_first(3)[OF ok(1), of r] by auto
      have at: "((hw_fiber w)(r := cancelled_at (hw_fiber w r))) q = Writing \<longleftrightarrow> hw_fiber w q = Writing" for q
        using nw by (cases "hw_fiber w r") auto
      have "http_stuck (http_act a w)"
        unfolding http_stuck_def using r(1) c at nw wr http_okD(3)[OF ok(1)] by (auto simp: run_op_def log_ok_def)
      then show ?thesis by (simp add: http_inv_def)
    next
      case False
      then show ?thesis using http_act_ok[OF ok(1) a] aborted_stays[OF ok(1) g] ok(2) unfolding http_inv_def step_ok_def by blast
    qed
  qed
qed

lemma http_reach_inv: "http_reach w \<Longrightarrow> http_inv w"
  by (induction rule: http_reach.induct) (auto intro: http_start_inv http_act_inv)


text \<open>Two requests in a pipeline; the handler of the second is faster.\<close>

definition pipeline_demo :: "http_action list" where
  "pipeline_demo = [Process, ProcessNext 1, RequestDone 1, RequestDone 2, Commit 2]"

definition pipeline_rest :: "http_action list" where
  "pipeline_rest = [Commit 1, WriteByte 1, HeadersWritten 1, WriteByte 1, ResponseDone 1, Resume 2, WriteByte 2]"

abbreviation demo_start :: http_world where
  "demo_start \<equiv> http_start (\<lambda>_. ServerRequest_new)"

lemmas server_simps = http_allows_def run_op_def http_start_def ServerConnection_new_def ServerRequest_new_def processRequests_def processNextRequest_def
  scheduleNextRequest_def server_invariant_def requestComplete_def then_op_def commit_enter_def commit_resume_def responseComplete_first_def
  scheduleAllWaitingResponses_def woken_by_def Let_def npos_def

lemma pipeline_demo_enabled: "all_enabled http_allows http_act (pipeline_demo @ pipeline_rest) demo_start"
  by (simp add: pipeline_demo_def pipeline_rest_def server_simps)

lemma pipeline_demo_reach:
  "http_reach (fold http_act pipeline_demo demo_start)" "http_reach (fold http_act (pipeline_demo @ pipeline_rest) demo_start)"
proof -
  have "all_enabled http_allows http_act pipeline_demo demo_start" by (simp add: pipeline_demo_def pipeline_rest_def server_simps)
  then show "http_reach (fold http_act pipeline_demo demo_start)" by (rule http_runs.reach_fold[OF http_init])
  show "http_reach (fold http_act (pipeline_demo @ pipeline_rest) demo_start)" by (rule http_runs.reach_fold[OF http_init pipeline_demo_enabled])
qed




section \<open>What the code does not keep\<close>

text \<open>
  Cancelling a request that waits to respond leaves it among the waiting ones, though it is no longer pending: nobody
  schedules its fiber, and the next operation finds the invariant broken.
\<close>

definition cancel_demo :: "http_action list" where
  "cancel_demo = pipeline_demo @ [Cancel 2, Commit 1]"

lemma cancel_waiting_breaks:
  "all_enabled http_allows http_act cancel_demo demo_start"
  "hw_failed (fold http_act cancel_demo demo_start) \<and> cancelled_waiting (hw_server (fold http_act cancel_demo demo_start)) 2 \<and>
   hw_fiber (fold http_act cancel_demo demo_start) 2 = Blocked \<and> hw_woken (fold http_act cancel_demo demo_start) = []"
  by (simp_all add: cancel_demo_def pipeline_demo_def server_simps ServerRequest_cancel_def cancelled_waiting_def)

text \<open>A request that is cancelled after its response was written, but before \<open>responseComplete\<close> holds the mutex, is no longer pending there.\<close>

definition cancel_late_demo :: "http_action list" where
  "cancel_late_demo = [Process, RequestDone 1, Commit 1, WriteByte 1, Cancel 1, ResponseDone 1]"

lemma cancel_writing_breaks:
  "all_enabled http_allows http_act cancel_late_demo demo_start"
  "hw_failed (fold http_act cancel_late_demo demo_start) \<and> hw_fiber (fold http_act cancel_late_demo demo_start) 1 = Aborted"
  by (simp_all add: cancel_late_demo_def server_simps ServerRequest_cancel_def)

text \<open>
  If the request is read to its end after the response was flushed, but before the second critical section of \<open>responseComplete\<close>,
  then neither of the two schedules the next request: the connection stays open and reads no more.
\<close>

definition idle_demo :: "http_action list" where
  "idle_demo = [Process, Commit 1, WriteByte 1, ResponseDone 1, RequestDone 1, ResponseDone2 1]"

lemma next_request_lost:
  "all_enabled http_allows http_act idle_demo demo_start"
  "let s = hw_server (fold http_act idle_demo demo_start)
   in sv_pendingRequests s = [] \<and> sv_requestCount s = 1 \<and> req s 1 = COMPLETE \<and> resp s 1 = COMPLETE \<and> \<not> rq_willClose (sv_request s 1) \<and>
      sv_priorRequestFailed s = npos \<and> sv_priorRequestClosed s = npos \<and> sv_priorResponseClosed s = npos"
  by (simp_all add: idle_demo_def server_simps responseComplete_second_def)

end
