(* ===== verification/Uri_Escape.thy ===== *)
theory Uri_Escape
  imports Strings_Text
begin

text \<open>
  Percent encoding of uri.rl: \<open>escape\<close> and \<open>unescape\<close>, with the classes of characters that may stand for themselves in
  each part of a URI, and \<open>URI::encode\<close> and \<open>URI::decode\<close>.
\<close>

section \<open>Model\<close>

definition alnum :: "byte list" where
  "alnum = ''abcdefghijklmnopqrstuvwxyzABCDEFGHIJKLMNOPQRSTUVWXYZ0123456789''"

definition sub_delims_chars :: "byte list" where
  "sub_delims_chars = ''!$&'' @ [CHR 0x27] @ ''()*+,;=''"

definition unreserved_chars :: "byte list" where
  "unreserved_chars = alnum @ ''-._~''"

definition scheme_chars :: "byte list" where
  "scheme_chars = alnum @ ''+-.''"

definition userinfo_chars :: "byte list" where
  "userinfo_chars = unreserved_chars @ sub_delims_chars @ '':''"

definition host_chars :: "byte list" where
  "host_chars = unreserved_chars @ sub_delims_chars @ '':''"

definition pchar_chars :: "byte list" where
  "pchar_chars = unreserved_chars @ sub_delims_chars @ '':@''"

definition segment_nc_chars :: "byte list" where
  "segment_nc_chars = unreserved_chars @ sub_delims_chars @ ''@''"

definition query_chars :: "byte list" where
  "query_chars = unreserved_chars @ sub_delims_chars @ '':@'' @ ''/?''"

definition queryString_chars :: "byte list" where
  "queryString_chars = unreserved_chars @ ''!$'' @ [CHR 0x27] @ ''()*,'' @ '':@'' @ ''/?''"

lemmas uri_chars = alnum_def sub_delims_chars_def unreserved_chars_def scheme_chars_def userinfo_chars_def host_chars_def pchar_chars_def
  segment_nc_chars_def query_chars_def queryString_chars_def

definition hexdigits :: "byte list" where
  "hexdigits = ''0123456789ABCDEF''"

text \<open>
  The loop of \<open>escape\<close>: \<open>i\<close> characters are done; the result begins as a copy of the string and is cut off at the first character
  that differs.
\<close>

fun escape_loop :: "byte list \<Rightarrow> bool \<Rightarrow> bool \<Rightarrow> nat \<Rightarrow> byte list \<Rightarrow> byte list \<Rightarrow> byte list \<times> bool" where
  "escape_loop allowedChars spaceAsPlus differed i res [] = (res, differed)"
| "escape_loop allowedChars spaceAsPlus differed i res (c # cs) =
     (if c \<notin> set allowedChars then
        let r = (if differed then res else take i res)
        in escape_loop allowedChars spaceAsPlus True (i + 1)
             (if c = CHR '' '' \<and> spaceAsPlus then r @ ''+''
              else r @ [CHR ''%'', hexdigits ! (of_char c div 16), hexdigits ! (of_char c mod 16)]) cs
      else escape_loop allowedChars spaceAsPlus differed (i + 1) (if differed then res @ [c] else res) cs)"

definition escape :: "byte list \<Rightarrow> byte list \<Rightarrow> bool \<Rightarrow> byte list result" where
  "escape str allowedChars spaceAsPlus =
     (case escape_loop allowedChars spaceAsPlus False 0 str str of
        (res, differed) \<Rightarrow>
          if differed then ensure (length res \<ge> length str) (Inr res)
          else ensure (res = str) (Inr res))"

fun unescape_loop :: "bool \<Rightarrow> bool \<Rightarrow> nat \<Rightarrow> byte list \<Rightarrow> byte list \<Rightarrow> byte list result" where
  "unescape_loop spaceAsPlus differed i res [] = Inr res"
| "unescape_loop spaceAsPlus differed i res (c # cs) =
     (if c = CHR ''%'' then
        (case cs of
           d # e # rest \<Rightarrow>
             (case hex_value d of
                None \<Rightarrow> Inl InvalidArgument
              | Some h \<Rightarrow>
                  (case hex_value e of
                     None \<Rightarrow> Inl InvalidArgument
                   | Some l \<Rightarrow>
                       unescape_loop spaceAsPlus True (i + 3) ((if differed then res else take i res) @ [char_of (16 * h + l)]) rest))
         | _ \<Rightarrow> Inl InvalidArgument)
      else if c = CHR ''+'' \<and> spaceAsPlus then
        unescape_loop spaceAsPlus True (i + 1) ((if differed then res else take i res) @ '' '') cs
      else unescape_loop spaceAsPlus differed (i + 1) (if differed then res @ [c] else res) cs)"

definition unescape :: "byte list \<Rightarrow> bool \<Rightarrow> byte list result" where
  "unescape str spaceAsPlus = unescape_loop spaceAsPlus False 0 str str"

datatype character_class = UNRESERVED | QUERYSTRING

fun URI_encode :: "byte list \<Rightarrow> character_class \<Rightarrow> byte list result" where
  "URI_encode str UNRESERVED = escape str unreserved_chars False"
| "URI_encode str QUERYSTRING = escape str queryString_chars True"

fun URI_decode :: "byte list \<Rightarrow> character_class \<Rightarrow> byte list result" where
  "URI_decode str UNRESERVED = unescape str False"
| "URI_decode str QUERYSTRING = unescape str True"

section \<open>What the loops compute\<close>

definition escape_char :: "byte list \<Rightarrow> bool \<Rightarrow> byte \<Rightarrow> byte list" where
  "escape_char allowed sp c =
     (if c \<in> set allowed then [c]
      else if c = CHR '' '' \<and> sp then ''+''
      else [CHR ''%'', hexdigits ! (of_char c div 16), hexdigits ! (of_char c mod 16)])"

abbreviation escaped :: "byte list \<Rightarrow> bool \<Rightarrow> byte list \<Rightarrow> byte list" where
  "escaped allowed sp s \<equiv> concat (map (escape_char allowed sp) s)"

lemma escaped_all: "set s \<subseteq> set allowed \<Longrightarrow> escaped allowed sp s = s"
  by (induction s) (auto simp: escape_char_def)

lemma escape_loop_eq:
  "escape_loop allowed sp differed (length d) (if differed then escaped allowed sp d else d @ s) s =
     (if differed \<or> \<not> set s \<subseteq> set allowed then (escaped allowed sp (d @ s), True) else (d @ s, False))"
  if "differed \<or> set d \<subseteq> set allowed"
  using that
proof (induction s arbitrary: d differed)
  case (Cons c s)
  have d: "\<not> differed \<Longrightarrow> escaped allowed sp d = d" using Cons.prems escaped_all by blast
  show ?case
  proof (cases "c \<in> set allowed")
    case True
    then have "escape_char allowed sp c = [c]" by (simp add: escape_char_def)
    then show ?thesis using True Cons.IH[of differed "d @ [c]"] Cons.prems by (cases differed) simp_all
  next
    case False
    then have "escape_char allowed sp c = (if c = CHR '' '' \<and> sp then ''+'' else [CHR ''%'', hexdigits ! (of_char c div 16), hexdigits ! (of_char c mod 16)])"
      by (simp add: escape_char_def)
    then show ?thesis using False Cons.IH[of True "d @ [c]"] d by (cases differed; cases "c = CHR '' '' \<and> sp") (auto simp: Let_def)
  qed
qed auto

lemma length_escaped: "length s \<le> length (escaped allowed sp s)"
  by (induction s) (auto simp: escape_char_def)

lemma escape_eq: "escape str allowed sp = Inr (escaped allowed sp str)"
  using escape_loop_eq[of False "[]" allowed sp str] length_escaped[of str allowed sp] escaped_all[of str allowed sp]
  by (auto simp: escape_def ensure_def)

fun unescaped :: "bool \<Rightarrow> byte list \<Rightarrow> byte list result" where
  "unescaped sp [] = Inr []"
| "unescaped sp (c # cs) =
     (if c = CHR ''%'' then
        (case cs of
           d # e # rest \<Rightarrow>
             (case (hex_value d, hex_value e) of
                (Some h, Some l) \<Rightarrow> andThen (unescaped sp rest) (\<lambda>r. Inr (char_of (16 * h + l) # r))
              | _ \<Rightarrow> Inl InvalidArgument)
         | _ \<Rightarrow> Inl InvalidArgument)
      else andThen (unescaped sp cs) (\<lambda>r. Inr ((if c = CHR ''+'' \<and> sp then CHR '' '' else c) # r)))"

lemma unescape_loop_eq:
  "unescape_loop sp differed i (if differed then out else out @ s) s = andThen (unescaped sp s) (\<lambda>r. Inr (out @ r))"
  if "differed \<or> length out = i"
  using that
proof (induction sp s arbitrary: differed i out rule: unescaped.induct)
  case (2 sp c cs)
  consider (pct) "c = CHR ''%''" | (sp) "c = CHR ''+''" "sp" | (plain) "c \<noteq> CHR ''%''" "\<not> (c = CHR ''+'' \<and> sp)" by blast
  then show ?case
  proof cases
    case pct
    have cut: "(if differed then (if differed then out else out @ c # cs) else take i (if differed then out else out @ c # cs)) = out"
      using 2(3) by auto
    show ?thesis
    proof (cases cs)
      case (Cons d cs')
      show ?thesis
      proof (cases cs')
        case (Cons e rest)
        show ?thesis
        proof (cases "hex_value d")
          case (Some h)
          show ?thesis
          proof (cases "hex_value e")
            case l: (Some l)
            show ?thesis
              using 2(1)[OF pct \<open>cs = d # cs'\<close> Cons refl Some l, of True "out @ [char_of (16 * h + l)]" "i + 3"] cut
              by (simp add: pct \<open>cs = d # cs'\<close> Cons Some l andThen_def split: sum.splits)
          qed (simp add: pct \<open>cs = d # cs'\<close> Cons Some)
        qed (simp add: pct \<open>cs = d # cs'\<close> Cons)
      qed (simp add: pct \<open>cs = d # cs'\<close>)
    qed (simp add: pct)
  next
    case sp
    then show ?thesis using 2(2)[of True "out @ '' ''" "i + 1"] 2(3) by (auto simp: andThen_def split: sum.splits)
  next
    case plain
    then show ?thesis using 2(2)[of differed "out @ [c]" "i + 1"] 2(3) by (cases differed) (auto simp: andThen_def split: sum.splits)
  qed
qed simp

lemma unescape_eq: "unescape str sp = unescaped sp str"
  using unescape_loop_eq[of False "[]" 0 sp str] by (cases "unescaped sp str") (simp_all add: unescape_def)

lemma hexdigit_value: "n < 16 \<Longrightarrow> hex_value (hexdigits ! n) = Some n"
proof -
  have "\<forall>n \<in> set [0..<16]. hex_value (hexdigits ! n) = Some n" by code_simp
  then show "n < 16 \<Longrightarrow> hex_value (hexdigits ! n) = Some n" by simp
qed

lemma hexdigit_alnum: "n < 16 \<Longrightarrow> hexdigits ! n \<in> set alnum"
proof -
  have "\<forall>n \<in> set [0..<16]. hexdigits ! n \<in> set alnum" by code_simp
  then show "n < 16 \<Longrightarrow> hexdigits ! n \<in> set alnum" by simp
qed

lemma of_char_nibbles: "(of_char c :: nat) div 16 < 16" "(of_char c :: nat) mod 16 < 16"
  using nat_of_char_less_256[of c] by (simp_all add: div_less_iff_less_mult)

text \<open>Escaping can be undone unless the marks of the encoding stand for themselves.\<close>

lemma unescaped_pct:
  "h < 16 \<Longrightarrow> l < 16 \<Longrightarrow> unescaped sp ([CHR ''%'', hexdigits ! h, hexdigits ! l] @ r) = andThen (unescaped sp r) (\<lambda>t. Inr (char_of (16 * h + l) # t))"
  by (simp add: hexdigit_value)

lemma unescaped_escape_char:
  assumes "CHR ''%'' \<notin> set allowed" "sp \<Longrightarrow> CHR ''+'' \<notin> set allowed"
  shows "unescaped sp (escape_char allowed sp c @ r) = andThen (unescaped sp r) (\<lambda>t. Inr (c # t))"
proof -
  consider (plain) "c \<in> set allowed" | (space) "c \<notin> set allowed" "c = CHR '' ''" sp | (pct) "c \<notin> set allowed" "\<not> (c = CHR '' '' \<and> sp)" by blast
  then show ?thesis
  proof cases
    case plain
    then have "c \<noteq> CHR ''%''" "\<not> (c = CHR ''+'' \<and> sp)" using assms by auto
    then show ?thesis using plain by (cases "c = CHR ''+''") (simp_all add: escape_char_def)
  next
    case space
    then show ?thesis by (simp add: escape_char_def)
  next
    case pct
    have e: "escape_char allowed sp c = [CHR ''%'', hexdigits ! (of_char c div 16), hexdigits ! (of_char c mod 16)]"
      using pct by (simp add: escape_char_def)
    have c: "char_of (16 * (of_char c div 16) + of_char c mod 16) = c" by simp
    show ?thesis using unescaped_pct[OF of_char_nibbles[of c], of sp r] unfolding e c .
  qed
qed

lemma unescaped_escaped:
  assumes "CHR ''%'' \<notin> set allowed" "sp \<Longrightarrow> CHR ''+'' \<notin> set allowed"
  shows "unescaped sp (escaped allowed sp s) = Inr s"
  using unescaped_escape_char[OF assms] by (induction s) simp_all

lemma escaped_chars:
  "set (escaped allowed sp s) \<subseteq> set allowed \<union> {CHR ''%''} \<union> (if sp then {CHR ''+''} else {}) \<union> set alnum"
  using hexdigit_alnum[OF of_char_nibbles(1)] hexdigit_alnum[OF of_char_nibbles(2)] by (auto simp: escape_char_def split: if_splits)

text \<open>The classes of the encoding contain no mark of it.\<close>

lemma class_marks:
  "CHR ''%'' \<notin> set unreserved_chars" "CHR ''%'' \<notin> set queryString_chars" "CHR ''+'' \<notin> set queryString_chars" "CHR ''%'' \<notin> set query_chars"
  by (simp_all add: uri_chars)

fun class_chars :: "character_class \<Rightarrow> byte set" where
  "class_chars UNRESERVED = set unreserved_chars \<union> {CHR ''%''}"
| "class_chars QUERYSTRING = set queryString_chars \<union> {CHR ''%'', CHR ''+''}"

lemma alnum_classes: "set alnum \<subseteq> set unreserved_chars" "set alnum \<subseteq> set queryString_chars" "set alnum \<subseteq> set query_chars" "set alnum \<subseteq> set scheme_chars"
  "set alnum \<subseteq> set userinfo_chars" "set alnum \<subseteq> set host_chars" "set alnum \<subseteq> set pchar_chars" "set alnum \<subseteq> set segment_nc_chars"
  by (auto simp: unreserved_chars_def queryString_chars_def query_chars_def scheme_chars_def userinfo_chars_def host_chars_def pchar_chars_def segment_nc_chars_def)

text \<open>
  C21. \<open>URI::encode\<close> never fails its assertions, its result has only characters of the class and the marks of the encoding, and
  \<open>URI::decode\<close> with the same class gives back the string, whatever bytes it has.
\<close>

theorem uri_escape_roundtrip:
  "\<exists>t. URI_encode str cls = Inr t \<and> set t \<subseteq> class_chars cls \<and> URI_decode t cls = Inr str"
proof (cases cls)
  case UNRESERVED
  then show ?thesis using escaped_chars[of unreserved_chars False str] alnum_classes(1) unescaped_escaped[of unreserved_chars False str] class_marks(1)
    by (auto simp: escape_eq unescape_eq)
next
  case QUERYSTRING
  then show ?thesis using escaped_chars[of queryString_chars True str] alnum_classes(2) unescaped_escaped[of queryString_chars True str] class_marks(2,3)
    by (auto simp: escape_eq unescape_eq)
qed

text \<open>When \<open>unescape\<close> throws: at a percent sign that two hexadecimal digits do not follow.\<close>

fun well_escaped :: "byte list \<Rightarrow> bool" where
  "well_escaped [] = True"
| "well_escaped (c # cs) =
     (if c = CHR ''%''
      then (case cs of d # e # rest \<Rightarrow> hex_value d \<noteq> None \<and> hex_value e \<noteq> None \<and> well_escaped rest | _ \<Rightarrow> False)
      else well_escaped cs)"

lemma unescape_fails: "if well_escaped str then \<exists>t. unescape str sp = Inr t else unescape str sp = Inl InvalidArgument"
  unfolding unescape_eq
proof (induction sp str rule: unescaped.induct)
  case (2 sp c cs)
  show ?case
  proof (cases "c = CHR ''%''")
    case pct: True
    consider "cs = []" | d where "cs = [d]" | d e rest where "cs = d # e # rest" by (cases cs; cases "tl cs") auto
    then show ?thesis
    proof cases
      case (3 d e rest)
      show ?thesis
      proof (cases "\<exists>h l. hex_value d = Some h \<and> hex_value e = Some l")
        case True
        then obtain h l where hl: "hex_value d = Some h" "hex_value e = Some l" by blast
        show ?thesis using 2(1)[OF pct 3 refl refl hl] by (cases "well_escaped rest") (auto simp: pct 3 hl)
      next
        case False
        then show ?thesis by (cases "hex_value d"; cases "hex_value e") (auto simp: pct 3)
      qed
    qed (simp_all add: pct)
  next
    case False
    then show ?thesis using 2(2)[OF False] by (cases "well_escaped cs") auto
  qed
qed simp

end
