(* ===== verification/Uri_Path.thy ===== *)
theory Uri_Path
  imports Uri_Escape
begin

text \<open>
  \<open>URI::Path\<close> of uri.h and uri.rl: a list of segments, where an empty first segment makes the path absolute and an empty last one is a
  trailing slash. The pointer to the URI that a path belongs to only matters for \<open>append\<close>, which asks it whether a
  host is defined.
\<close>

section \<open>Model\<close>

type_synonym path = "byte list list"

definition Path_isEmpty :: "path \<Rightarrow> bool" where
  "Path_isEmpty p \<longleftrightarrow> p = [] \<or> (length p = 1 \<and> hd p = [])"

definition Path_isAbsolute :: "path \<Rightarrow> bool" where
  "Path_isAbsolute p \<longleftrightarrow> length p > 1 \<and> hd p = []"

definition Path_isRelative :: "path \<Rightarrow> bool" where
  "Path_isRelative p \<longleftrightarrow> \<not> Path_isAbsolute p"

definition Path_makeAbsolute :: "path \<Rightarrow> path" where
  "Path_makeAbsolute p = (if p = [] then [[], []] else if hd p \<noteq> [] then [] # p else p)"

definition Path_makeRelative :: "path \<Rightarrow> path" where
  "Path_makeRelative p =
     (if p \<noteq> [] \<and> hd p = [] then (let p' = tl p in if length p' = 1 \<and> hd p' = [] then [] else p') else p)"

definition Path_append :: "bool \<Rightarrow> byte list \<Rightarrow> path \<Rightarrow> path" where
  "Path_append hostDefined segment p =
     (if p = [] \<and> hostDefined then [[], segment]
      else if p = [] \<or> last p \<noteq> [] \<or> (length p = 1 \<and> hd p = []) then p @ [segment]
      else butlast p @ [segment])"

text \<open>
  \<open>removeDotComponents\<close>. Where the code decrements \<open>i\<close> and continues, the increment of the loop undoes one step, also
  where \<open>i\<close> wraps around below zero.
\<close>

function dots_loop :: "nat \<Rightarrow> path \<Rightarrow> path" where
  "dots_loop i p =
     (if i < length p then
        if i = 0 \<and> p ! i = [] then dots_loop (i + 1) p
        else if p ! i = ''.'' then
          if i + 1 = length p then dots_loop (i + 1) (p[i := []])
          else dots_loop i (take i p @ drop (i + 1) p)
        else if p ! i = ''..'' then
          if i = 0 then dots_loop i (tl p)
          else if i = 1 \<and> hd p = [] then dots_loop i (take i p @ drop (i + 1) p)
          else if i + 1 = length p then dots_loop i ((butlast p)[length p - 2 := []])
          else dots_loop (i - 1) (take (i - 1) p @ drop (i + 1) p)
        else dots_loop (i + 1) p
      else p)"
  by pat_completeness auto
termination by (relation "measure (\<lambda>(i, p). length p - i)") auto

declare dots_loop.simps [simp del]

definition Path_removeDotComponents :: "path \<Rightarrow> path" where
  "Path_removeDotComponents p = dots_loop 0 p"

definition Path_normalize :: "path \<Rightarrow> path" where
  "Path_normalize p = Path_removeDotComponents p"

definition Path_merge :: "path \<Rightarrow> path \<Rightarrow> path result" where
  "Path_merge p rhs = ensure (Path_isRelative rhs) (Inr (if p \<noteq> [] then butlast p @ rhs else rhs))"

fun path_print_loop :: "bool \<Rightarrow> bool \<Rightarrow> path \<Rightarrow> byte list result" where
  "path_print_loop begins schemeless [] = Inr []"
| "path_print_loop begins schemeless (s # p) =
     andThen (escape s (if begins \<and> schemeless then segment_nc_chars else pchar_chars) False) (\<lambda>t.
       andThen (path_print_loop False schemeless p) (\<lambda>r. Inr ((if begins then [] else ''/'') @ t @ r)))"

definition Path_serialize :: "bool \<Rightarrow> path \<Rightarrow> byte list result" where
  "Path_serialize schemeless p = path_print_loop True schemeless p"

text \<open>\<open>strcmp\<close> compares unsigned characters; only the sign of its result matters.\<close>

fun strcmp :: "byte list \<Rightarrow> byte list \<Rightarrow> int" where
  "strcmp [] [] = 0"
| "strcmp [] (d # ds) = -1"
| "strcmp (c # cs) [] = 1"
| "strcmp (c # cs) (d # ds) = (if c = d then strcmp cs ds else if (of_char c :: nat) < of_char d then -1 else 1)"

fun Path_cmp :: "path \<Rightarrow> path \<Rightarrow> int" where
  "Path_cmp [] (t # q) = -1"
| "Path_cmp (s # p) [] = 1"
| "Path_cmp [] [] = 0"
| "Path_cmp (s # p) (t # q) = (let x = strcmp (c_str s) (c_str t) in if x \<noteq> 0 then x else Path_cmp p q)"

section \<open>Removing dot segments\<close>

text \<open>The loop without indices: what it has passed, and what is left.\<close>

fun dots :: "path \<Rightarrow> path \<Rightarrow> path" where
  "dots out [] = out"
| "dots out (s # rest) =
     (if out = [] \<and> s = [] then dots [s] rest
      else if s = ''.'' then if rest = [] then out @ [[]] else dots out rest
      else if s = ''..'' then
        if out = [] \<or> out = [[]] then dots out rest
        else if rest = [] then butlast out @ [[]]
        else dots (butlast out) rest
      else dots (out @ [s]) rest)"

lemma dots_loop_eq: "dots_loop (length out) (out @ rest) = dots out rest"
proof (induction out rest rule: dots.induct)
  case (1 out)
  then show ?case by (simp add: dots_loop.simps)
next
  case (2 out s rest)
  let ?p = "out @ s # rest"
  have at: "?p ! length out = s" "take (length out) ?p @ drop (length out + 1) ?p = out @ rest" by simp_all
  consider (start) "out = []" "s = []" | (dot_last) "s = ''.''" "rest = []" | (dot) "s = ''.''" "rest \<noteq> []"
    | (up_first) "s = ''..''" "out = []" | (up_root) "s = ''..''" "out = [[]]"
    | (up_last) "s = ''..''" "out \<noteq> []" "out \<noteq> [[]]" "rest = []" | (up) "s = ''..''" "out \<noteq> []" "out \<noteq> [[]]" "rest \<noteq> []"
    | (plain) "\<not> (out = [] \<and> s = [])" "s \<noteq> ''.''" "s \<noteq> ''..''" by blast
  then show ?case
  proof cases
    case start
    then show ?thesis using 2(1) by (subst dots_loop.simps) simp
  next
    case dot_last
    then show ?thesis by (subst dots_loop.simps) (simp add: dots_loop.simps)
  next
    case dot
    then show ?thesis using 2(2) at by (subst dots_loop.simps) simp
  next
    case up_first
    then show ?thesis using 2(3) by (subst dots_loop.simps) simp
  next
    case up_root
    then show ?thesis using 2(3) by (subst dots_loop.simps) simp
  next
    case up_last
    then have ne: "length out \<noteq> 0" "\<not> (length out = 1 \<and> hd (out @ [s]) = [])" by (cases out; cases "tl out"; auto)+
    have "(butlast ?p)[length ?p - 2 := []] = butlast out @ [[]]" using up_last by (cases out rule: rev_cases) (simp_all add: butlast_append)
    moreover have "length (butlast out @ [[]]) = length out" using up_last by simp
    ultimately show ?thesis using up_last ne by (subst dots_loop.simps) (auto simp: dots_loop.simps[of "length out" "butlast out @ [[]]"])
  next
    case up
    then have ne: "length out \<noteq> 0" "\<not> (length out = 1 \<and> hd ?p = [])" by (cases out; cases "tl out"; auto)+
    have "take (length out - 1) ?p @ drop (length out + 1) ?p = butlast out @ rest" using up by (cases out rule: rev_cases) simp_all
    moreover have "length (butlast out) = length out - 1" by simp
    ultimately show ?thesis using up ne 2(4) by (subst dots_loop.simps) auto
  next
    case plain
    then show ?thesis using 2(5) by (subst dots_loop.simps) auto
  qed
qed

lemma removeDotComponents_eq: "Path_removeDotComponents p = dots [] p"
  using dots_loop_eq[of "[]" p] by (simp add: Path_removeDotComponents_def)

abbreviation dot_free :: "path \<Rightarrow> bool" where
  "dot_free p \<equiv> ''.'' \<notin> set p \<and> ''..'' \<notin> set p"

lemma dots_free: "dot_free out \<Longrightarrow> dot_free (dots out rest)"
proof (induction out rest rule: dots.induct)
  case (2 out s rest)
  have "dot_free (butlast out)" using 2(6) by (auto dest: in_set_butlastD)
  then show ?case using 2 by auto
qed simp

text \<open>
  The algorithm of RFC 3986, section 5.2.4, on the segments of an absolute path after the empty first one: a dot is dropped, two
  dots remove the segment before, and either leaves a trailing slash at the end.
\<close>

definition dot_step :: "path \<Rightarrow> byte list \<Rightarrow> path" where
  "dot_step out s = (if s = ''.'' then out else if s = ''..'' then butlast out else out @ [s])"

definition rfc3986_dots :: "path \<Rightarrow> path" where
  "rfc3986_dots p =
     (let out = foldl dot_step [] (butlast p); s = last p
      in if s = ''.'' then out @ [[]] else if s = ''..'' then butlast out @ [[]] else out @ [s])"

lemma dots_absolute:
  "p \<noteq> [] \<Longrightarrow> dots ([] # out) p =
     (let out' = foldl dot_step out (butlast p); s = last p
      in [] # (if s = ''.'' then out' @ [[]] else if s = ''..'' then if out' = [] then [] else butlast out' @ [[]] else out' @ [s]))"
proof (induction p arbitrary: out)
  case (Cons s p)
  show ?case
  proof (cases "p = []")
    case True
    then show ?thesis by (auto simp: Let_def)
  next
    case False
    have "dots ([] # out) (s # p) = dots ([] # dot_step out s) p" using False by (auto simp: dot_step_def)
    then show ?thesis using Cons.IH[OF False, of "dot_step out s"] False by (simp add: Let_def)
  qed
qed simp

text \<open>
  C20. \<open>removeDotComponents\<close> leaves no dot segments in any path, and on absolute paths it is the algorithm of RFC 3986. The one
  exception is a path whose last segment goes up from the root: there the result is the single empty segment instead of the root.
\<close>

theorem uri_dots_removed:
  "dot_free (Path_removeDotComponents p) \<and>
   Path_removeDotComponents ([] # s # rest) =
     (if last (s # rest) = ''..'' \<and> foldl dot_step [] (butlast (s # rest)) = [] then [[]] else [] # rfc3986_dots (s # rest))"
proof
  show "dot_free (Path_removeDotComponents p)" unfolding removeDotComponents_eq by (rule dots_free) simp
  have "Path_removeDotComponents ([] # s # rest) = dots [[]] (s # rest)" unfolding removeDotComponents_eq by simp
  then show "Path_removeDotComponents ([] # s # rest) =
     (if last (s # rest) = ''..'' \<and> foldl dot_step [] (butlast (s # rest)) = [] then [[]] else [] # rfc3986_dots (s # rest))"
    using dots_absolute[of "s # rest" "[]"] by (auto simp: rfc3986_dots_def Let_def)
qed

text \<open>The path \<open>/..\<close> becomes empty, and is then no longer absolute.\<close>

lemma dots_root_flaw:
  "Path_removeDotComponents [[], ''..''] = [[]]" "Path_isAbsolute [[], ''..'']" "\<not> Path_isAbsolute [[]]" "rfc3986_dots [''..''] = [[]]"
  by (simp_all add: removeDotComponents_eq Path_isAbsolute_def rfc3986_dots_def)

section \<open>The other operations\<close>

lemma makeAbsolute_absolute: "p \<noteq> [[]] \<Longrightarrow> Path_isAbsolute (Path_makeAbsolute p)"
  by (cases p; cases "tl p") (auto simp: Path_isAbsolute_def Path_makeAbsolute_def)

text \<open>The degenerate path of one empty segment stays relative.\<close>

lemma makeAbsolute_flaw: "Path_makeAbsolute [[]] = [[]]" "\<not> Path_isAbsolute [[]]"
  by (simp_all add: Path_makeAbsolute_def Path_isAbsolute_def)

lemma append_last: "last (Path_append h s p) = s" "Path_append h s p \<noteq> []" "Path_isAbsolute p \<Longrightarrow> Path_isAbsolute (Path_append h s p)"
proof -
  show "last (Path_append h s p) = s" "Path_append h s p \<noteq> []" by (simp_all add: Path_append_def)
  show "Path_isAbsolute p \<Longrightarrow> Path_isAbsolute (Path_append h s p)"
    by (cases p; cases "tl p") (auto simp: Path_isAbsolute_def Path_append_def)
qed

lemma strcmp_zero: "strcmp s t = 0 \<longleftrightarrow> s = t"
  by (induction s t rule: strcmp.induct) auto

lemma strcmp_antisym: "strcmp s t = - strcmp t s"
  by (induction s t rule: strcmp.induct) auto

lemma strcmp_trans: "strcmp s t < 0 \<Longrightarrow> strcmp t u < 0 \<Longrightarrow> strcmp s u < 0"
proof (induction s t arbitrary: u rule: strcmp.induct)
  case (2 d ds)
  then show ?case by (cases u) auto
next
  case (4 c cs d ds)
  then show ?case by (cases u) (auto split: if_splits)
qed auto

end
