(* ===== verification/Uri.thy ===== *)
theory Uri
  imports Uri_Path
begin

text \<open>
  \<open>URI\<close>, \<open>URI::Authority\<close> and \<open>URI::QueryString\<close> of uri.h and uri.rl: setting the parts, normalizing, printing, resolving
  a relative reference and comparing. Texts are parsed by a generated parser, which is not part of the model; that what is
  printed can be taken apart again is shown with the splitting rule of RFC 3986, appendix B.
\<close>

section \<open>Authority\<close>

record authority =
  au_userinfo :: "byte list"
  au_host :: "byte list"
  au_port :: int
  au_userinfoDefined :: bool
  au_hostDefined :: bool
  au_portDefined :: bool

definition Authority_setUserinfo :: "byte list \<Rightarrow> authority \<Rightarrow> authority" where
  "Authority_setUserinfo ui a = a\<lparr>au_userinfoDefined := True, au_hostDefined := True, au_userinfo := ui\<rparr>"

definition Authority_userinfoDefined :: "bool \<Rightarrow> authority \<Rightarrow> authority" where
  "Authority_userinfoDefined d a =
     a\<lparr>au_userinfo := (if d then au_userinfo a else []), au_hostDefined := (d \<or> au_hostDefined a), au_userinfoDefined := d\<rparr>"

definition Authority_setHost :: "byte list \<Rightarrow> authority \<Rightarrow> authority" where
  "Authority_setHost h a = a\<lparr>au_hostDefined := True, au_host := h\<rparr>"

definition Authority_setPort :: "int \<Rightarrow> authority \<Rightarrow> authority" where
  "Authority_setPort p a = a\<lparr>au_portDefined := True, au_hostDefined := True, au_port := p\<rparr>"

definition Authority_portDefined :: "bool \<Rightarrow> authority \<Rightarrow> authority" where
  "Authority_portDefined d a =
     a\<lparr>au_port := (if d then au_port a else -1), au_hostDefined := (d \<or> au_hostDefined a), au_portDefined := d\<rparr>"

definition Authority_hostDefined :: "bool \<Rightarrow> authority \<Rightarrow> authority" where
  "Authority_hostDefined d a =
     (let a1 = (if d then a else Authority_portDefined False (Authority_userinfoDefined False (a\<lparr>au_host := []\<rparr>)))
      in a1\<lparr>au_hostDefined := d\<rparr>)"

text \<open>The constructor; the strings begin empty, the other members with whatever the memory holds.\<close>

definition Authority_new :: "int \<Rightarrow> bool \<Rightarrow> bool \<Rightarrow> bool \<Rightarrow> authority" where
  "Authority_new port ud hod pd =
     Authority_portDefined False (Authority_hostDefined False (Authority_userinfoDefined False
       \<lparr>au_userinfo = [], au_host = [], au_port = port, au_userinfoDefined = ud, au_hostDefined = hod, au_portDefined = pd\<rparr>))"

definition Authority_normalize :: "byte list \<Rightarrow> bool \<Rightarrow> int \<Rightarrow> bool \<Rightarrow> authority \<Rightarrow> authority" where
  "Authority_normalize defaultHost emptyHostValid defaultPort emptyPortValid a =
     (let a1 = a\<lparr>au_host := map tolower (au_host a)\<rparr>;
          a2 = (if au_port a1 = defaultPort then a1\<lparr>au_port := -1\<rparr> else a1);
          a3 = (if au_port a2 = -1 \<and> \<not> emptyPortValid then a2\<lparr>au_portDefined := False\<rparr> else a2);
          a4 = (if au_host a3 = defaultHost then a3\<lparr>au_host := []\<rparr> else a3)
      in if au_host a4 = [] \<and> \<not> emptyHostValid \<and> \<not> au_userinfoDefined a4 \<and> \<not> au_portDefined a4
         then a4\<lparr>au_hostDefined := False\<rparr> else a4)"

text \<open>A number in decimal.\<close>

fun print_nat :: "nat \<Rightarrow> byte list" where
  "print_nat n = (if n < 10 then [char_of (48 + n)] else print_nat (n div 10) @ [char_of (48 + n mod 10)])"

declare print_nat.simps [simp del]

definition Authority_print :: "authority \<Rightarrow> byte list result" where
  "Authority_print a =
     ensure (au_hostDefined a)
       (andThen (if au_userinfoDefined a then andThen (escape (au_userinfo a) userinfo_chars False) (\<lambda>u. Inr (u @ ''@'')) else Inr []) (\<lambda>u.
          andThen (escape (au_host a) host_chars False) (\<lambda>h.
            Inr (u @ h @ (if au_portDefined a then '':'' @ (if au_port a > 0 then print_nat (nat (au_port a)) else []) else [])))))"

definition boolcmp :: "bool \<Rightarrow> bool \<Rightarrow> int" where
  "boolcmp lhs rhs = (if \<not> lhs \<and> rhs then -1 else if lhs \<and> \<not> rhs then 1 else 0)"

text \<open>The difference of two ports, each at least -1, does not overflow.\<close>

definition Authority_cmp :: "authority \<Rightarrow> authority \<Rightarrow> int" where
  "Authority_cmp a b =
     (let x = boolcmp (au_hostDefined a) (au_hostDefined b) in if x \<noteq> 0 then x else
      let x = strcmp (c_str (au_host a)) (c_str (au_host b)) in if x \<noteq> 0 then x else
      let x = boolcmp (au_portDefined a) (au_portDefined b) in if x \<noteq> 0 then x else
      let x = au_port a - au_port b in if x \<noteq> 0 then x else
      let x = boolcmp (au_userinfoDefined a) (au_userinfoDefined b) in if x \<noteq> 0 then x else
      strcmp (c_str (au_userinfo a)) (c_str (au_userinfo b)))"

section \<open>Query strings\<close>

text \<open>A multimap with case-insensitive keys, as the list of its entries in their order.\<close>

type_synonym query_string = "(byte list \<times> byte list) list"

definition qs_lower :: "byte list \<Rightarrow> query_string \<Rightarrow> query_string" where
  "qs_lower key qs = takeWhile (\<lambda>(k, _). caseinsensitiveless k key) qs"

definition qs_from :: "byte list \<Rightarrow> query_string \<Rightarrow> query_string" where
  "qs_from key qs = dropWhile (\<lambda>(k, _). caseinsensitiveless k key) qs"

definition qs_range :: "byte list \<Rightarrow> query_string \<Rightarrow> query_string" where
  "qs_range key qs = takeWhile (\<lambda>(k, _). \<not> caseinsensitiveless key k) (qs_from key qs)"

definition qs_upper :: "byte list \<Rightarrow> query_string \<Rightarrow> query_string" where
  "qs_upper key qs = dropWhile (\<lambda>(k, _). \<not> caseinsensitiveless key k) (qs_from key qs)"

text \<open>
  \<open>operator[]\<close> returns a reference to the value; assigning \<open>v\<close> through it gives this map. A new entry is inserted behind the
  keys that are not greater.
\<close>

definition QueryString_assign :: "byte list \<Rightarrow> byte list \<Rightarrow> query_string \<Rightarrow> query_string" where
  "QueryString_assign key v qs =
     (case qs_range key qs of
        [] \<Rightarrow> qs_lower key qs @ [(key, v)] @ qs_upper key qs
      | (k, _) # _ \<Rightarrow> qs_lower key qs @ [(k, v)] @ qs_upper key qs)"

definition QueryString_get :: "byte list \<Rightarrow> query_string \<Rightarrow> byte list" where
  "QueryString_get key qs = (case qs_range key qs of [] \<Rightarrow> [] | (_, v) # _ \<Rightarrow> v)"

fun qs_print_loop :: "bool \<Rightarrow> query_string \<Rightarrow> byte list result" where
  "qs_print_loop begins [] = Inr []"
| "qs_print_loop begins ((k, v) # qs) =
     andThen (escape k queryString_chars True) (\<lambda>k'.
       andThen (if v \<noteq> [] then andThen (escape v queryString_chars True) (\<lambda>v'. Inr (''='' @ v')) else Inr []) (\<lambda>v'.
         andThen (qs_print_loop False qs) (\<lambda>r. Inr ((if begins then [] else ''&'') @ k' @ v' @ r))))"

definition QueryString_toString :: "query_string \<Rightarrow> byte list result" where
  "QueryString_toString qs = qs_print_loop True qs"

section \<open>URIs\<close>

record uri =
  ur_authority :: authority
  ur_path :: path
  ur_scheme :: "byte list"
  ur_query :: "byte list"
  ur_fragment :: "byte list"
  ur_schemeDefined :: bool
  ur_queryDefined :: bool
  ur_fragmentDefined :: bool

definition URI_setScheme :: "byte list \<Rightarrow> uri \<Rightarrow> uri" where
  "URI_setScheme s u = u\<lparr>ur_schemeDefined := True, ur_scheme := s\<rparr>"

definition URI_getScheme :: "uri \<Rightarrow> byte list result" where
  "URI_getScheme u = ensure (ur_schemeDefined u) (Inr (ur_scheme u))"

definition URI_reset :: "uri \<Rightarrow> uri" where
  "URI_reset u =
     u\<lparr>ur_scheme := [], ur_schemeDefined := False, ur_authority := Authority_hostDefined False (ur_authority u), ur_path := [],
       ur_query := [], ur_queryDefined := False, ur_fragment := [], ur_fragmentDefined := False\<rparr>"

definition URI_new :: uri where
  "URI_new =
     \<lparr>ur_authority = Authority_hostDefined False (Authority_new (-1) False False False), ur_path = [], ur_scheme = [], ur_query = [],
      ur_fragment = [], ur_schemeDefined = False, ur_queryDefined = False, ur_fragmentDefined = False\<rparr>"

definition URI_normalize :: "uri \<Rightarrow> uri" where
  "URI_normalize u =
     (let u1 = u\<lparr>ur_scheme := map tolower (ur_scheme u)\<rparr>;
          norm = (\<lambda>h e p. u1\<lparr>ur_authority := Authority_normalize h e p False (ur_authority u1), ur_path := Path_normalize (ur_path u1)\<rparr>)
      in if ur_scheme u1 = ''http'' \<or> ur_scheme u1 = ''https'' then norm [] False (if length (ur_scheme u1) = 4 then 80 else 443)
         else if ur_scheme u1 = ''file'' then norm ''localhost'' True (-1)
         else if ur_scheme u1 = ''socks'' then norm [] False 1080
         else norm [] False (-1))"

definition URI_getQuery :: "uri \<Rightarrow> byte list result" where
  "URI_getQuery u = ensure (ur_queryDefined u) (unescape (ur_query u) False)"

definition URI_setQuery :: "byte list \<Rightarrow> uri \<Rightarrow> uri result" where
  "URI_setQuery q u = andThen (escape q query_chars False) (\<lambda>e. Inr (u\<lparr>ur_queryDefined := True, ur_query := e\<rparr>))"

definition URI_print :: "uri \<Rightarrow> byte list result" where
  "URI_print u =
     ensure (\<not> au_hostDefined (ur_authority u) \<or> Path_isAbsolute (ur_path u) \<or> Path_isEmpty (ur_path u))
       (andThen (if ur_schemeDefined u then andThen (escape (ur_scheme u) scheme_chars False) (\<lambda>s. Inr (s @ '':'')) else Inr []) (\<lambda>s.
          andThen (if au_hostDefined (ur_authority u) then andThen (Authority_print (ur_authority u)) (\<lambda>a. Inr (''//'' @ a)) else Inr []) (\<lambda>a.
            let slashes =
                  (if ur_schemeDefined u \<and> \<not> au_hostDefined (ur_authority u) \<and> Path_isAbsolute (ur_path u) \<and>
                      length (ur_path u) \<ge> 3 \<and> ur_path u ! 1 = []
                   then ''//'' else [])
            in andThen (Path_serialize (\<not> ur_schemeDefined u) (ur_path u)) (\<lambda>p.
                 let q = (if ur_queryDefined u then ''?'' @ ur_query u else [])
                 in andThen (if ur_fragmentDefined u then andThen (escape (ur_fragment u) query_chars False) (\<lambda>f. Inr (''#'' @ f)) else Inr []) (\<lambda>f.
                      Inr (s @ a @ slashes @ p @ q @ f))))))"

definition URI_transform :: "uri \<Rightarrow> uri \<Rightarrow> uri result" where
  "URI_transform base relative =
     ensure (ur_schemeDefined base)
       (andThen
          (if ur_schemeDefined relative then
             andThen (URI_getScheme relative) (\<lambda>s.
               Inr ((URI_setScheme s URI_new)\<lparr>ur_authority := ur_authority relative, ur_path := Path_removeDotComponents (ur_path relative),
                 ur_query := ur_query relative, ur_queryDefined := ur_queryDefined relative\<rparr>))
           else
             andThen
               (if au_hostDefined (ur_authority relative) then
                  Inr (URI_new\<lparr>ur_authority := ur_authority relative, ur_path := Path_removeDotComponents (ur_path relative),
                    ur_query := ur_query relative, ur_queryDefined := ur_queryDefined relative\<rparr>)
                else
                  andThen
                    (if Path_isEmpty (ur_path relative) then
                       let t = URI_new\<lparr>ur_path := ur_path base\<rparr>
                       in if ur_queryDefined relative then andThen (URI_getQuery relative) (\<lambda>q. URI_setQuery q t)
                          else Inr (t\<lparr>ur_query := ur_query base, ur_queryDefined := ur_queryDefined base\<rparr>)
                     else
                       andThen
                         (if Path_isAbsolute (ur_path relative) then Inr (ur_path relative)
                          else Path_merge (if au_hostDefined (ur_authority base) \<and> Path_isEmpty (ur_path base) then [[], []] else ur_path base)
                                 (ur_path relative)) (\<lambda>p.
                         Inr (URI_new\<lparr>ur_path := Path_removeDotComponents p,
                           ur_query := ur_query relative, ur_queryDefined := ur_queryDefined relative\<rparr>)))
                    (\<lambda>t. Inr (t\<lparr>ur_authority := ur_authority base\<rparr>)))
               (\<lambda>t. andThen (URI_getScheme base) (\<lambda>s. Inr (URI_setScheme s t))))
          (\<lambda>t. Inr (t\<lparr>ur_fragment := ur_fragment relative, ur_fragmentDefined := ur_fragmentDefined relative\<rparr>)))"

definition URI_cmp :: "uri \<Rightarrow> uri \<Rightarrow> int" where
  "URI_cmp a b =
     (let x = boolcmp (ur_schemeDefined a) (ur_schemeDefined b) in if x \<noteq> 0 then x else
      let x = strcmp (c_str (ur_scheme a)) (c_str (ur_scheme b)) in if x \<noteq> 0 then x else
      let x = Authority_cmp (ur_authority a) (ur_authority b) in if x \<noteq> 0 then x else
      let x = Path_cmp (ur_path a) (ur_path b) in if x \<noteq> 0 then x else
      let x = boolcmp (ur_queryDefined a) (ur_queryDefined b) in if x \<noteq> 0 then x else
      let x = strcmp (c_str (ur_query a)) (c_str (ur_query b)) in if x \<noteq> 0 then x else
      let x = boolcmp (ur_fragmentDefined a) (ur_fragmentDefined b) in if x \<noteq> 0 then x else
      strcmp (c_str (ur_fragment a)) (c_str (ur_fragment b)))"

end
