(* ===== verification/Uri_Props.thy ===== *)
theory Uri_Props
  imports Uri
begin

text \<open>
  The properties of URIs: what is printed can be taken apart again, resolving a relative reference gives a URI that can be
  printed, and comparison.
\<close>

section \<open>Printed texts\<close>

definition path_text :: "bool \<Rightarrow> path \<Rightarrow> byte list" where
  "path_text schemeless p =
     (case p of [] \<Rightarrow> []
      | s # p' \<Rightarrow> escaped (if schemeless then segment_nc_chars else pchar_chars) False s @ concat (map (\<lambda>s. CHR ''/'' # escaped pchar_chars False s) p'))"

definition authority_text :: "authority \<Rightarrow> byte list" where
  "authority_text a =
     (if au_userinfoDefined a then escaped userinfo_chars False (au_userinfo a) @ ''@'' else []) @ escaped host_chars False (au_host a) @
     (if au_portDefined a then '':'' @ (if au_port a > 0 then print_nat (nat (au_port a)) else []) else [])"

definition uri_text :: "uri \<Rightarrow> byte list" where
  "uri_text u =
     (if ur_schemeDefined u then escaped scheme_chars False (ur_scheme u) @ '':'' else []) @
     (if au_hostDefined (ur_authority u) then ''//'' @ authority_text (ur_authority u)
      else if ur_schemeDefined u \<and> Path_isAbsolute (ur_path u) \<and> length (ur_path u) \<ge> 3 \<and> ur_path u ! 1 = [] then ''//'' else []) @
     path_text (\<not> ur_schemeDefined u) (ur_path u) @
     (if ur_queryDefined u then ''?'' @ ur_query u else []) @
     (if ur_fragmentDefined u then ''#'' @ escaped query_chars False (ur_fragment u) else [])"

lemma path_print_rest: "path_print_loop False sl p = Inr (concat (map (\<lambda>s. CHR ''/'' # escaped pchar_chars False s) p))"
  by (induction p) (simp_all add: escape_eq)

lemma Path_serialize_eq: "Path_serialize sl p = Inr (path_text sl p)"
  by (cases p) (simp_all add: Path_serialize_def path_text_def escape_eq path_print_rest)

lemma Authority_print_eq: "au_hostDefined a \<Longrightarrow> Authority_print a = Inr (authority_text a)"
  by (simp add: Authority_print_def authority_text_def escape_eq)

lemma URI_print_eq:
  "URI_print u =
     (if \<not> au_hostDefined (ur_authority u) \<or> Path_isAbsolute (ur_path u) \<or> Path_isEmpty (ur_path u) then Inr (uri_text u) else Inl Assertion)"
  unfolding URI_print_def uri_text_def
  by (cases "au_hostDefined (ur_authority u)"; cases "ur_schemeDefined u"; cases "ur_fragmentDefined u")
    (simp_all add: escape_eq Path_serialize_eq Authority_print_eq ensure_def Let_def)

section \<open>Taking a URI apart\<close>

text \<open>The regular expression of RFC 3986, appendix B: scheme, authority, path, query and fragment.\<close>

definition cut :: "byte list \<Rightarrow> byte list \<Rightarrow> byte list \<times> byte list" where
  "cut stops t = (takeWhile (\<lambda>c. c \<notin> set stops) t, dropWhile (\<lambda>c. c \<notin> set stops) t)"

definition split_scheme :: "byte list \<Rightarrow> byte list option \<times> byte list" where
  "split_scheme t = (case cut '':/?#'' t of (s, rest) \<Rightarrow> if s \<noteq> [] \<and> rest \<noteq> [] \<and> hd rest = CHR '':'' then (Some s, tl rest) else (None, t))"

definition split_authority :: "byte list \<Rightarrow> byte list option \<times> byte list" where
  "split_authority t = (if take 2 t = ''//'' then (case cut ''/?#'' (drop 2 t) of (a, rest) \<Rightarrow> (Some a, rest)) else (None, t))"

definition split_part :: "byte \<Rightarrow> byte list \<Rightarrow> byte list \<Rightarrow> byte list option \<times> byte list" where
  "split_part mark stops t =
     (if t \<noteq> [] \<and> hd t = mark then (case cut stops (tl t) of (q, rest) \<Rightarrow> (Some q, rest)) else (None, t))"

definition split_uri :: "byte list \<Rightarrow> byte list option \<times> byte list option \<times> byte list \<times> byte list option \<times> byte list option" where
  "split_uri t =
     (let (scheme, t1) = split_scheme t; (auth, t2) = split_authority t1; (p, t3) = cut ''?#'' t2;
          (q, t4) = split_part (CHR ''?'') ''#'' t3; (f, t5) = split_part (CHR ''#'') [] t4
      in (scheme, auth, p, q, f))"

lemma cut_append:
  assumes "set s \<inter> set stops = {}" "t = [] \<or> hd t \<in> set stops"
  shows "cut stops (s @ t) = (s, t)"
proof -
  have "takeWhile (\<lambda>c. c \<notin> set stops) t = []" "dropWhile (\<lambda>c. c \<notin> set stops) t = t" using assms(2) by (cases t; simp)+
  moreover have "\<forall>c \<in> set s. c \<notin> set stops" using assms(1) by auto
  ultimately show ?thesis by (simp add: cut_def takeWhile_append2 dropWhile_append2)
qed

lemma escaped_avoids:
  "set (escaped allowed False s) \<inter> B = {}" if "set allowed \<inter> B = {}" "CHR ''%'' \<notin> B" "set alnum \<inter> B = {}"
  using escaped_chars[of allowed False s] that by fastforce

text \<open>The marks at which a URI is cut do not occur within its parts.\<close>

lemma class_stops:
  "set scheme_chars \<inter> set '':/?#'' = {}" "set userinfo_chars \<inter> set ''/?#'' = {}" "set host_chars \<inter> set ''/?#'' = {}"
  "set pchar_chars \<inter> set ''?#'' = {}" "set pchar_chars \<inter> set ''/'' = {}" "set segment_nc_chars \<inter> set '':/?#'' = {}" "set alnum \<inter> set '':/?#'' = {}"
  "set query_chars \<inter> set ''#'' = {}"
  by (simp_all add: uri_chars)

lemma print_nat_digits: "set (print_nat n) \<subseteq> set alnum"
proof (induction n rule: print_nat.induct)
  case (1 n)
  have d: "char_of (48 + m) \<in> set alnum" if "m < 10" for m :: nat
  proof -
    have "\<forall>m \<in> set [0..<10]. (char_of (48 + m) :: char) \<in> set alnum" by code_simp
    then show ?thesis using that by simp
  qed
  show ?case using 1 d[of n] d[of "n mod 10"] by (subst print_nat.simps) auto
qed

lemma authority_text_stops: "set (authority_text a) \<inter> set ''/?#'' = {}"
proof -
  have "set alnum \<inter> set ''/?#'' = {}" using class_stops(7) by auto
  moreover have "set (escaped userinfo_chars False (au_userinfo a)) \<inter> set ''/?#'' = {}" "set (escaped host_chars False (au_host a)) \<inter> set ''/?#'' = {}"
    by (rule escaped_avoids; use class_stops(2,3) calculation in simp)+
  moreover have "set (print_nat (nat (au_port a))) \<inter> set ''/?#'' = {}" using print_nat_digits calculation(1) by blast
  ultimately show ?thesis by (simp add: authority_text_def)
qed

lemma segment_stops:
  "set (escaped pchar_chars False s) \<inter> set ''/?#'' = {}" "set (escaped segment_nc_chars False s) \<inter> set '':/?#'' = {}"
proof -
  show "set (escaped pchar_chars False s) \<inter> set ''/?#'' = {}" by (rule escaped_avoids) (use class_stops(4,5,7) in auto)
  show "set (escaped segment_nc_chars False s) \<inter> set '':/?#'' = {}" by (rule escaped_avoids) (use class_stops(6,7) in auto)
qed

lemma path_text_stops: "set (path_text sl p) \<inter> set ''?#'' = {}"
proof -
  have "set (escaped pchar_chars False s) \<inter> set ''?#'' = {}" "set (escaped segment_nc_chars False s) \<inter> set ''?#'' = {}" for s
    using segment_stops[of s] by auto
  note esc = this
  have "set (concat (map (\<lambda>s. CHR ''/'' # escaped pchar_chars False s) p')) \<inter> set ''?#'' = {}" for p'
    by (induction p') (use esc(1) in \<open>simp_all del: set_concat\<close>)
  then show ?thesis using esc by (cases p) (simp_all add: path_text_def del: set_concat)
qed

definition uri_tail :: "uri \<Rightarrow> byte list" where
  "uri_tail u =
     (if ur_queryDefined u then ''?'' @ ur_query u else []) @
     (if ur_fragmentDefined u then ''#'' @ escaped query_chars False (ur_fragment u) else [])"

lemma uri_tail_hd: "uri_tail u = [] \<or> hd (uri_tail u) \<in> set ''?#''"
  by (simp add: uri_tail_def)

lemma split_tail:
  assumes "ur_queryDefined u \<Longrightarrow> CHR ''#'' \<notin> set (ur_query u)"
  shows "\<exists>t. split_part (CHR ''?'') ''#'' (uri_tail u) = ((if ur_queryDefined u then Some (ur_query u) else None), t) \<and>
    split_part (CHR ''#'') [] t = ((if ur_fragmentDefined u then Some (escaped query_chars False (ur_fragment u)) else None), [])"
proof -
  let ?f = "if ur_fragmentDefined u then ''#'' @ escaped query_chars False (ur_fragment u) else []"
  have f: "split_part (CHR ''#'') [] ?f = ((if ur_fragmentDefined u then Some (escaped query_chars False (ur_fragment u)) else None), [])"
    by (simp add: split_part_def cut_def takeWhile_eq_all_conv)
  have "split_part (CHR ''?'') ''#'' (uri_tail u) = ((if ur_queryDefined u then Some (ur_query u) else None), ?f)"
  proof (cases "ur_queryDefined u")
    case True
    then have "cut ''#'' (ur_query u @ ?f) = (ur_query u, ?f)" using assms by (intro cut_append) auto
    then show ?thesis using True by (simp add: uri_tail_def split_part_def)
  next
    case False
    then show ?thesis by (simp add: uri_tail_def split_part_def)
  qed
  then show ?thesis using f by blast
qed

lemma path_text_hd:
  "path_text True p @ t = escaped segment_nc_chars False s @ r \<and> (r = [] \<or> hd r \<in> set ''/?#'')"
  if "t = [] \<or> hd t \<in> set ''?#''" "p = s # p'" "r = concat (map (\<lambda>s. CHR ''/'' # escaped pchar_chars False s) p') @ t"
  using that by (cases p') (auto simp: path_text_def)

lemma split_scheme_text:
  assumes "ur_schemeDefined u \<Longrightarrow> ur_scheme u \<noteq> []"
  shows "split_scheme (uri_text u) =
    (if ur_schemeDefined u then Some (escaped scheme_chars False (ur_scheme u)) else None,
     drop (if ur_schemeDefined u then length (escaped scheme_chars False (ur_scheme u)) + 1 else 0) (uri_text u))"
proof (cases "ur_schemeDefined u")
  case True
  define e where "e = escaped scheme_chars False (ur_scheme u)"
  define r where "r = drop (length e + 1) (uri_text u)"
  have t: "uri_text u = e @ CHR '':'' # r" using True unfolding r_def e_def by (simp add: uri_text_def)
  have "set e \<inter> set '':/?#'' = {}" unfolding e_def by (rule escaped_avoids) (use class_stops(1,7) in auto)
  then have "cut '':/?#'' (uri_text u) = (e, CHR '':'' # r)" unfolding t by (intro cut_append) auto
  moreover have "e \<noteq> []" using length_escaped[of "ur_scheme u" scheme_chars False] assms True unfolding e_def
    by (metis le_zero_eq length_0_conv)
  ultimately show ?thesis using True t unfolding e_def[symmetric] by (simp add: split_scheme_def)
next
  case False
  have "\<exists>s r. cut '':/?#'' (uri_text u) = (s, r) \<and> (s = [] \<or> r = [] \<or> hd r \<noteq> CHR '':'')"
  proof (cases "au_hostDefined (ur_authority u)")
    case True
    then show ?thesis using False by (simp add: uri_text_def cut_def)
  next
    case host: False
    have t: "uri_text u = path_text True (ur_path u) @ uri_tail u" using False host by (simp add: uri_text_def uri_tail_def)
    show ?thesis
    proof (cases "ur_path u")
      case Nil
      then have "cut '':/?#'' (uri_text u) = ([], uri_tail u)" using uri_tail_hd[of u] cut_append[of "[]" "'':/?#''" "uri_tail u"] t by (auto simp: path_text_def)
      then show ?thesis by blast
    next
      case (Cons s p')
      define r where "r = concat (map (\<lambda>s. CHR ''/'' # escaped pchar_chars False s) p') @ uri_tail u"
      have h: "uri_text u = escaped segment_nc_chars False s @ r" "r = [] \<or> hd r \<in> set ''/?#''"
        using path_text_hd[OF uri_tail_hd Cons r_def] t by auto
      have "cut '':/?#'' (uri_text u) = (escaped segment_nc_chars False s, r)"
        unfolding h(1) by (rule cut_append[OF segment_stops(2)]) (use h(2) in auto)
      then show ?thesis using h(2) by auto
    qed
  qed
  then show ?thesis using False by (auto simp: split_scheme_def)
qed

text \<open>A path does not look like an authority.\<close>

lemma path_no_slashes:
  assumes "t = [] \<or> hd t \<in> set ''?#''" "\<not> (length p \<ge> 3 \<and> p ! 0 = [] \<and> p ! 1 = [])"
  shows "take 2 (path_text sl p @ t) \<noteq> ''//''"
proof (cases p)
  case Nil
  then show ?thesis using assms(1) by (cases t) (auto simp: path_text_def)
next
  case (Cons s p')
  define c where "c = (if sl then segment_nc_chars else pchar_chars)"
  have "set (escaped c False s) \<inter> {CHR ''/''} = {}" using segment_stops[of s] unfolding c_def by auto
  then have s: "CHR ''/'' \<notin> set (escaped c False s)" by auto
  have pt: "path_text sl p = escaped c False s @ concat (map (\<lambda>s. CHR ''/'' # escaped pchar_chars False s) p')"
    using Cons by (simp add: path_text_def c_def)
  show ?thesis
  proof (cases "escaped c False s")
    case e: Nil
    then have "s = []" using length_escaped[of s c False] by (metis le_zero_eq length_0_conv)
    show ?thesis
    proof (cases p')
      case Nil
      then show ?thesis using pt e assms(1) by (cases t) auto
    next
      case p': (Cons s2 p2)
      have s2: "CHR ''/'' \<notin> set (escaped pchar_chars False s2)" using segment_stops(1)[of s2] by auto
      show ?thesis
      proof (cases "escaped pchar_chars False s2")
        case Nil
        then have "s2 = []" using length_escaped[of s2 pchar_chars False] by (metis le_zero_eq length_0_conv)
        then have "p2 = []" using assms(2) Cons p' \<open>s = []\<close> by (cases p2) auto
        then show ?thesis using pt e p' Nil assms(1) by (cases t) auto
      next
        case (Cons x xs)
        then show ?thesis using pt e p' s2 by auto
      qed
    qed
  next
    case (Cons x xs)
    then show ?thesis using pt s by auto
  qed
qed

text \<open>
  The parts that a URI must have: a scheme is not empty, a query has no number sign, a path behind a host begins with a slash, and without scheme and
  host a path does not begin with two slashes.
\<close>

definition two_slashes :: "path \<Rightarrow> bool" where
  "two_slashes p \<longleftrightarrow> length p \<ge> 3 \<and> p ! 0 = [] \<and> p ! 1 = []"

definition uri_ok :: "uri \<Rightarrow> bool" where
  "uri_ok u \<longleftrightarrow>
     (ur_schemeDefined u \<longrightarrow> ur_scheme u \<noteq> []) \<and> (ur_queryDefined u \<longrightarrow> CHR ''#'' \<notin> set (ur_query u)) \<and>
     (if au_hostDefined (ur_authority u) then Path_isAbsolute (ur_path u) \<or> Path_isEmpty (ur_path u)
      else ur_schemeDefined u \<or> \<not> two_slashes (ur_path u))"


definition sample_uri :: uri where
  "sample_uri =
     URI_new\<lparr>ur_scheme := ''http'', ur_schemeDefined := True, ur_authority := Authority_setPort 80 (Authority_setHost ''a b'' (ur_authority URI_new)),
       ur_path := [[], ''over'', ''there''], ur_query := ''x=1'', ur_queryDefined := True, ur_fragment := ''nose'', ur_fragmentDefined := True\<rparr>"

definition slashes_uri :: uri where
  "slashes_uri = URI_new\<lparr>ur_scheme := ''file'', ur_schemeDefined := True, ur_path := [[], [], ''x'']\<rparr>"


text \<open>Without a scheme nothing keeps a path that begins with two slashes from being read as a host.\<close>

lemma print_slashes_flaw:
  "URI_print (URI_new\<lparr>ur_path := [[], [], ''x'']\<rparr>) = Inr ''//x''" "split_uri ''//x'' = (None, Some ''x'', [], None, None)"
  by code_simp+

section \<open>Resolving references\<close>

text \<open>What a URI of the parser or of the setters satisfies.\<close>

definition uri_wf :: "uri \<Rightarrow> bool" where
  "uri_wf u \<longleftrightarrow>
     (au_hostDefined (ur_authority u) \<longrightarrow> Path_isAbsolute (ur_path u) \<or> Path_isEmpty (ur_path u)) \<and>
     (ur_queryDefined u \<longrightarrow> well_escaped (ur_query u))"

lemma dots_absolute_ok: "Path_isAbsolute p \<Longrightarrow> Path_isAbsolute (Path_removeDotComponents p) \<or> Path_isEmpty (Path_removeDotComponents p)"
proof -
  assume "Path_isAbsolute p"
  then obtain s rest where p: "p = [] # s # rest" by (cases p; cases "tl p") (auto simp: Path_isAbsolute_def)
  have d: "Path_removeDotComponents p = dots [[]] (s # rest)" unfolding p removeDotComponents_eq by simp
  have "\<exists>x. dots [[]] (s # rest) = [] # x" using dots_absolute[of "s # rest" "[]"] unfolding Let_def by blast
  then show ?thesis unfolding d by (auto simp: Path_isAbsolute_def Path_isEmpty_def)
qed

lemma dots_empty_ok: "Path_isEmpty p \<Longrightarrow> Path_isEmpty (Path_removeDotComponents p)"
  by (cases p) (auto simp: Path_isEmpty_def removeDotComponents_eq)

lemma well_escaped_query: "well_escaped (escaped query_chars False s)"
  using unescape_fails[of "escaped query_chars False s" False] unescaped_escaped[of query_chars False s] class_marks(4)
  by (auto simp: unescape_eq split: if_splits)

lemma merge_absolute:
  "Path_isAbsolute b \<Longrightarrow> \<not> Path_isEmpty r \<Longrightarrow> Path_isRelative r \<Longrightarrow> \<exists>p. Path_merge b r = Inr p \<and> Path_isAbsolute p"
  by (cases b; cases "tl b"; cases r) (auto simp: Path_merge_def Path_isAbsolute_def Path_isEmpty_def)

text \<open>
  C17. Resolving a reference against a base with a scheme always succeeds, and the result has the base's or the
  reference's scheme, is as well-formed as they are, and can be printed.
\<close>

theorem uri_transform_ok:
  assumes base: "ur_schemeDefined base" "uri_wf base" and relative: "uri_wf relative"
  shows "\<exists>t s. URI_transform base relative = Inr t \<and> uri_wf t \<and> URI_print t = Inr s \<and> ur_schemeDefined t \<and>
    ur_scheme t = (if ur_schemeDefined relative then ur_scheme relative else ur_scheme base) \<and>
    ur_fragment t = ur_fragment relative \<and> ur_fragmentDefined t = ur_fragmentDefined relative"
proof -
  let ?bh = "au_hostDefined (ur_authority base)" and ?rh = "au_hostDefined (ur_authority relative)"
  have wfd: "Path_isAbsolute (Path_removeDotComponents p) \<or> Path_isEmpty (Path_removeDotComponents p)" if "Path_isAbsolute p \<or> Path_isEmpty p" for p
    using that dots_absolute_ok dots_empty_ok by blast
  have print: "uri_wf t \<Longrightarrow> \<exists>s. URI_print t = Inr s" for t by (auto simp: uri_wf_def URI_print_eq)
  consider (scheme) "ur_schemeDefined relative" | (host) "\<not> ur_schemeDefined relative" "?rh"
    | (empty) "\<not> ur_schemeDefined relative" "\<not> ?rh" "Path_isEmpty (ur_path relative)"
    | (path) "\<not> ur_schemeDefined relative" "\<not> ?rh" "\<not> Path_isEmpty (ur_path relative)" by blast
  then have "\<exists>t. URI_transform base relative = Inr t \<and> uri_wf t \<and> ur_schemeDefined t \<and>
    ur_scheme t = (if ur_schemeDefined relative then ur_scheme relative else ur_scheme base) \<and>
    ur_fragment t = ur_fragment relative \<and> ur_fragmentDefined t = ur_fragmentDefined relative"
  proof cases
    case scheme
    then show ?thesis using base relative wfd[of "ur_path relative"] by (auto simp: URI_transform_def URI_getScheme_def URI_setScheme_def uri_wf_def)
  next
    case host
    then show ?thesis using base relative wfd[of "ur_path relative"] by (auto simp: URI_transform_def URI_getScheme_def URI_setScheme_def uri_wf_def)
  next
    case empty
    show ?thesis
    proof (cases "ur_queryDefined relative")
      case True
      then obtain q where q: "unescape (ur_query relative) False = Inr q" using relative unescape_fails[of "ur_query relative" False] by (auto simp: uri_wf_def)
      then show ?thesis using empty True base relative well_escaped_query[of q]
        by (auto simp: URI_transform_def URI_getScheme_def URI_setScheme_def uri_wf_def URI_getQuery_def URI_setQuery_def escape_eq Let_def)
    next
      case False
      then show ?thesis using empty base by (auto simp: URI_transform_def URI_getScheme_def URI_setScheme_def uri_wf_def Let_def)
    qed
  next
    case path
    let ?b = "if ?bh \<and> Path_isEmpty (ur_path base) then [[], []] else ur_path base"
    have "\<exists>p. (if Path_isAbsolute (ur_path relative) then Inr (ur_path relative) else Path_merge ?b (ur_path relative)) = Inr p \<and> (?bh \<longrightarrow> Path_isAbsolute p)"
    proof (cases "Path_isAbsolute (ur_path relative)")
      case False
      then have rel: "Path_isRelative (ur_path relative)" by (simp add: Path_isRelative_def)
      have "Path_isAbsolute ?b" if ?bh using that base(2) by (auto simp: uri_wf_def Path_isAbsolute_def)
      then show ?thesis using merge_absolute[of ?b, OF _ path(3) rel] False rel by (cases ?bh) (auto simp: Path_merge_def)
    qed auto
    then obtain p where p: "(if Path_isAbsolute (ur_path relative) then Inr (ur_path relative) else Path_merge ?b (ur_path relative)) = Inr p"
      "?bh \<Longrightarrow> Path_isAbsolute p" by blast
    then show ?thesis using path base relative wfd[of p] unfolding URI_transform_def by (auto simp: URI_getScheme_def URI_setScheme_def uri_wf_def)
  qed
  then show ?thesis using print by blast
qed

text \<open>The base of the examples of RFC 3986, section 5.4.\<close>

definition rfc_base :: uri where
  "rfc_base =
     URI_new\<lparr>ur_scheme := ''http'', ur_schemeDefined := True, ur_authority := Authority_setHost ''a'' (ur_authority URI_new),
       ur_path := [[], ''b'', ''c'', ''d;p''], ur_query := ''q'', ur_queryDefined := True\<rparr>"

definition rel_path :: "path \<Rightarrow> uri" where
  "rel_path p = URI_new\<lparr>ur_path := p\<rparr>"

lemma rfc_examples:
  "map_sum id ur_path (URI_transform rfc_base (rel_path [''g''])) = Inr [[], ''b'', ''c'', ''g'']"
  "map_sum id ur_path (URI_transform rfc_base (rel_path [''..''])) = Inr [[], ''b'', []]"
  "map_sum id ur_path (URI_transform rfc_base (rel_path [''..'', ''..'', ''g''])) = Inr [[], ''g'']"
  "map_sum id ur_path (URI_transform rfc_base (rel_path [''..'', ''..'', ''..'', ''g''])) = Inr [[], ''g'']"
  by code_simp+

theorem uri_transform_ok_witness:
  "ur_schemeDefined rfc_base \<and> uri_wf rfc_base \<and> uri_wf (rel_path [''..'', ''g'']) \<and>
   (\<exists>t s. URI_transform rfc_base (rel_path [''..'', ''g'']) = Inr t \<and> uri_wf t \<and> URI_print t = Inr s)"
proof -
  have "ur_schemeDefined rfc_base" "uri_wf rfc_base" "uri_wf (rel_path [''..'', ''g''])" by code_simp+
  then show ?thesis using uri_transform_ok[of rfc_base "rel_path [''..'', ''g'']"] by blast
qed

text \<open>
  A reference that is only a query is decoded and encoded again: an escaped ampersand becomes one that separates parameters. With a path in
  front the query is taken as it is.
\<close>

lemma transform_query_flaw:
  "map_sum id ur_query (URI_transform rfc_base ((rel_path [])\<lparr>ur_query := ''a=b%26c'', ur_queryDefined := True\<rparr>)) = Inr ''a=b&c''"
  "map_sum id ur_query (URI_transform rfc_base ((rel_path [''g''])\<lparr>ur_query := ''a=b%26c'', ur_queryDefined := True\<rparr>)) = Inr ''a=b%26c''"
  by code_simp+

section \<open>Normalizing and comparing\<close>

lemma dots_id: "dot_free rest \<Longrightarrow> dots out rest = out @ rest"
  by (induction rest arbitrary: out) auto

lemma tolower_idem: "tolower (tolower c) = tolower c"
  by (auto simp: tolower_def Let_def)

lemma Path_normalize_idem: "Path_normalize (Path_normalize p) = Path_normalize p"
  unfolding Path_normalize_def removeDotComponents_eq[of "Path_removeDotComponents p"]
  using dots_free[of "[]" p] by (simp add: dots_id removeDotComponents_eq)

lemma Authority_normalize_fields:
  "au_host (Authority_normalize h e p v a) = (if map tolower (au_host a) = h then [] else map tolower (au_host a))"
  "au_port (Authority_normalize h e p v a) = (if au_port a = p then -1 else au_port a)"
  "au_portDefined (Authority_normalize h e p v a) \<longleftrightarrow> au_portDefined a \<and> \<not> ((au_port a = p \<or> au_port a = -1) \<and> \<not> v)"
  "au_userinfo (Authority_normalize h e p v a) = au_userinfo a"
  "au_userinfoDefined (Authority_normalize h e p v a) = au_userinfoDefined a"
  "au_hostDefined (Authority_normalize h e p v a) \<longleftrightarrow> au_hostDefined a \<and>
     \<not> ((au_host a = [] \<or> map tolower (au_host a) = h) \<and> \<not> e \<and> \<not> au_userinfoDefined a \<and>
        \<not> (au_portDefined a \<and> \<not> ((au_port a = p \<or> au_port a = -1) \<and> \<not> v)))"
  "authority.more (Authority_normalize h e p v a) = authority.more a"
  by (auto simp: Authority_normalize_def Let_def)

lemma Authority_normalize_idem: "Authority_normalize h e p v (Authority_normalize h e p v a) = Authority_normalize h e p v a"
proof (rule authority.equality)
  show "au_host (Authority_normalize h e p v (Authority_normalize h e p v a)) = au_host (Authority_normalize h e p v a)"
    by (simp add: Authority_normalize_fields comp_def tolower_idem)
qed (auto simp: Authority_normalize_fields comp_def tolower_idem)

lemma URI_normalize_form:
  "\<exists>h e p. \<forall>u. map tolower (ur_scheme u) = s \<longrightarrow>
     URI_normalize u = u\<lparr>ur_scheme := s, ur_authority := Authority_normalize h e p False (ur_authority u), ur_path := Path_normalize (ur_path u)\<rparr>"
proof -
  consider "s = ''http''" | "s = ''https''" | "s = ''file''" | "s = ''socks''" | "s \<notin> {''http'', ''https'', ''file'', ''socks''}" by blast
  then show ?thesis by cases (fastforce simp: URI_normalize_def Let_def)+
qed

lemma URI_normalize_idem: "URI_normalize (URI_normalize u) = URI_normalize u"
proof -
  let ?s = "map tolower (ur_scheme u)"
  obtain h e p where n: "URI_normalize v = v\<lparr>ur_scheme := ?s, ur_authority := Authority_normalize h e p False (ur_authority v), ur_path := Path_normalize (ur_path v)\<rparr>"
    if "map tolower (ur_scheme v) = ?s" for v using URI_normalize_form[of ?s] by blast
  have u: "URI_normalize u = u\<lparr>ur_scheme := ?s, ur_authority := Authority_normalize h e p False (ur_authority u), ur_path := Path_normalize (ur_path u)\<rparr>"
    by (rule n) simp
  have "map tolower (ur_scheme (URI_normalize u)) = ?s" unfolding u by (simp add: comp_def tolower_idem)
  from n[OF this] show ?thesis unfolding u by (simp add: Path_normalize_idem Authority_normalize_idem)
qed

lemma boolcmp_zero: "boolcmp x y = 0 \<longleftrightarrow> x = y"
  by (auto simp: boolcmp_def)

lemma Path_cmp_zero: "Path_cmp p q = 0 \<longleftrightarrow> map c_str p = map c_str q"
  by (induction p q rule: Path_cmp.induct) (auto simp: Let_def strcmp_zero)

lemma Authority_cmp_zero:
  "Authority_cmp a b = 0 \<longleftrightarrow>
     au_hostDefined a = au_hostDefined b \<and> c_str (au_host a) = c_str (au_host b) \<and> au_portDefined a = au_portDefined b \<and> au_port a = au_port b \<and>
     au_userinfoDefined a = au_userinfoDefined b \<and> c_str (au_userinfo a) = c_str (au_userinfo b)"
  by (auto simp: Authority_cmp_def Let_def boolcmp_zero strcmp_zero)

text \<open>Two URIs compare equal exactly if they agree in every part, up to the first zero character of a string.\<close>

lemma URI_cmp_zero:
  "URI_cmp a b = 0 \<longleftrightarrow>
     ur_schemeDefined a = ur_schemeDefined b \<and> c_str (ur_scheme a) = c_str (ur_scheme b) \<and> Authority_cmp (ur_authority a) (ur_authority b) = 0 \<and>
     map c_str (ur_path a) = map c_str (ur_path b) \<and> ur_queryDefined a = ur_queryDefined b \<and> c_str (ur_query a) = c_str (ur_query b) \<and>
     ur_fragmentDefined a = ur_fragmentDefined b \<and> c_str (ur_fragment a) = c_str (ur_fragment b)"
  by (auto simp: URI_cmp_def Let_def boolcmp_zero strcmp_zero Path_cmp_zero)

section \<open>Query strings\<close>

lemma caseinsensitiveless_irrefl: "\<not> caseinsensitiveless k k"
proof -
  have "stricmp_loop s s = 0" for s by (induction s) simp_all
  then show ?thesis by (simp add: caseinsensitiveless_def)
qed

text \<open>After an assignment through \<open>operator[]\<close> there is exactly one entry for the key, with that value.\<close>

lemma QueryString_assign_range: "\<exists>k. qs_range key (QueryString_assign key v qs) = [(k, v)]"
proof -
  have lower: "\<forall>(k, w) \<in> set (qs_lower key qs). caseinsensitiveless k key" by (auto simp: qs_lower_def dest: set_takeWhileD)
  have upper: "qs_upper key qs = [] \<or> caseinsensitiveless key (fst (hd (qs_upper key qs)))"
    using hd_dropWhile[of "\<lambda>(k, _). \<not> caseinsensitiveless key k" "qs_from key qs"] unfolding qs_upper_def by (fastforce simp: case_prod_beta)
  have "\<exists>k. QueryString_assign key v qs = qs_lower key qs @ [(k, v)] @ qs_upper key qs \<and> \<not> caseinsensitiveless k key \<and> \<not> caseinsensitiveless key k"
  proof (cases "qs_range key qs")
    case Nil
    then show ?thesis by (auto simp: QueryString_assign_def caseinsensitiveless_irrefl)
  next
    case (Cons kw rest)
    obtain k w where kw: "kw = (k, w)" by (cases kw)
    have "kw \<in> set (qs_range key qs)" using Cons by simp
    then have "\<not> caseinsensitiveless key k" unfolding qs_range_def kw by (auto dest: set_takeWhileD)
    moreover have "qs_from key qs \<noteq> []" "hd (qs_from key qs) = kw" using Cons unfolding qs_range_def by (cases "qs_from key qs"; auto split: if_splits)+
    then have "\<not> caseinsensitiveless k key" using hd_dropWhile[of "\<lambda>(k, _). caseinsensitiveless k key" qs] unfolding qs_from_def kw by auto
    ultimately show ?thesis using Cons kw by (auto simp: QueryString_assign_def)
  qed
  then obtain k where k: "QueryString_assign key v qs = qs_lower key qs @ [(k, v)] @ qs_upper key qs" "\<not> caseinsensitiveless k key" "\<not> caseinsensitiveless key k" by blast
  have "qs_from key (QueryString_assign key v qs) = (k, v) # qs_upper key qs"
    unfolding qs_from_def k(1) using lower k(2) by (subst dropWhile_append2) auto
  then show ?thesis using k(3) upper unfolding qs_range_def by (cases "qs_upper key qs") auto
qed

lemma QueryString_get_assign: "QueryString_get key (QueryString_assign key v qs) = v"
  using QueryString_assign_range[of key v qs] by (auto simp: QueryString_get_def)

lemma QueryString_toString_ok: "\<exists>t. QueryString_toString qs = Inr t \<and> CHR ''#'' \<notin> set t"
proof -
  have e: "CHR ''#'' \<notin> set (escaped queryString_chars True s)" for s
    using escaped_chars[of queryString_chars True s] by (auto simp: uri_chars simp del: set_concat)
  have "\<exists>t. qs_print_loop b qs = Inr t \<and> CHR ''#'' \<notin> set t" for b
  proof (induction qs arbitrary: b)
    case (Cons kv qs)
    obtain k v where kv: "kv = (k, v)" by (cases kv)
    obtain t where "qs_print_loop False qs = Inr t" "CHR ''#'' \<notin> set t" using Cons.IH by blast
    then show ?case using e[of k] e[of v] by (cases "v = []") (simp_all add: kv escape_eq del: set_concat)
  qed simp
  then show ?thesis by (simp add: QueryString_toString_def)
qed

end
