(* ===== verification/Spec2Isabelle.thy ===== *)
theory Spec2Isabelle
  imports Buffer_Props Strings_Props Timers_Props Fiber_Props Buffered_Props Filter_Streams Parallel Chunked Pipe Scoped_Lock Worker_Pool Http_Quote Http_Respond Http_Pipeline Uri_Props
begin

text \<open>
  Verification of the Mordor C++ library (\<open>src/mordor\<close>): buffers and streams, the scheduler with its timers and its
  synchronization of fibers, strings, and the parts of HTTP that decide what is sent and in which order.

  \<^bold>\<open>How the program is modelled.\<close> The definitions follow the source function by function and keep its names, with the class
  first (\<open>Timer_cancel\<close> for \<open>Timer::cancel\<close>). An object is a record whose fields carry a short prefix
  and the name of the member. An operation takes the object and returns a result and the object it leaves. Every exception, failed
  \<open>MORDOR_ASSERT\<close>, \<open>MORDOR_NOTREACHED\<close> and undefined behaviour is a value of the type \<open>error\<close>, and
  \<open>'a result\<close> is \<open>error + 'a\<close>; \<open>ensure\<close> and \<open>andThen\<close> sequence such operations (theory
  Prelude). Sizes are natural numbers below \<open>size_mod\<close>, that is 2 to the power 64, with the wrap-around written out where the code can reach it;
  where bits matter they are words. What runs under a mutex is one step; where a fiber yields, an operation
  is split in two. Interleavings are then sequences of steps: an action type, a function that performs an action, a guard, and an
  inductive set of reachable states. Logging is left out.

  \<^bold>\<open>Shared contracts.\<close> Refinement has the locale \<open>data_refinement\<close> (an implementation with an invariant and an
  abstraction function, and a specification; what holds of one operation holds of every sequence) and \<open>guarded_actions\<close> (runs of
  enabled actions stay reachable). Streams has \<open>byte_source\<close> and \<open>byte_sink\<close>, what a stream promises that is read or
  written; Line_Stream extends them for reading lines and for sinks that take everything. Ordered_Set has \<open>set_order\<close>, what
  \<open>std::set\<close> needs of a comparator; Scoped_Lock has \<open>lockable\<close>; Filter_Streams has \<open>cat_member\<close>. Each is
  interpreted on definitions that model the code.

  \<^bold>\<open>Buffers\<close> (streams/buffer.cpp, buffer.h). Buffer_Segment has the shared arrays as a heap and \<open>SegmentData\<close>; Buffer
  has every operation of \<open>Buffer\<close> on the list of segments with its write iterator; Buffer_Inv the invariant; Buffer_Moves,
  Buffer_Copy, Buffer_Slices and Buffer_Search the correctness of the operations; Buffer_World several buffers that share arrays. Buffer_Props:
  buffers behave like separate strings, stay well formed, and the debug self-check never fails; slices, searching and
  lines on every branch.

  \<^bold>\<open>Strings\<close> (string.cpp). Strings has base64, hexadecimal, \<open>replace\<close>, \<open>split\<close>, durations, UTF-8 and the
  case-insensitive order; Strings_Coding, Strings_Text and Strings_Props show round trips, memory safety of the decoders, equivalence with
  definitions without indices, and when \<open>replace\<close> does not return.

  \<^bold>\<open>Timers\<close> (timer.cpp). Timers has the timer objects in a heap and the \<open>std::set\<close> that compares them by what they
  hold at the moment; Timers_Inv and Timers_Props show that this refines a map of armed timers, how long to wait, and when the clock counts as
  rolled over.

  \<^bold>\<open>Fibers\<close> (fibersynchronization.cpp and .h). Fiber_Sync has the mutexes, semaphore, condition and event; Fiber_World their
  interleavings; Fiber_Props shows that the mutex with its condition is a ticket lock with bounded waiting, and the contracts of the others. Scoped_Lock
  has the template that holds a lock.

  \<^bold>\<open>Scheduler\<close> (scheduler.cpp and .h, workerpool.cpp, parallel.cpp and .h). Scheduler has the queue and the loop of the threads:
  every piece of work is run once, on its thread, and stopping waits for all of it. Worker_Pool adds the semaphore on which idle
  threads wait: no wakeup is lost. Parallel has \<open>parallel_do\<close> and \<open>parallel_foreach\<close>: every functor or element once, and the
  caller is resumed once.

  \<^bold>\<open>Streams\<close> (streams/). A stream that wraps another takes its operations as arguments, and its data is a list of bytes, which
  is what the Buffer theories justify. Memory_Stream (memory.cpp) refines a file; Buffered_Stream and Buffered_Props (buffered.cpp) show that
  reading is transparent and that a write happens once or not at all; Filter_Streams has limited.cpp and cat.cpp; Transfer_Stream transfer.cpp, with
  both of its buffers; Line_Stream \<open>getDelimited\<close> of stream.cpp; Pipe pipe.cpp, both ends in any interleaving: bytes
  arrive in order, and no fiber waits in vain.

  \<^bold>\<open>HTTP\<close> (http/). Chunked has chunked.cpp: what is written is read back, and the error for each malformed input. Http_Quote
  has the quoting of header values (http.cpp, http_parser.rl); Http_Values versions, entity tags and the choice of the preferred
  value (http.h, http.cpp); Http_Respond message bodies, ranges and preconditions (connection.cpp, server.cpp). Http_Server has the
  pipeline of \<open>ServerConnection\<close> and \<open>ServerRequest\<close> (server.cpp), each critical section an operation, and Http_Pipeline its
  interleavings: responses are written in the order of the requests and none is forgotten.

  \<^bold>\<open>URIs\<close> (uri.h, uri.rl). Uri_Escape has percent encoding and its inverse; Uri_Path paths and the removal of dot segments,
  compared with RFC 3986; Uri the authority, query strings, printing, normalizing, resolving and comparing; Uri_Props shows that
  a printed URI can be taken apart again and that resolving always gives a URI that can be printed.

  \<^bold>\<open>Termination and bounds.\<close> Loops are total functions with a measure, except those that depend on another stream or may run
  forever (\<open>replace\<close> with an empty pattern, the loops of transfer, of buffered and of concatenated streams), which are partial
  functions into \<open>option\<close>; their properties say that they return. The one use of fuel is \<open>read_all\<close> of Chunked, which reads a
  whole stream for the round trip: the property holds for every fuel above the length of the data. Numbers of requests in
  Http_Server stay below \<open>~0ull\<close>, which the code uses for "none".

  \<^bold>\<open>Assumed of callers.\<close> Guards of actions say what the code around a component guarantees: a fiber acts only where it is, a thread
  runs its own loop, a stream keeps its contract. Where the library breaks such a guarantee itself, a lemma shows the run (for example
  \<open>cancel_waiting_breaks\<close>, \<open>next_request_lost\<close>, \<open>pool_shrink_strands_work\<close>).

  \<^bold>\<open>Not modelled.\<close> System calls and the objects that only wrap them: I/O managers, sockets, file, handle and socket streams, daemon and threads.
  Switching stacks: fiber.cpp and coroutine.h. Calls of libraries whose code is not in the repository: OpenSSL, zlib,
  liblzma, libpq, iconv, protobuf, yaml-cpp. Parsers that ragel generates at build time (http_parser.rl, uri.rl, json.rl, xml_parser.rl), except the C++ code
  that is named above. The HTTP client, proxy, broker, multipart and servlets, and authentication, which are built on those.
  Registries of configuration, logs and statistics.
\<close>

end
